(* ===== verification/Prelude.thy ===== *)
theory Prelude
  imports Main "HOL-Library.Word" "HOL-Library.List_Lexorder"
begin

text \<open>
  What every component of the development shares: names for the machine integers and byte strings
  of the Rust sources, errors as values, the arithmetic of the standard library's fixed-width
  integers (\<open>checked_*\<close>, \<open>saturating_*\<close>), and the byte codecs \<open>to_le_bytes\<close> / \<open>to_be_bytes\<close>
  with their inverses.  A \<open>String\<close> is the list of its Unicode scalar values (\<open>ustr\<close>).

  Conventions: a \<open>usize\<close> is a \<^typ>\<open>nat\<close> whose 64-bit bound is written out wherever the source
  checks it; \<open>Result<T, E>\<close> is the sum \<open>E + T\<close>; a call that can panic returns a \<open>rust\<close> value.
\<close>

named_theorems codec "round trips and widths of the fixed-width byte codecs"
named_theorems arith_spec "what the checked and saturating word operations compute on naturals"

type_synonym u8 = "8 word"
type_synonym u32 = "32 word"
type_synonym u64 = "64 word"
type_synonym u128 = "128 word"
type_synonym u256 = "256 word"
type_synonym usize = nat
type_synonym bytes = "8 word list"
type_synonym ustr = "nat list"

section \<open>Errors and panics as values\<close>

datatype 'a rust = Panic | Val 'a

datatype ordering = Less | Equal | Greater

definition res_bind :: "'e + 'a \<Rightarrow> ('a \<Rightarrow> 'e + 'b) \<Rightarrow> 'e + 'b" where
  "res_bind r f = (case r of Inl e \<Rightarrow> Inl e | Inr v \<Rightarrow> f v)"

definition ok_or :: "'a option \<Rightarrow> 'e \<Rightarrow> 'e + 'a" where
  "ok_or x e = (case x of None \<Rightarrow> Inl e | Some v \<Rightarrow> Inr v)"

definition map_err :: "('e \<Rightarrow> 'f) \<Rightarrow> 'e + 'a \<Rightarrow> 'f + 'a" where
  "map_err f r = (case r of Inl e \<Rightarrow> Inl (f e) | Inr v \<Rightarrow> Inr v)"

lemma res_bind_simps [simp]:
  "res_bind (Inl e) f = Inl e" "res_bind (Inr v) f = f v"
  by (simp_all add: res_bind_def)

lemma res_bind_Inr_iff: "res_bind r f = Inr v \<longleftrightarrow> (\<exists>x. r = Inr x \<and> f x = Inr v)"
  by (cases r) auto

lemma res_bind_assoc: "res_bind (res_bind r f) g = res_bind r (\<lambda>x. res_bind (f x) g)"
  by (cases r) auto

lemma ok_or_simps [simp]: "ok_or None e = Inl e" "ok_or (Some v) e = Inr v"
  by (simp_all add: ok_or_def)

lemma ok_or_Inr_iff [simp]: "ok_or x e = Inr v \<longleftrightarrow> x = Some v"
  by (cases x) auto

lemma map_err_simps [simp]: "map_err f (Inl e) = Inl (f e)" "map_err f (Inr v) = Inr v"
  by (simp_all add: map_err_def)

section \<open>Fixed-width integer arithmetic\<close>

definition usize_max :: nat where
  "usize_max = 2 ^ 64 - 1"

definition usize_checked_add :: "usize \<Rightarrow> usize \<Rightarrow> usize option" where
  "usize_checked_add a b = (if a + b \<le> usize_max then Some (a + b) else None)"

text \<open>No Rust slice or vector is longer than \<open>isize::MAX\<close> bytes.\<close>

definition isize_max :: nat where
  "isize_max = 2 ^ 63 - 1"

text \<open>\<open>slice.get(a..b)\<close>\<close>

definition slice_get :: "'a list \<Rightarrow> usize \<Rightarrow> usize \<Rightarrow> 'a list option" where
  "slice_get xs a b = (if a \<le> b \<and> b \<le> length xs then Some (take (b - a) (drop a xs)) else None)"

definition wmax :: "'a::len word" where
  "wmax = - 1"

definition wchecked_add :: "'a::len word \<Rightarrow> 'a word \<Rightarrow> 'a word option" where
  "wchecked_add a b = (if unat a + unat b < 2 ^ LENGTH('a) then Some (a + b) else None)"

definition wchecked_sub :: "'a::len word \<Rightarrow> 'a word \<Rightarrow> 'a word option" where
  "wchecked_sub a b = (if b \<le> a then Some (a - b) else None)"

definition wchecked_mul :: "'a::len word \<Rightarrow> 'a word \<Rightarrow> 'a word option" where
  "wchecked_mul a b = (if unat a * unat b < 2 ^ LENGTH('a) then Some (a * b) else None)"

definition wchecked_div :: "'a::len word \<Rightarrow> 'a word \<Rightarrow> 'a word option" where
  "wchecked_div a b = (if b = 0 then None else Some (a div b))"

definition wsat_add :: "'a::len word \<Rightarrow> 'a word \<Rightarrow> 'a word" where
  "wsat_add a b = (case wchecked_add a b of Some c \<Rightarrow> c | None \<Rightarrow> wmax)"

definition wsat_sub :: "'a::len word \<Rightarrow> 'a word \<Rightarrow> 'a word" where
  "wsat_sub a b = (case wchecked_sub a b of Some c \<Rightarrow> c | None \<Rightarrow> 0)"

lemma unat_wmax [arith_spec]: "unat (wmax :: 'a::len word) = 2 ^ LENGTH('a) - 1"
  by (simp add: wmax_def unsigned_minus_1_eq_mask mask_eq_exp_minus_1)

lemma unat_lt: "unat (a :: 'a::len word) < 2 ^ LENGTH('a)"
  by (rule unsigned_less)

lemma unat_add_nowrap:
  fixes a b :: "'a::len word"
  assumes "unat a + unat b < 2 ^ LENGTH('a)"
  shows "unat (a + b) = unat a + unat b"
  using assms by (simp add: unat_word_ariths)

lemma unat_mul_nowrap:
  fixes a b :: "'a::len word"
  assumes "unat a * unat b < 2 ^ LENGTH('a)"
  shows "unat (a * b) = unat a * unat b"
  using assms by (simp add: unat_word_ariths)

lemma unat_sub_nowrap:
  fixes a b :: "'a::len word"
  assumes "b \<le> a"
  shows "unat (a - b) = unat a - unat b"
  using assms by (simp add: unat_sub)

lemma wchecked_add_Some [arith_spec]:
  fixes a b c :: "'a::len word"
  shows "wchecked_add a b = Some c \<longleftrightarrow> unat c = unat a + unat b"
proof -
  have "unat c = unat a + unat b \<Longrightarrow> c = a + b"
    using unat_lt [of c] by (metis unat_add_nowrap word_unat_eq_iff)
  then show ?thesis
    by (auto simp: wchecked_add_def unat_add_nowrap) (metis unat_lt)
qed

lemma wchecked_add_None [arith_spec]:
  fixes a b :: "'a::len word"
  shows "wchecked_add a b = None \<longleftrightarrow> 2 ^ LENGTH('a) \<le> unat a + unat b"
  by (auto simp: wchecked_add_def)

lemma wchecked_sub_Some [arith_spec]:
  fixes a b c :: "'a::len word"
  shows "wchecked_sub a b = Some c \<longleftrightarrow> unat a = unat b + unat c"
proof -
  have "unat a = unat b + unat c \<Longrightarrow> c = a - b \<and> b \<le> a"
    by (metis add_diff_cancel_left' le_add1 unat_sub_nowrap word_le_nat_alt word_unat_eq_iff)
  then show ?thesis
    by (auto simp: wchecked_sub_def unat_sub_nowrap word_le_nat_alt)
qed

lemma wchecked_sub_None [arith_spec]:
  "wchecked_sub a b = None \<longleftrightarrow> unat a < unat b"
  by (auto simp: wchecked_sub_def word_le_nat_alt)

lemma wchecked_mul_Some [arith_spec]:
  fixes a b c :: "'a::len word"
  shows "wchecked_mul a b = Some c \<longleftrightarrow> unat c = unat a * unat b"
proof -
  have "unat c = unat a * unat b \<Longrightarrow> c = a * b"
    using unat_lt [of c] by (metis unat_mul_nowrap word_unat_eq_iff)
  then show ?thesis
    by (auto simp: wchecked_mul_def unat_mul_nowrap) (metis unat_lt)
qed

lemma wchecked_mul_None [arith_spec]:
  fixes a b :: "'a::len word"
  shows "wchecked_mul a b = None \<longleftrightarrow> 2 ^ LENGTH('a) \<le> unat a * unat b"
  by (auto simp: wchecked_mul_def)

lemma unat_wsat_add [arith_spec]:
  fixes a b :: "'a::len word"
  shows "unat (wsat_add a b) = min (unat a + unat b) (2 ^ LENGTH('a) - 1)"
  by (auto simp: wsat_add_def unat_wmax min_def wchecked_add_def unat_add_nowrap)

lemma unat_wsat_sub [arith_spec]:
  fixes a b :: "'a::len word"
  shows "unat (wsat_sub a b) = unat a - unat b"
  by (auto simp: wsat_sub_def wchecked_sub_def unat_sub_nowrap word_le_nat_alt)

lemma le_wsat_add: "a \<le> wsat_add a b"
  using unat_lt [of a] by (simp add: word_le_nat_alt unat_wsat_add le_diff_conv2 Suc_le_eq)

lemma unat_ucast_up:
  assumes "LENGTH('a::len) \<le> LENGTH('b::len)"
  shows "unat (ucast (a :: 'a word) :: 'b word) = unat a"
proof -
  have "unat a < 2 ^ LENGTH('b)"
    using unat_lt [of a] assms by (meson less_le_trans one_le_numeral power_increasing)
  then show ?thesis
    by (simp add: unsigned_ucast_eq take_bit_nat_eq_self)
qed

section \<open>Text\<close>

text \<open>
  Well-formed UTF-8, as \<open>core::str::from_utf8\<close> checks it: continuation bytes, no overlong forms,
  no surrogates, nothing above U+10FFFF.
\<close>

definition utf8_cont :: "u8 \<Rightarrow> bool" where
  "utf8_cont b = (0x80 \<le> b \<and> b \<le> 0xBF)"

fun utf8_valid :: "bytes \<Rightarrow> bool" where
  "utf8_valid [] = True"
| "utf8_valid (a # r) =
     (if a < 0x80 then utf8_valid r
      else case r of
        [] \<Rightarrow> False
      | b # r2 \<Rightarrow>
          if 0xC2 \<le> a \<and> a \<le> 0xDF then utf8_cont b \<and> utf8_valid r2
          else case r2 of
            [] \<Rightarrow> False
          | c # r3 \<Rightarrow>
              if 0xE0 \<le> a \<and> a \<le> 0xEF then
                utf8_cont b \<and> utf8_cont c \<and> (a = 0xE0 \<longrightarrow> 0xA0 \<le> b) \<and> (a = 0xED \<longrightarrow> b \<le> 0x9F) \<and>
                utf8_valid r3
              else case r3 of
                [] \<Rightarrow> False
              | d # r4 \<Rightarrow>
                  0xF0 \<le> a \<and> a \<le> 0xF4 \<and> utf8_cont b \<and> utf8_cont c \<and> utf8_cont d \<and>
                  (a = 0xF0 \<longrightarrow> 0x90 \<le> b) \<and> (a = 0xF4 \<longrightarrow> b \<le> 0x8F) \<and> utf8_valid r4)"

lemma utf8_valid_ascii: "\<forall>b \<in> set bs. b < 0x80 \<Longrightarrow> utf8_valid bs"
  by (induction bs) auto

section \<open>Byte codecs\<close>

text \<open>
  \<open>le_bytes n x\<close> is the \<open>n\<close>-byte little-endian image of a natural, \<open>le_val\<close> reads one back;
  the word-level functions below are Rust's \<open>to_le_bytes\<close>, \<open>from_le_bytes\<close> and their big-endian
  counterparts at the width of the word type.
\<close>

fun le_bytes :: "nat \<Rightarrow> nat \<Rightarrow> bytes" where
  "le_bytes 0 x = []"
| "le_bytes (Suc n) x = of_nat (x mod 256) # le_bytes n (x div 256)"

fun le_val :: "bytes \<Rightarrow> nat" where
  "le_val [] = 0"
| "le_val (b # bs) = unat b + 256 * le_val bs"

definition to_le :: "'a::len word \<Rightarrow> bytes" where
  "to_le w = le_bytes (LENGTH('a) div 8) (unat w)"

definition from_le :: "bytes \<Rightarrow> 'a::len word" where
  "from_le bs = of_nat (le_val bs)"

definition to_be :: "'a::len word \<Rightarrow> bytes" where
  "to_be w = rev (to_le w)"

definition from_be :: "bytes \<Rightarrow> 'a::len word" where
  "from_be bs = from_le (rev bs)"

lemma length_le_bytes [simp]: "length (le_bytes n x) = n"
  by (induction n arbitrary: x) auto

lemma le_val_le_bytes: "le_val (le_bytes n x) = x mod 256 ^ n"
proof (induction n arbitrary: x)
  case (Suc n)
  have "x mod 256 ^ Suc n = x mod 256 + 256 * (x div 256 mod 256 ^ n)"
    using mod_mult2_eq [of x 256 "256 ^ n"] by simp
  moreover have "unat (of_nat (x mod 256) :: u8) = x mod 256"
    by (simp add: unat_of_nat)
  ultimately show ?case using Suc by simp
qed simp

lemma le_val_bound: "le_val bs < 256 ^ length bs"
proof (induction bs)
  case (Cons b bs)
  have "unat b < 256" using unat_lt [of b] by simp
  with Cons show ?case by simp
qed simp

lemma le_bytes_le_val: "le_bytes (length bs) (le_val bs) = bs"
proof (induction bs)
  case (Cons b bs)
  have "unat b < 256" using unat_lt [of b] by simp
  then have "(unat b + 256 * le_val bs) mod 256 = unat b"
    and "(unat b + 256 * le_val bs) div 256 = le_val bs" by auto
  with Cons show ?case by simp
qed simp

lemma le_bytes_add: "le_bytes (m + n) x = le_bytes m x @ le_bytes n (x div 256 ^ m)"
  by (induction m arbitrary: x) (auto simp: div_mult2_eq)

lemma le_val_zero_iff: "le_val bs = 0 \<longleftrightarrow> (\<forall>b \<in> set bs. b = 0)"
  by (induction bs) (auto simp: unat_eq_zero)

lemma pow256: "8 dvd k \<Longrightarrow> (256::nat) ^ (k div 8) = 2 ^ k"
proof -
  assume "8 dvd k"
  then obtain m where "k = 8 * m" by blast
  then show ?thesis by (simp add: power_mult)
qed

lemma length_to_le [simp]: "length (to_le (w :: 'a::len word)) = LENGTH('a) div 8"
  by (simp add: to_le_def)

lemma length_to_be [simp]: "length (to_be (w :: 'a::len word)) = LENGTH('a) div 8"
  by (simp add: to_be_def)

lemma from_le_to_le: "8 dvd LENGTH('a) \<Longrightarrow> from_le (to_le (w :: 'a::len word)) = w"
  by (simp add: from_le_def to_le_def le_val_le_bytes pow256 unat_lt)

lemma to_le_from_le:
  assumes "8 dvd LENGTH('a)" and "length bs = LENGTH('a) div 8"
  shows "to_le (from_le bs :: 'a::len word) = bs"
proof -
  have "le_val bs < 2 ^ LENGTH('a)"
    using le_val_bound [of bs] assms by (simp add: pow256)
  then have "unat (of_nat (le_val bs) :: 'a word) = le_val bs"
    by (simp add: unat_of_nat)
  then show ?thesis
    using le_bytes_le_val [of bs] assms(2) by (simp add: to_le_def from_le_def)
qed

text \<open>
  The contract of a fixed-width codec: what the wire formats rely on. Every encoder of the
  development that concatenates fixed-width fields rests on these consequences.
\<close>

locale byte_codec =
  fixes enc :: "'v \<Rightarrow> bytes" and dec :: "bytes \<Rightarrow> 'v" and width :: nat
  assumes width_enc: "length (enc v) = width"
    and dec_enc: "dec (enc v) = v"
    and enc_dec: "length bs = width \<Longrightarrow> enc (dec bs) = bs"
begin

lemma dec_take: "dec (take width (enc v @ rest)) = v"
  by (simp add: width_enc dec_enc)

lemma drop_enc: "drop width (enc v @ rest) = rest"
  by (simp add: width_enc)

lemma enc_inj: "enc v = enc w \<longleftrightarrow> v = w"
  by (metis dec_enc)

lemma enc_append_inj: "enc v @ r = enc w @ s \<longleftrightarrow> v = w \<and> r = s"
  by (auto simp: width_enc enc_inj append_eq_append_conv)

end

interpretation le64: byte_codec "to_le :: u64 \<Rightarrow> bytes" from_le 8
  by unfold_locales (simp_all add: from_le_to_le to_le_from_le)

interpretation be64: byte_codec "to_be :: u64 \<Rightarrow> bytes" from_be 8
  by unfold_locales (simp_all add: to_be_def from_be_def from_le_to_le to_le_from_le)

interpretation be32: byte_codec "to_be :: u32 \<Rightarrow> bytes" from_be 4
  by unfold_locales (simp_all add: to_be_def from_be_def from_le_to_le to_le_from_le)

interpretation be128: byte_codec "to_be :: u128 \<Rightarrow> bytes" from_be 16
  by unfold_locales (simp_all add: to_be_def from_be_def from_le_to_le to_le_from_le)

interpretation le256: byte_codec "to_le :: u256 \<Rightarrow> bytes" from_le 32
  by unfold_locales (simp_all add: from_le_to_le to_le_from_le)

interpretation be256: byte_codec "to_be :: u256 \<Rightarrow> bytes" from_be 32
  by unfold_locales (simp_all add: to_be_def from_be_def from_le_to_le to_le_from_le)

lemmas codec_roundtrips [codec] =
  le64.dec_enc le64.dec_take le64.drop_enc le64.enc_append_inj
  be64.dec_enc be64.dec_take be64.drop_enc be64.enc_append_inj
  be32.dec_enc be32.dec_take be32.drop_enc be32.enc_append_inj
  be128.dec_enc be128.dec_take be128.drop_enc be128.enc_append_inj
  le256.dec_enc le256.dec_take le256.drop_enc le256.enc_append_inj
  be256.dec_enc be256.dec_take be256.drop_enc be256.enc_append_inj

text \<open>
  The big-endian image is ordered like the number it denotes (compared byte by byte, as a
  \<open>BLOB\<close> comparison does).
\<close>

lemma le_val_append: "le_val (xs @ ys) = le_val xs + 256 ^ length xs * le_val ys"
  by (induction xs) (auto simp: algebra_simps)

lemma rev_less_le_val:
  "length xs = length ys \<Longrightarrow> xs < ys \<longleftrightarrow> le_val (rev xs) < le_val (rev ys)"
proof (induction xs ys rule: list_induct2)
  case (Cons x xs y ys)
  have b: "le_val (rev xs) < 256 ^ length xs" "le_val (rev ys) < 256 ^ length xs"
    using le_val_bound [of "rev xs"] le_val_bound [of "rev ys"] Cons.hyps by simp_all
  have step: "a + n * unat u < b + n * unat v"
    if "a < n" "u < v" for a b n :: nat and u v :: u8
  proof -
    have "n * (unat u + 1) \<le> n * unat v"
      using that by (intro mult_le_mono2) (simp add: word_less_nat_alt)
    with that show ?thesis by simp
  qed
  show ?case
  proof (cases x y rule: linorder_cases)
    case greater
    then show ?thesis
      using Cons step [OF b(2) greater, of "le_val (rev xs)"] by (auto simp: le_val_append)
  qed (use Cons step [OF b(1)] in \<open>auto simp: le_val_append\<close>)
qed simp

lemma to_be_less_iff:
  assumes "8 dvd LENGTH('a)"
  shows "to_be (v :: 'a::len word) < to_be w \<longleftrightarrow> v < w"
proof -
  have "le_val (rev (to_be x)) = unat x" for x :: "'a word"
    using assms by (simp add: to_be_def to_le_def le_val_le_bytes pow256 unat_lt)
  then show ?thesis
    by (subst rev_less_le_val) (simp_all add: word_less_nat_alt)
qed

end
