(* ===== verification/Amount256.thy ===== *)
theory Amount256
  imports Prelude
begin

text \<open>
  The crate \<open>knomosis-amount\<close> (\<open>src/runtime/knomosis-amount/src/lib.rs\<close>): the 256-bit accounting
  scalar \<open>Amount\<close>, its checked and saturating arithmetic, its byte codecs, and the hand-written
  decimal printer and parser.

  \<open>Amount\<close> wraps the type \<open>U256\<close> of the external crate \<open>crypto_bigint\<close>. That type is a parameter
  here: a record of the operations the source calls, over an arbitrary carrier. What the source
  relies on is the locale \<open>u256_laws\<close>: the operations compute on the natural number \<open>val\<close> that a
  carrier element denotes. \<open>word_engine\<close> is one implementation, on 256-bit words.
\<close>

section \<open>The external integer type\<close>

record 'u u256_engine =
  u_zero :: 'u
  u_one :: 'u
  u_max :: 'u
  u_from_u64 :: "u64 \<Rightarrow> 'u"
  u_from_u128 :: "u128 \<Rightarrow> 'u"
  u_checked_add :: "'u \<Rightarrow> 'u \<Rightarrow> 'u option"
  u_checked_sub :: "'u \<Rightarrow> 'u \<Rightarrow> 'u option"
  u_checked_mul :: "'u \<Rightarrow> 'u \<Rightarrow> 'u option"
  u_div_rem :: "'u \<Rightarrow> 'u \<Rightarrow> 'u \<times> 'u"
  u_to_be_bytes :: "'u \<Rightarrow> bytes"
  u_from_be_bytes :: "bytes \<Rightarrow> 'u"
  u_to_le_bytes :: "'u \<Rightarrow> bytes"
  u_from_le_bytes :: "bytes \<Rightarrow> 'u"
  u_cmp :: "'u \<Rightarrow> 'u \<Rightarrow> ordering"

section \<open>The type and its operations\<close>

definition AMOUNT_BYTES :: usize where
  "AMOUNT_BYTES = 32"

definition AMOUNT_MAX_DECIMAL_DIGITS :: usize where
  "AMOUNT_MAX_DECIMAL_DIGITS = 78"

datatype AmountError = WrongLength usize | Empty | NonDigit usize | Overflow

datatype 'u Amount = Amount 'u

definition amount_zero :: "'u u256_engine \<Rightarrow> 'u Amount" where
  "amount_zero E = Amount (u_zero E)"

definition amount_one :: "'u u256_engine \<Rightarrow> 'u Amount" where
  "amount_one E = Amount (u_one E)"

definition amount_max :: "'u u256_engine \<Rightarrow> 'u Amount" where
  "amount_max E = Amount (u_max E)"

definition from_u128 :: "'u u256_engine \<Rightarrow> u128 \<Rightarrow> 'u Amount" where
  "from_u128 E v = Amount (u_from_u128 E v)"

definition from_u64 :: "'u u256_engine \<Rightarrow> u64 \<Rightarrow> 'u Amount" where
  "from_u64 E v = Amount (u_from_u64 E v)"

fun to_be_bytes :: "'u u256_engine \<Rightarrow> 'u Amount \<Rightarrow> bytes" where
  "to_be_bytes E (Amount n) = u_to_be_bytes E n"

fun to_le_bytes :: "'u u256_engine \<Rightarrow> 'u Amount \<Rightarrow> bytes" where
  "to_le_bytes E (Amount n) = u_to_le_bytes E n"

definition from_be_bytes :: "'u u256_engine \<Rightarrow> bytes \<Rightarrow> 'u Amount" where
  "from_be_bytes E bs = Amount (u_from_be_bytes E bs)"

definition from_le_bytes :: "'u u256_engine \<Rightarrow> bytes \<Rightarrow> 'u Amount" where
  "from_le_bytes E bs = Amount (u_from_le_bytes E bs)"

definition from_be_slice :: "'u u256_engine \<Rightarrow> bytes \<Rightarrow> AmountError + 'u Amount" where
  "from_be_slice E bs =
     (if length bs = AMOUNT_BYTES then Inr (from_be_bytes E bs) else Inl (WrongLength (length bs)))"

definition to_u128 :: "'u u256_engine \<Rightarrow> 'u Amount \<Rightarrow> u128 option" where
  "to_u128 E a =
     (let bytes = to_be_bytes E a in
      if list_ex (\<lambda>b. b \<noteq> 0) (take 16 bytes) then None
      else Some (from_be (drop 16 bytes)))"

definition try_into_u128 :: "'u u256_engine \<Rightarrow> 'u Amount \<Rightarrow> AmountError + u128" where
  "try_into_u128 E a = ok_or (to_u128 E a) Overflow"

fun is_zero :: "'u u256_engine \<Rightarrow> 'u Amount \<Rightarrow> bool" where
  "is_zero E (Amount n) = (n = u_zero E)"

fun amount_checked_add :: "'u u256_engine \<Rightarrow> 'u Amount \<Rightarrow> 'u Amount \<Rightarrow> 'u Amount option" where
  "amount_checked_add E (Amount a) (Amount b) = map_option Amount (u_checked_add E a b)"

fun amount_checked_sub :: "'u u256_engine \<Rightarrow> 'u Amount \<Rightarrow> 'u Amount \<Rightarrow> 'u Amount option" where
  "amount_checked_sub E (Amount a) (Amount b) = map_option Amount (u_checked_sub E a b)"

fun amount_checked_mul :: "'u u256_engine \<Rightarrow> 'u Amount \<Rightarrow> 'u Amount \<Rightarrow> 'u Amount option" where
  "amount_checked_mul E (Amount a) (Amount b) = map_option Amount (u_checked_mul E a b)"

definition amount_saturating_add :: "'u u256_engine \<Rightarrow> 'u Amount \<Rightarrow> 'u Amount \<Rightarrow> 'u Amount" where
  "amount_saturating_add E a b =
     (case amount_checked_add E a b of Some c \<Rightarrow> c | None \<Rightarrow> amount_max E)"

definition amount_saturating_sub :: "'u u256_engine \<Rightarrow> 'u Amount \<Rightarrow> 'u Amount \<Rightarrow> 'u Amount" where
  "amount_saturating_sub E a b =
     (case amount_checked_sub E a b of Some c \<Rightarrow> c | None \<Rightarrow> amount_zero E)"

fun amount_cmp :: "'u u256_engine \<Rightarrow> 'u Amount \<Rightarrow> 'u Amount \<Rightarrow> ordering" where
  "amount_cmp E (Amount a) (Amount b) = u_cmp E a b"

section \<open>Decimal printing and parsing\<close>

text \<open>
  The printing loop writes digits into a buffer of \<open>AMOUNT_MAX_DECIMAL_DIGITS\<close> slots; \<open>slots\<close> is
  what is left of it, and writing past its end is the index panic of the source. Text is its
  UTF-8 bytes.
\<close>

fun fmt_loop :: "'u u256_engine \<Rightarrow> nat \<Rightarrow> 'u \<Rightarrow> bytes \<Rightarrow> bytes rust" where
  "fmt_loop E 0 n digits = (if n = u_zero E then Val digits else Panic)"
| "fmt_loop E (Suc slots) n digits =
     (if n = u_zero E then Val digits
      else let (quotient, remainder) = u_div_rem E n (u_from_u64 E 10);
               digit = u_to_be_bytes E remainder ! (AMOUNT_BYTES - 1)
           in fmt_loop E slots quotient (digits @ [48 + digit]))"

definition fmt :: "'u u256_engine \<Rightarrow> 'u Amount \<Rightarrow> bytes rust" where
  "fmt E a =
     (if is_zero E a then Val [48]
      else case a of Amount n \<Rightarrow>
        (case fmt_loop E AMOUNT_MAX_DECIMAL_DIGITS n [] of
           Panic \<Rightarrow> Panic
         | Val digits \<Rightarrow> (if utf8_valid (rev digits) then Val (rev digits) else Panic)))"

definition is_ascii_digit :: "u8 \<Rightarrow> bool" where
  "is_ascii_digit b = (48 \<le> b \<and> b \<le> 57)"

fun from_str_loop :: "'u u256_engine \<Rightarrow> bytes \<Rightarrow> usize \<Rightarrow> 'u \<Rightarrow> AmountError + 'u" where
  "from_str_loop E [] offset acc = Inr acc"
| "from_str_loop E (byte # rest) offset acc =
     (if \<not> is_ascii_digit byte then Inl (NonDigit offset)
      else let digit = u_from_u64 E (ucast (byte - 48))
           in res_bind (ok_or (u_checked_mul E acc (u_from_u64 E 10)) Overflow) (\<lambda>scaled.
              res_bind (ok_or (u_checked_add E scaled digit) Overflow) (\<lambda>acc'.
              from_str_loop E rest (offset + 1) acc')))"

definition from_str :: "'u u256_engine \<Rightarrow> bytes \<Rightarrow> AmountError + 'u Amount" where
  "from_str E s =
     (if s = [] then Inl Empty
      else res_bind (from_str_loop E s 0 (u_zero E)) (\<lambda>acc. Inr (Amount acc)))"

text \<open>
  Serialisation writes the decimal text as a JSON string; the visitor accepts that text and, for
  documents of the predecessor type, a bare integer.
\<close>

datatype json_scalar = JStr bytes | JU64 u64 | JU128 u128 | JI64 u64

datatype VisitError = Custom AmountError | MustNotBeNegative

definition serialize :: "'u u256_engine \<Rightarrow> 'u Amount \<Rightarrow> json_scalar rust" where
  "serialize E a = (case fmt E a of Panic \<Rightarrow> Panic | Val s \<Rightarrow> Val (JStr s))"

fun deserialize :: "'u u256_engine \<Rightarrow> json_scalar \<Rightarrow> VisitError + 'u Amount" where
  "deserialize E (JStr s) = map_err Custom (from_str E s)"
| "deserialize E (JU64 v) = Inr (from_u64 E v)"
| "deserialize E (JU128 v) = Inr (from_u128 E v)"
| "deserialize E (JI64 v) =
     (if 0 \<le> sint v then Inr (from_u64 E v) else Inl MustNotBeNegative)"

section \<open>What the source relies on\<close>

locale u256_laws =
  fixes E :: "'u u256_engine" and val :: "'u \<Rightarrow> nat"
  assumes val_inj: "val x = val y \<Longrightarrow> x = y"
    and val_bound: "val x < 2 ^ 256"
    and val_zero: "val (u_zero E) = 0"
    and val_one: "val (u_one E) = 1"
    and val_max: "val (u_max E) = 2 ^ 256 - 1"
    and val_from_u64: "val (u_from_u64 E a) = unat a"
    and val_from_u128: "val (u_from_u128 E b) = unat b"
    and val_add: "map_option val (u_checked_add E x y) =
      (if val x + val y < 2 ^ 256 then Some (val x + val y) else None)"
    and val_sub: "map_option val (u_checked_sub E x y) =
      (if val y \<le> val x then Some (val x - val y) else None)"
    and val_mul: "map_option val (u_checked_mul E x y) =
      (if val x * val y < 2 ^ 256 then Some (val x * val y) else None)"
    and val_div_rem: "val y \<noteq> 0 \<Longrightarrow>
      val (fst (u_div_rem E x y)) = val x div val y \<and> val (snd (u_div_rem E x y)) = val x mod val y"
    and to_be_val: "u_to_be_bytes E x = to_be (of_nat (val x) :: u256)"
    and val_from_be: "length bs = 32 \<Longrightarrow> val (u_from_be_bytes E bs) = unat (from_be bs :: u256)"
    and to_le_val: "u_to_le_bytes E x = to_le (of_nat (val x) :: u256)"
    and val_from_le: "length bs = 32 \<Longrightarrow> val (u_from_le_bytes E bs) = unat (from_le bs :: u256)"
    and cmp_val: "u_cmp E x y =
      (if val x < val y then Less else if val x = val y then Equal else Greater)"

definition word_engine :: "u256 u256_engine" where
  "word_engine = \<lparr>u_zero = 0, u_one = 1, u_max = wmax,
     u_from_u64 = ucast, u_from_u128 = ucast,
     u_checked_add = wchecked_add, u_checked_sub = wchecked_sub, u_checked_mul = wchecked_mul,
     u_div_rem = (\<lambda>a b. (a div b, a mod b)),
     u_to_be_bytes = to_be, u_from_be_bytes = from_be,
     u_to_le_bytes = to_le, u_from_le_bytes = from_le,
     u_cmp = (\<lambda>a b. if a < b then Less else if a = b then Equal else Greater)\<rparr>"

lemma u256_lt: "unat (x :: u256) < 2 ^ 256"
  using unat_lt [of x] by simp

interpretation word256: u256_laws word_engine unat
  by unfold_locales
    (auto simp: word_engine_def wmax_def unsigned_minus_1_eq_mask mask_eq_exp_minus_1
      wchecked_add_def wchecked_sub_def wchecked_mul_def unat_add_nowrap unat_mul_nowrap
      unat_sub_nowrap unat_div unat_mod word_le_nat_alt word_less_nat_alt word_unat_eq_iff
      unat_ucast_up u256_lt [simplified])

text \<open>The 256-bit word an amount denotes, under the valuation of the external type.\<close>

fun amount_word :: "('u \<Rightarrow> nat) \<Rightarrow> 'u Amount \<Rightarrow> u256" where
  "amount_word val (Amount n) = of_nat (val n)"

section \<open>Reference semantics of the decimal form\<close>

text \<open>
  \<open>dec_val\<close> is the number a digit string denotes; \<open>decimal\<close> is the canonical digit string of a
  number (no leading zero, \<open>0\<close> for zero); \<open>u_of_nat\<close> is the carrier element that denotes a number.
\<close>

fun dec_from :: "nat \<Rightarrow> bytes \<Rightarrow> nat" where
  "dec_from a [] = a"
| "dec_from a (b # bs) = dec_from (a * 10 + unat (b - 48)) bs"

definition dec_val :: "bytes \<Rightarrow> nat" where
  "dec_val bs = dec_from 0 bs"

definition digit_char :: "nat \<Rightarrow> u8" where
  "digit_char d = 48 + of_nat d"

fun nat_digits :: "nat \<Rightarrow> bytes" where
  "nat_digits n = (if n = 0 then [] else digit_char (n mod 10) # nat_digits (n div 10))"

declare nat_digits.simps [simp del]

definition decimal :: "nat \<Rightarrow> bytes" where
  "decimal n = (if n = 0 then [48] else rev (nat_digits n))"

definition u_of_nat :: "'u u256_engine \<Rightarrow> nat \<Rightarrow> 'u" where
  "u_of_nat E n = u_from_be_bytes E (to_be (of_nat n :: u256))"

lemma dec_from_append: "dec_from a (xs @ ys) = dec_from (dec_from a xs) ys"
  by (induction xs arbitrary: a) auto

lemma dec_from_ge: "a \<le> dec_from a bs"
proof (induction bs arbitrary: a)
  case (Cons b bs)
  show ?case using Cons [of "a * 10 + unat (b - 48)"] by simp
qed simp

lemma digit_char:
  assumes "d < 10"
  shows "is_ascii_digit (digit_char d)" "unat (digit_char d - 48) = d"
    "digit_char d = 48 \<longleftrightarrow> d = 0"
proof -
  have d: "unat (of_nat d :: u8) = d" using assms by (simp add: unat_of_nat)
  have c: "unat (digit_char d) = 48 + d"
    using unat_add_nowrap [of "48 :: u8" "of_nat d"] assms d by (simp add: digit_char_def)
  then show "is_ascii_digit (digit_char d)" using assms
    by (simp add: is_ascii_digit_def word_le_nat_alt)
  show "unat (digit_char d - 48) = d" using d by (simp add: digit_char_def)
  show "digit_char d = 48 \<longleftrightarrow> d = 0"
    using c by (simp add: word_unat_eq_iff)
qed

lemma nat_digits_ascii: "b \<in> set (nat_digits n) \<Longrightarrow> is_ascii_digit b"
proof (induction n rule: nat_digits.induct)
  case (1 n)
  then show ?case
    using nat_digits.simps [of n] by (auto simp: digit_char(1) split: if_splits)
qed

lemma dec_val_nat_digits: "dec_val (rev (nat_digits n)) = n"
proof (induction n rule: nat_digits.induct)
  case (1 n)
  then show ?case
    by (subst nat_digits.simps) (auto simp: dec_val_def dec_from_append digit_char(2))
qed

lemma nat_digits_last: "n \<noteq> 0 \<Longrightarrow> nat_digits n \<noteq> [] \<and> last (nat_digits n) \<noteq> 48"
proof (induction n rule: nat_digits.induct)
  case (1 n)
  show ?case
  proof (cases "n div 10 = 0")
    case True
    then have "nat_digits n = [digit_char n]" "n < 10"
      using 1 by (simp_all add: nat_digits.simps)
    then show ?thesis using 1 by (simp add: digit_char(3))
  next
    case False
    then show ?thesis using 1 nat_digits.simps [of n] by simp
  qed
qed

lemma decimal_canonical:
  "dec_val (decimal n) = n"
  "b \<in> set (decimal n) \<Longrightarrow> is_ascii_digit b"
  "decimal n \<noteq> []"
  "n \<noteq> 0 \<Longrightarrow> hd (decimal n) \<noteq> 48"
  by (auto simp: decimal_def dec_val_nat_digits hd_rev nat_digits_last
      dec_val_def [of "[48]"] split: if_splits dest: nat_digits_ascii)
    (simp add: is_ascii_digit_def)

lemma digits_utf8: "(\<And>b. b \<in> set bs \<Longrightarrow> is_ascii_digit b) \<Longrightarrow> utf8_valid bs"
  by (rule utf8_valid_ascii) (fastforce simp: is_ascii_digit_def word_le_nat_alt word_less_nat_alt)

lemma digit_last_byte:
  assumes "d < 10"
  shows "to_be (of_nat d :: u256) ! (AMOUNT_BYTES - 1) = of_nat d"
proof -
  have d: "unat (of_nat d :: u256) = d" using assms by (simp add: unat_of_nat)
  have "to_be (of_nat d :: u256) ! 31 = to_le (of_nat d :: u256) ! 0"
    by (simp add: to_be_def rev_nth)
  also have "\<dots> = of_nat (d mod 256)"
    using le_bytes.simps(2) [of 31 d] by (simp add: to_le_def d del: le_bytes.simps)
  finally show ?thesis using assms by (simp add: AMOUNT_BYTES_def)
qed

context u256_laws
begin

lemma val_eq_iff: "val x = val y \<longleftrightarrow> x = y"
  by (auto dest: val_inj)

lemma val_u_of_nat: "n < 2 ^ 256 \<Longrightarrow> val (u_of_nat E n) = n"
  by (simp add: u_of_nat_def val_from_be be256.dec_enc unat_of_nat)

lemma u_of_nat_val: "u_of_nat E (val x) = x"
  by (rule val_inj) (rule val_u_of_nat [OF val_bound])

lemma u_of_natI: "val x = n \<Longrightarrow> x = u_of_nat E n"
  using u_of_nat_val by auto

lemma val_ten: "val (u_from_u64 E 10) = 10"
  by (simp add: val_from_u64)

lemma is_zero_val: "n = u_zero E \<longleftrightarrow> val n = 0"
  by (metis val_zero val_eq_iff)

lemma add_cases: "u_checked_add E x y =
    (if val x + val y < 2 ^ 256 then Some (u_of_nat E (val x + val y)) else None)"
  using val_add [of x y] by (cases "u_checked_add E x y") (auto simp: u_of_natI split: if_splits)

lemma sub_cases: "u_checked_sub E x y =
    (if val y \<le> val x then Some (u_of_nat E (val x - val y)) else None)"
  using val_sub [of x y] by (cases "u_checked_sub E x y") (auto simp: u_of_natI split: if_splits)

lemma mul_cases: "u_checked_mul E x y =
    (if val x * val y < 2 ^ 256 then Some (u_of_nat E (val x * val y)) else None)"
  using val_mul [of x y] by (cases "u_checked_mul E x y") (auto simp: u_of_natI split: if_splits)

lemma fmt_loop_exact:
  "fmt_loop E slots n ds =
     (if val n < 10 ^ slots then Val (ds @ nat_digits (val n)) else Panic)"
proof (induction slots arbitrary: n ds)
  case 0
  then show ?case by (simp add: is_zero_val nat_digits.simps)
next
  case (Suc slots)
  show ?case
  proof (cases "val n = 0")
    case False
    obtain q r where qr: "u_div_rem E n (u_from_u64 E 10) = (q, r)" by fastforce
    have v: "val q = val n div 10" "val r = val n mod 10"
      using val_div_rem [of "u_from_u64 E 10" n] qr by (simp_all add: val_ten)
    have "u_to_be_bytes E r ! (AMOUNT_BYTES - 1) = of_nat (val n mod 10)"
      using digit_last_byte [of "val n mod 10"] by (simp add: to_be_val v)
    then have "fmt_loop E (Suc slots) n ds = fmt_loop E slots q (ds @ [digit_char (val n mod 10)])"
      using False qr by (simp add: is_zero_val digit_char_def)
    also have "\<dots> = (if val n < 10 ^ Suc slots then Val (ds @ nat_digits (val n)) else Panic)"
      using False by (simp add: Suc v nat_digits.simps [of "val n"] div_less_iff_less_mult)
    finally show ?thesis .
  qed (simp add: is_zero_val nat_digits.simps)
qed

lemma fmt_exact: "fmt E (Amount n) = Val (decimal (val n))"
proof (cases "val n = 0")
  case False
  have "(2::nat) ^ 256 < 10 ^ AMOUNT_MAX_DECIMAL_DIGITS"
    by (simp add: AMOUNT_MAX_DECIMAL_DIGITS_def)
  then have "val n < 10 ^ AMOUNT_MAX_DECIMAL_DIGITS"
    using val_bound [of n] by (meson less_trans)
  moreover have "utf8_valid (rev (nat_digits (val n)))"
    by (rule digits_utf8) (auto dest: nat_digits_ascii)
  ultimately show ?thesis
    using False by (simp add: fmt_def fmt_loop_exact is_zero_val decimal_def)
qed (simp add: fmt_def is_zero_val decimal_def)

lemma from_str_loop_digits:
  assumes "\<forall>b \<in> set p. is_ascii_digit b"
  shows "from_str_loop E (p @ r) k acc =
    (if dec_from (val acc) p < 2 ^ 256
     then from_str_loop E r (k + length p) (u_of_nat E (dec_from (val acc) p))
     else Inl Overflow)"
  using assms
proof (induction p arbitrary: k acc)
  case Nil
  then show ?case by (simp add: val_bound [simplified] u_of_nat_val)
next
  case (Cons b p)
  let ?d = "unat (b - 48)" and ?n = "dec_from (val acc * 10 + unat (b - 48)) p"
  have d: "val (u_from_u64 E (ucast (b - 48))) = ?d"
    by (simp add: val_from_u64 unat_ucast_up)
  have ge: "val acc * 10 + ?d \<le> ?n" by (rule dec_from_ge)
  show ?case
  proof (cases "val acc * 10 + ?d < 2 ^ 256")
    case True
    then have "from_str_loop E ((b # p) @ r) k acc =
        from_str_loop E (p @ r) (k + 1) (u_of_nat E (val acc * 10 + ?d))"
      using Cons.prems d by (simp add: mul_cases add_cases val_ten val_u_of_nat)
    then show ?thesis
      using Cons.IH Cons.prems True by (simp add: val_u_of_nat)
  next
    case False
    then have "from_str_loop E ((b # p) @ r) k acc = Inl Overflow"
      using Cons.prems d by (simp add: mul_cases add_cases val_ten val_u_of_nat)
    then show ?thesis using False ge by simp
  qed
qed

lemma from_str_exact:
  "from_str E s =
     (let p = takeWhile is_ascii_digit s in
      if s = [] then Inl Empty
      else if 2 ^ 256 \<le> dec_val p then Inl Overflow
      else if length p < length s then Inl (NonDigit (length p))
      else Inr (Amount (u_of_nat E (dec_val s))))"
proof -
  define p r where "p = takeWhile is_ascii_digit s" and "r = dropWhile is_ascii_digit s"
  have s: "s = p @ r" by (simp add: p_def r_def)
  have "\<forall>b \<in> set p. is_ascii_digit b" by (auto simp: p_def dest: set_takeWhileD)
  from from_str_loop_digits [OF this, of r 0 "u_zero E"]
  have loop: "from_str_loop E s 0 (u_zero E) =
    (if dec_val p < 2 ^ 256 then from_str_loop E r (length p) (u_of_nat E (dec_val p))
     else Inl Overflow)"
    by (simp add: dec_val_def val_zero s)
  show ?thesis
  proof (cases r)
    case Nil
    then have "p = s" using s by simp
    then show ?thesis using loop Nil by (auto simp: from_str_def Let_def p_def [symmetric])
  next
    case (Cons b r')
    then have "\<not> is_ascii_digit b" using hd_dropWhile [of is_ascii_digit s] by (simp add: r_def)
    then have "from_str E s =
        (if dec_val p < 2 ^ 256 then Inl (NonDigit (length p)) else Inl Overflow)"
      using loop Cons s by (simp add: from_str_def)
    moreover have "s \<noteq> []" "length p < length s" using Cons s by simp_all
    ultimately show ?thesis by (simp add: Let_def p_def [symmetric])
  qed
qed

lemma from_str_decimal: "n < 2 ^ 256 \<Longrightarrow> from_str E (decimal n) = Inr (Amount (u_of_nat E n))"
proof -
  assume n: "n < 2 ^ 256"
  have "takeWhile is_ascii_digit (decimal n) = decimal n"
    by (simp add: takeWhile_eq_all_conv decimal_canonical(2))
  then show ?thesis using n by (simp only: from_str_exact Let_def) (simp add: decimal_canonical)
qed

lemma unat_amount_word: "unat (amount_word val (Amount n)) = val n"
  using val_bound [of n] by (simp add: unat_of_nat)

lemma amount_word_eq: "amount_word val (Amount n) = w \<longleftrightarrow> val n = unat w"
  using unat_amount_word [of n] by (metis word_unat_eq_iff)

lemma amount_word_mk: "amount_word val (Amount (u_of_nat E (unat w))) = w"
  by (simp add: amount_word_eq val_u_of_nat [OF u256_lt] del: amount_word.simps)

lemma amount_word_inj: "amount_word val a = amount_word val b \<longleftrightarrow> a = b"
  by (cases a; cases b) (metis Amount.inject unat_amount_word val_inj)

lemma bij_amount_word: "bij (amount_word val)"
  by (rule bijI') (metis amount_word_inj, metis amount_word_mk)

lemma amount_add_word:
  "map_option (amount_word val) (amount_checked_add E a b) =
     wchecked_add (amount_word val a) (amount_word val b)"
  by (cases a; cases b) (simp add: wchecked_add_def unat_amount_word add_cases amount_word_eq
      val_u_of_nat unat_add_nowrap del: amount_word.simps)

lemma amount_sub_word:
  "map_option (amount_word val) (amount_checked_sub E a b) =
     wchecked_sub (amount_word val a) (amount_word val b)"
proof -
  have "val x - val y < 2 ^ 256" for x y using val_bound [of x] by simp
  then show ?thesis
    by (cases a; cases b) (simp add: wchecked_sub_def unat_amount_word sub_cases amount_word_eq
        val_u_of_nat unat_sub_nowrap word_le_nat_alt del: amount_word.simps)
qed

lemma amount_mul_word:
  "map_option (amount_word val) (amount_checked_mul E a b) =
     wchecked_mul (amount_word val a) (amount_word val b)"
  by (cases a; cases b) (simp add: wchecked_mul_def unat_amount_word mul_cases amount_word_eq
      val_u_of_nat unat_mul_nowrap del: amount_word.simps)

lemma amount_consts_word:
  "amount_word val (amount_zero E) = 0" "amount_word val (amount_one E) = 1"
  "amount_word val (amount_max E) = wmax"
  "amount_word val (from_u64 E v) = ucast v" "amount_word val (from_u128 E u) = ucast u"
  by (simp_all add: amount_zero_def amount_one_def amount_max_def from_u64_def from_u128_def
      amount_word_eq val_zero val_one val_max val_from_u64 val_from_u128 unat_wmax unat_ucast_up
      del: amount_word.simps)

lemma amount_sat_word:
  "amount_word val (amount_saturating_add E a b) = wsat_add (amount_word val a) (amount_word val b)"
  "amount_word val (amount_saturating_sub E a b) = wsat_sub (amount_word val a) (amount_word val b)"
  using amount_add_word [of a b] amount_sub_word [of a b]
  by (auto simp: amount_saturating_add_def amount_saturating_sub_def wsat_add_def wsat_sub_def
      amount_consts_word split: option.splits)

lemma amount_bytes_word:
  "to_be_bytes E a = to_be (amount_word val a)" "to_le_bytes E a = to_le (amount_word val a)"
  "length bs = 32 \<Longrightarrow> amount_word val (from_be_bytes E bs) = from_be bs"
  "length bs = 32 \<Longrightarrow> amount_word val (from_le_bytes E bs) = from_le bs"
  by (cases a; simp add: to_be_val to_le_val from_be_bytes_def from_le_bytes_def val_from_be
      val_from_le)+

lemma to_u128_exact:
  "to_u128 E (Amount n) = (if val n < 2 ^ 128 then Some (of_nat (val n)) else None)"
proof -
  have v: "unat (of_nat (val n) :: u256) = val n"
    using unat_amount_word [of n] by simp
  have w: "to_be_bytes E (Amount n) = rev (le_bytes 16 (val n) @ le_bytes 16 (val n div 256 ^ 16))"
    using le_bytes_add [of 16 16 "val n"] v by (simp add: to_be_val to_be_def to_le_def)
  have hi: "list_ex (\<lambda>b. b \<noteq> 0) (rev (le_bytes 16 x)) \<longleftrightarrow> x mod 256 ^ 16 \<noteq> 0" for x
    using le_val_zero_iff [of "le_bytes 16 x"] by (simp add: list_ex_iff le_val_le_bytes)
  have "val n div 256 ^ 16 mod 256 ^ 16 = val n div 256 ^ 16"
    using val_bound [of n] by (intro mod_less) (simp add: div_less_iff_less_mult)
  moreover have "from_be (rev (le_bytes 16 x)) = (of_nat x :: u128)" for x
    by (simp add: from_be_def from_le_def le_val_le_bytes word_unat_eq_iff unat_of_nat)
  ultimately show ?thesis
    using hi [of "val n div 256 ^ 16"]
    by (simp add: to_u128_def w div_eq_0_iff del: to_be_bytes.simps)
qed

lemma amount_cmp_word:
  "amount_cmp E a b =
     (if amount_word val a < amount_word val b then Less
      else if amount_word val a = amount_word val b then Equal else Greater)"
  by (cases a; cases b) (simp add: cmp_val word_less_nat_alt unat_amount_word word_unat_eq_iff
      del: amount_word.simps)

end

section \<open>Properties\<close>

text \<open>
  C23: Printing an amount never panics (the 78-slot digit buffer is large enough and the text is
  valid UTF-8), the text is the canonical decimal form (digits only, no leading zero) of the value,
  and parsing it back gives exactly the same amount.
\<close>

theorem amount_print_parse:
  assumes "u256_laws E val"
  shows "\<exists>s. fmt E (Amount n) = Val s \<and> dec_val s = val n \<and> list_all is_ascii_digit s \<and>
    (val n \<noteq> 0 \<longrightarrow> hd s \<noteq> 48) \<and> (val n = 0 \<longrightarrow> s = [48]) \<and>
    from_str E s = Inr (Amount n) \<and>
    (\<exists>j. serialize E (Amount n) = Val j \<and> deserialize E j = Inr (Amount n))"
proof -
  have "list_all is_ascii_digit (decimal (val n))"
    by (simp add: list_all_iff decimal_canonical(2))
  moreover have "from_str E (decimal (val n)) = Inr (Amount n)"
    using u256_laws.from_str_decimal [OF assms u256_laws.val_bound [OF assms]]
    by (simp add: u256_laws.u_of_nat_val [OF assms])
  ultimately show ?thesis
    using decimal_canonical [where n = "val n"]
    by (simp add: u256_laws.fmt_exact [OF assms] serialize_def) (simp add: decimal_def)
qed

theorem amount_print_parse_witness:
  "u256_laws word_engine unat \<and> (\<exists>s. fmt word_engine (Amount 1205) = Val s \<and>
     from_str word_engine s = Inr (Amount 1205))"
  using amount_print_parse [OF word256.u256_laws_axioms, of 1205] word256.u256_laws_axioms by blast

text \<open>
  C24: The parser decides every input: the empty string is \<open>Empty\<close>; otherwise the longest digit
  prefix decides, with \<open>Overflow\<close> when it already exceeds 256 bits, \<open>NonDigit\<close> at the offset of the
  first other byte, and the exact value when every byte is a digit (leading zeros allowed at any
  length).
\<close>

theorem amount_from_str_decides:
  assumes "u256_laws E val"
  shows "from_str E s =
     (let p = takeWhile is_ascii_digit s in
      if s = [] then Inl Empty
      else if 2 ^ 256 \<le> dec_val p then Inl Overflow
      else if length p < length s then Inl (NonDigit (length p))
      else Inr (Amount (u_of_nat E (dec_val s)))) \<and>
    (dec_val s < 2 ^ 256 \<longrightarrow> val (u_of_nat E (dec_val s)) = dec_val s)"
  using u256_laws.from_str_exact [OF assms] u256_laws.val_u_of_nat [OF assms] by blast

theorem amount_from_str_decides_witness:
  "from_str word_engine [48, 48, 55] = Inr (Amount 7) \<and>
   from_str word_engine [49, 95, 55] = Inl (NonDigit 1)"
  using amount_from_str_decides [OF word256.u256_laws_axioms, of "[48, 48, 55]"]
    amount_from_str_decides [OF word256.u256_laws_axioms, of "[49, 95, 55]"]
  by (simp add: is_ascii_digit_def dec_val_def Let_def word256.val_u_of_nat
      word_unat_eq_iff [of "u_of_nat word_engine 7"])



text \<open>
  Narrowing to 128 bits never truncates: it succeeds exactly when the value is below 2^128, with
  the same value, and the two fallible conversions agree.
\<close>

theorem amount_to_u128_exact:
  assumes "u256_laws E val"
  shows "(case to_u128 E (Amount n) of
      None \<Rightarrow> 2 ^ 128 \<le> val n \<and> try_into_u128 E (Amount n) = Inl Overflow
    | Some v \<Rightarrow> unat v = val n \<and> try_into_u128 E (Amount n) = Inr v \<and>
        from_u128 E v = Amount n)"
proof (cases "val n < 2 ^ 128")
  case True
  then have v: "unat (of_nat (val n) :: u128) = val n" by (simp add: unat_of_nat)
  have "u_from_u128 E (of_nat (val n)) = n"
    by (rule u256_laws.val_inj [OF assms]) (simp add: u256_laws.val_from_u128 [OF assms] v)
  with True v show ?thesis
    by (simp add: u256_laws.to_u128_exact [OF assms] try_into_u128_def from_u128_def)
qed (simp add: u256_laws.to_u128_exact [OF assms] try_into_u128_def)

theorem amount_to_u128_exact_witness:
  "u256_laws word_engine unat \<and> unat (the (to_u128 word_engine (Amount 77))) = 77"
  using amount_to_u128_exact [OF word256.u256_laws_axioms, of 77] word256.u256_laws_axioms
  by (auto split: option.splits)

end
