(* ===== verification/Cbe_Wire.thy ===== *)
theory Cbe_Wire
  imports Prelude
begin

text \<open>
  The wire items of the CBE encoding that the host, the L1 ingestor and the indexer share: a
  tagged 64-bit unsigned integer, a tagged 256-bit amount, a length-prefixed byte string. Both ends
  of the wire write these items by concatenation and read them with a cursor.

  A decoder is a \<open>reader\<close>: a function from a cursor to an error or a value and the cursor after it.
  \<open>exact_reader\<close> is the contract of one decoder against its grammar: it succeeds exactly on the
  inputs that start with an image of the value it returns, and stops right behind that image. The
  contract is compositional, so the exactness of a message decoder follows from that of its items.
\<close>

section \<open>Wire items\<close>

definition cbe_uint :: "u64 \<Rightarrow> bytes" where
  "cbe_uint v = 0 # to_le v"

definition cbe_amount :: "u256 \<Rightarrow> bytes" where
  "cbe_amount a = 6 # to_le a"

definition cbe_bytes :: "bytes \<Rightarrow> bytes" where
  "cbe_bytes bs = 2 # to_le (of_nat (length bs) :: u64) @ bs"

definition cbe_map_head :: "u64 \<Rightarrow> bytes" where
  "cbe_map_head n = 5 # to_le n"

lemma length_cbe [simp]:
  "length (cbe_uint v) = 9" "length (cbe_amount a) = 33" "length (cbe_map_head n) = 9"
  "length (cbe_bytes bs) = 9 + length bs"
  by (simp_all add: cbe_uint_def cbe_amount_def cbe_map_head_def cbe_bytes_def)

section \<open>Readers\<close>

type_synonym ('c, 'e, 'a) reader = "'c \<Rightarrow> 'e + 'a \<times> 'c"

definition rbind :: "('c, 'e, 'a) reader \<Rightarrow> ('a \<Rightarrow> ('c, 'e, 'b) reader) \<Rightarrow> ('c, 'e, 'b) reader" where
  "rbind p f = (\<lambda>c. case p c of Inl e \<Rightarrow> Inl e | Inr (v, c') \<Rightarrow> f v c')"

definition rret :: "'a \<Rightarrow> ('c, 'e, 'a) reader" where
  "rret v = (\<lambda>c. Inr (v, c))"

definition rfail :: "'e \<Rightarrow> ('c, 'e, 'a) reader" where
  "rfail e = (\<lambda>c. Inl e)"

text \<open>Sequencing that drops the value read, the \<open>skip_*\<close> calls of the sources.\<close>

definition rthen :: "('c, 'e, 'a) reader \<Rightarrow> ('c, 'e, 'b) reader \<Rightarrow> ('c, 'e, 'b) reader" where
  "rthen p q = rbind p (\<lambda>_. q)"

lemma rbind_assoc: "rbind (rbind p f) g = rbind p (\<lambda>v. rbind (f v) g)"
  by (auto simp: rbind_def split: sum.splits)

lemma rbind_ret [simp]: "rbind (rret v) f = f v" "rbind p rret = p"
  by (auto simp: rbind_def rret_def split: sum.splits)

lemma rbind_fail [simp]: "rbind (rfail e) f = rfail e"
  by (simp add: rbind_def rfail_def)

locale exact_reader =
  fixes ok :: "'c \<Rightarrow> bool" and rest :: "'c \<Rightarrow> bytes"
    and get :: "('c, 'e, 'v) reader" and img :: "'v \<Rightarrow> bytes \<Rightarrow> bool"
  assumes get_sound: "ok c \<Longrightarrow> get c = Inr (v, c') \<Longrightarrow> ok c' \<and> (\<exists>w. img v w \<and> rest c = w @ rest c')"
    and get_complete: "ok c \<Longrightarrow> img v w \<Longrightarrow> rest c = w @ r \<Longrightarrow>
      \<exists>c'. get c = Inr (v, c') \<and> ok c' \<and> rest c' = r"
begin

text \<open>A successful read is unambiguous: the value and the image are determined by the input.\<close>

lemma img_unambiguous:
  assumes "ok c" "img v w" "img v' w'" "rest c = w @ r" "rest c = w' @ r'"
  shows "v = v' \<and> w = w' \<and> r = r'"
proof -
  obtain c1 where 1: "get c = Inr (v, c1)" "rest c1 = r"
    using get_complete assms by meson
  obtain c2 where 2: "get c = Inr (v', c2)" "rest c2 = r'"
    using get_complete assms by meson
  then show ?thesis using 1 assms by auto
qed

text \<open>Reading to the end of the input accepts exactly the images.\<close>

lemma get_to_end:
  assumes "ok c"
  shows "(\<exists>c'. get c = Inr (v, c') \<and> rest c' = []) \<longleftrightarrow> img v (rest c)"
  using get_sound [OF assms] get_complete [OF assms, of v "rest c" "[]"] by fastforce

end

lemma exact_ret: "exact_reader ok rest (rret v) (\<lambda>x w. x = v \<and> w = [])"
  by unfold_locales (auto simp: rret_def)

lemma exact_fail: "exact_reader ok rest (rfail e) (\<lambda>x w. False)"
  by unfold_locales (auto simp: rfail_def)

lemma exact_bind:
  assumes "exact_reader ok rest p i" and "\<And>v. exact_reader ok rest (f v) (j v)"
  shows "exact_reader ok rest (rbind p f) (\<lambda>x w. \<exists>v a b. i v a \<and> j v x b \<and> w = a @ b)"
proof
  fix c x c' assume ok: "ok c" and "rbind p f c = Inr (x, c')"
  then obtain v c1 where 1: "p c = Inr (v, c1)" and 2: "f v c1 = Inr (x, c')"
    by (auto simp: rbind_def split: sum.splits)
  obtain a where a: "ok c1" "i v a" "rest c = a @ rest c1"
    using exact_reader.get_sound [OF assms(1) ok 1] by blast
  then show "ok c' \<and> (\<exists>w. (\<exists>v a b. i v a \<and> j v x b \<and> w = a @ b) \<and> rest c = w @ rest c')"
    using exact_reader.get_sound [OF assms(2) a(1) 2] by force
next
  fix c x w r assume ok: "ok c" and w: "\<exists>v a b. i v a \<and> j v x b \<and> w = a @ b"
    and r: "rest c = w @ r"
  then obtain v a b where i: "i v a" "j v x b" "rest c = a @ b @ r" by auto
  then obtain c1 where 1: "p c = Inr (v, c1)" "ok c1" "rest c1 = b @ r"
    using exact_reader.get_complete [OF assms(1) ok] by blast
  then obtain c' where "f v c1 = Inr (x, c')" "ok c'" "rest c' = r"
    using exact_reader.get_complete [OF assms(2) _ i(2)] by blast
  then show "\<exists>c'. rbind p f c = Inr (x, c') \<and> ok c' \<and> rest c' = r"
    using 1 by (simp add: rbind_def)
qed

lemma exact_if:
  assumes "b \<Longrightarrow> exact_reader ok rest p i" and "\<not> b \<Longrightarrow> exact_reader ok rest q j"
  shows "exact_reader ok rest (if b then p else q) (\<lambda>x w. if b then i x w else j x w)"
  using assms by (cases b) simp_all

lemma exact_cong:
  assumes "exact_reader ok rest p i" and "\<And>x w. i x w \<longleftrightarrow> j x w"
  shows "exact_reader ok rest p j"
proof -
  have "i = j" using assms(2) by (intro ext)
  with assms(1) show ?thesis by simp
qed

section \<open>Field lists\<close>

text \<open>
  The fields of a message in order; the reader of a list of field shapes over three item readers.
  The content of a byte string is not part of the value read: the host skips it.
\<close>

datatype wshape = ShUint | ShAmount | ShBytes

datatype wval = VUint u64 | VAmount u256 | VBytes

fun wimg :: "wval list \<Rightarrow> bytes \<Rightarrow> bool" where
  "wimg [] w = (w = [])"
| "wimg (VUint v # vs) w = (\<exists>r. w = cbe_uint v @ r \<and> wimg vs r)"
| "wimg (VAmount a # vs) w = (\<exists>r. w = cbe_amount a @ r \<and> wimg vs r)"
| "wimg (VBytes # vs) w = (\<exists>bs r. length bs < 2 ^ 64 \<and> w = cbe_bytes bs @ r \<and> wimg vs r)"

lemma wimg_Cons: "wimg (v # vs) w \<longleftrightarrow> (\<exists>a r. wimg [v] a \<and> w = a @ r \<and> wimg vs r)"
  by (cases v) auto

lemma wimg_append: "wimg (vs @ us) w \<longleftrightarrow> (\<exists>a b. wimg vs a \<and> wimg us b \<and> w = a @ b)"
proof (induction vs arbitrary: w)
  case (Cons v vs)
  show ?case
    unfolding append_Cons wimg_Cons [of v vs] wimg_Cons [of v "vs @ us"] Cons
    by (metis append_assoc)
qed simp

fun wshape_of :: "wval \<Rightarrow> wshape" where
  "wshape_of (VUint v) = ShUint"
| "wshape_of (VAmount a) = ShAmount"
| "wshape_of VBytes = ShBytes"

fun wuint :: "wval \<Rightarrow> u64" where
  "wuint (VUint v) = v"
| "wuint _ = 0"

fun wamount :: "wval \<Rightarrow> u256" where
  "wamount (VAmount v) = v"
| "wamount _ = 0"

fun read_fields :: "('c, 'e, u64) reader \<Rightarrow> ('c, 'e, u256) reader \<Rightarrow> ('c, 'e, unit) reader \<Rightarrow>
    wshape list \<Rightarrow> ('c, 'e, wval list) reader" where
  "read_fields gu ga gb [] = rret []"
| "read_fields gu ga gb (ShUint # ss) =
     rbind gu (\<lambda>v. rbind (read_fields gu ga gb ss) (\<lambda>vs. rret (VUint v # vs)))"
| "read_fields gu ga gb (ShAmount # ss) =
     rbind ga (\<lambda>v. rbind (read_fields gu ga gb ss) (\<lambda>vs. rret (VAmount v # vs)))"
| "read_fields gu ga gb (ShBytes # ss) =
     rbind gb (\<lambda>_. rbind (read_fields gu ga gb ss) (\<lambda>vs. rret (VBytes # vs)))"

lemma wshape_Cons_iff:
  "map wshape_of vs = ShUint # ss \<longleftrightarrow> (\<exists>u vs'. vs = VUint u # vs' \<and> map wshape_of vs' = ss)"
  "map wshape_of vs = ShAmount # ss \<longleftrightarrow> (\<exists>u vs'. vs = VAmount u # vs' \<and> map wshape_of vs' = ss)"
  "map wshape_of vs = ShBytes # ss \<longleftrightarrow> (\<exists>vs'. vs = VBytes # vs' \<and> map wshape_of vs' = ss)"
  by (cases vs; cases "hd vs"; auto)+

locale cbe_reader =
  fixes ok :: "'c \<Rightarrow> bool" and rest :: "'c \<Rightarrow> bytes"
    and gu :: "('c, 'e, u64) reader" and ga :: "('c, 'e, u256) reader" and gb :: "('c, 'e, unit) reader"
  assumes exact_uint: "exact_reader ok rest gu (\<lambda>v w. w = cbe_uint v)"
    and exact_amount: "exact_reader ok rest ga (\<lambda>v w. w = cbe_amount v)"
    and exact_bytes: "exact_reader ok rest gb (\<lambda>_ w. \<exists>bs. length bs < 2 ^ 64 \<and> w = cbe_bytes bs)"
begin

lemma exact_fields:
  "exact_reader ok rest (read_fields gu ga gb ss) (\<lambda>vs w. map wshape_of vs = ss \<and> wimg vs w)"
proof (induction ss)
  case Nil
  show ?case unfolding read_fields.simps by (rule exact_cong [OF exact_ret]) auto
next
  case (Cons s ss)
  note step = exact_cong [OF exact_bind [OF _ exact_bind [OF Cons exact_ret]]]
  show ?case
  proof (cases s)
    case ShUint
    show ?thesis unfolding ShUint read_fields.simps
      by (rule step [OF exact_uint]) (auto simp: wshape_Cons_iff)
  next
    case ShAmount
    show ?thesis unfolding ShAmount read_fields.simps
      by (rule step [OF exact_amount]) (auto simp: wshape_Cons_iff)
  next
    case ShBytes
    show ?thesis unfolding ShBytes read_fields.simps
      by (rule step [OF exact_bytes]) (auto simp: wshape_Cons_iff; blast)
  qed
qed

end

section \<open>Written fields\<close>

text \<open>The writing side: fields with their content, and the concatenation of their images.\<close>

datatype wfield = FUint u64 | FAmount u256 | FBytes bytes

fun field_image :: "wfield \<Rightarrow> bytes" where
  "field_image (FUint v) = cbe_uint v"
| "field_image (FAmount a) = cbe_amount a"
| "field_image (FBytes bs) = cbe_bytes bs"

fun field_ok :: "wfield \<Rightarrow> bool" where
  "field_ok (FBytes bs) \<longleftrightarrow> length bs < 2 ^ 64"
| "field_ok _ \<longleftrightarrow> True"

fun field_val :: "wfield \<Rightarrow> wval" where
  "field_val (FUint v) = VUint v"
| "field_val (FAmount a) = VAmount a"
| "field_val (FBytes bs) = VBytes"

definition wire :: "wfield list \<Rightarrow> bytes" where
  "wire fs = concat (map field_image fs)"

lemma wire_simps [simp]:
  "wire [] = []" "wire (f # fs) = field_image f @ wire fs" "wire (fs @ gs) = wire fs @ wire gs"
  by (simp_all add: wire_def)

lemma cbe_inj [simp]:
  "cbe_uint u @ r = cbe_uint v @ s \<longleftrightarrow> u = v \<and> r = s"
  "cbe_amount a @ r = cbe_amount b @ s \<longleftrightarrow> a = b \<and> r = s"
  by (simp_all add: cbe_uint_def cbe_amount_def codec)

lemma cbe_bytes_inj:
  assumes "length xs < 2 ^ 64" "length ys < 2 ^ 64"
  shows "cbe_bytes xs @ r = cbe_bytes ys @ s \<longleftrightarrow> xs = ys \<and> r = s"
proof -
  have "(of_nat (length xs) :: u64) = of_nat (length ys) \<longleftrightarrow> length xs = length ys"
    using assms by (simp add: word_unat_eq_iff unat_of_nat)
  then show ?thesis by (auto simp: cbe_bytes_def codec)
qed

lemma cbe_inj_end [simp]:
  "cbe_uint u = cbe_uint v \<longleftrightarrow> u = v" "cbe_amount a = cbe_amount b \<longleftrightarrow> a = b"
  using cbe_inj [where r = "[]" and s = "[]"] by simp_all

lemma wire_inj:
  assumes "map (wshape_of \<circ> field_val) fs = map (wshape_of \<circ> field_val) gs"
    and "list_all field_ok fs" "list_all field_ok gs"
  shows "wire fs @ r = wire gs @ s \<longleftrightarrow> fs = gs \<and> r = s"
  using assms
proof (induction fs arbitrary: gs)
  case (Cons f fs)
  then obtain g gs' where gs: "gs = g # gs'" by (cases gs) auto
  with Cons show ?case
    by (cases f; cases g) (auto simp: cbe_bytes_inj)
qed simp

lemma wimg_wire: "list_all field_ok fs \<Longrightarrow> wimg (map field_val fs) (wire fs)"
proof (induction fs)
  case (Cons f fs)
  then show ?case by (cases f) auto
qed simp

end
