(* ===== verification/BTree_Map.thy ===== *)
theory BTree_Map
  imports Prelude
begin

text \<open>
  \<open>std::collections::BTreeMap\<close> as the list of its entries in ascending key order, which is what
  iteration, \<open>len\<close> and equality of the Rust type observe. \<open>bt_wf\<close> is the representation
  invariant; \<open>bt_ext\<close> says that a map is determined by its lookups, so that facts stated by
  \<open>get\<close> are facts about the iteration order too.
\<close>

type_synonym ('k, 'v) btree = "('k \<times> 'v) list"

named_theorems bt "laws of the ordered map"

definition bt_wf :: "('k::linorder, 'v) btree \<Rightarrow> bool" where
  "bt_wf m = sorted_wrt (<) (map fst m)"

definition bt_get :: "('k, 'v) btree \<Rightarrow> 'k \<Rightarrow> 'v option" where
  "bt_get m k = map_of m k"

definition bt_keys :: "('k, 'v) btree \<Rightarrow> 'k set" where
  "bt_keys m = set (map fst m)"

fun bt_insert :: "'k::linorder \<Rightarrow> 'v \<Rightarrow> ('k, 'v) btree \<Rightarrow> ('k, 'v) btree" where
  "bt_insert k v [] = [(k, v)]"
| "bt_insert k v ((a, b) # m) =
     (if k < a then (k, v) # (a, b) # m
      else if k = a then (k, v) # m
      else (a, b) # bt_insert k v m)"

fun bt_remove :: "'k \<Rightarrow> ('k, 'v) btree \<Rightarrow> ('k, 'v) btree" where
  "bt_remove k [] = []"
| "bt_remove k ((a, b) # m) = (if k = a then m else (a, b) # bt_remove k m)"

lemma bt_keys_simps [simp]:
  "bt_keys [] = {}" "bt_keys ((k, v) # m) = insert k (bt_keys m)"
  by (simp_all add: bt_keys_def)

lemma bt_get_simps [simp]:
  "bt_get [] k' = None" "bt_get ((k, v) # m) k' = (if k' = k then Some v else bt_get m k')"
  by (simp_all add: bt_get_def)

lemma bt_wf_simps [simp]:
  "bt_wf []" "bt_wf ((k, v) # m) \<longleftrightarrow> (\<forall>k' \<in> bt_keys m. k < k') \<and> bt_wf m"
  by (auto simp: bt_wf_def bt_keys_def)

lemma bt_wf_distinct: "bt_wf m \<Longrightarrow> distinct (map fst m)"
  by (simp add: bt_wf_def strict_sorted_iff)

lemma bt_get_None_iff [bt]: "bt_get m k = None \<longleftrightarrow> k \<notin> bt_keys m"
  by (induction m) (auto split: if_splits)

lemma bt_get_Some_key: "bt_get m k = Some v \<Longrightarrow> k \<in> bt_keys m"
  using bt_get_None_iff [of m k] by auto

lemma bt_key_get: "k \<in> bt_keys m \<Longrightarrow> \<exists>v. bt_get m k = Some v"
  using bt_get_None_iff [of m k] by auto

lemma bt_below:
  fixes k :: "'k::linorder"
  assumes "\<forall>x \<in> S. a < x" and "k < a"
  shows "k \<notin> S"
  using assms by (auto dest: less_asym)

lemma bt_get_below: "\<forall>x \<in> bt_keys m. (a :: 'k::linorder) < x \<Longrightarrow> bt_get m a = None"
  by (auto simp: bt_get_None_iff)

lemma bt_get_insert [simp, bt]:
  "bt_get (bt_insert k v m) k' = (if k' = k then Some v else bt_get m k')"
  by (induction m) auto

lemma bt_keys_insert [simp, bt]: "bt_keys (bt_insert k v m) = insert k (bt_keys m)"
  by (induction m) (auto split: if_splits)

lemma bt_wf_insert [simp, bt]: "bt_wf m \<Longrightarrow> bt_wf (bt_insert k v m)"
  by (induction m) (auto simp: not_less_iff_gr_or_eq, metis less_trans)

lemma bt_keys_remove [bt]: "bt_wf m \<Longrightarrow> bt_keys (bt_remove k m) = bt_keys m - {k}"
  by (induction m) (auto split: if_splits)

lemma bt_wf_remove [simp, bt]: "bt_wf m \<Longrightarrow> bt_wf (bt_remove k m)"
  by (induction m) (auto simp: bt_keys_remove)

lemma bt_get_remove [bt]:
  "bt_wf m \<Longrightarrow> bt_get (bt_remove k m) k' = (if k' = k then None else bt_get m k')"
  by (induction m) (auto simp: bt_get_None_iff split: if_splits)

lemma bt_len_insert [bt]:
  "bt_wf m \<Longrightarrow> length (bt_insert k v m) = (if k \<in> bt_keys m then length m else Suc (length m))"
  by (induction m) (auto dest: bt_below)

lemma bt_len_card: "bt_wf m \<Longrightarrow> length m = card (bt_keys m)"
  by (metis bt_keys_def bt_wf_distinct distinct_card length_map)

lemma bt_ext:
  assumes "bt_wf m" "bt_wf n" "\<And>k. bt_get m k = bt_get n k"
  shows "m = n"
  using assms
proof (induction m arbitrary: n)
  case Nil
  then show ?case by (cases n) (auto split: if_splits, metis option.distinct(1))
next
  case (Cons e m)
  obtain a b where e: "e = (a, b)" by (cases e)
  have "bt_get n a = Some b" using Cons.prems(3) [of a] e by simp
  then obtain c d n' where n: "n = (c, d) # n'" by (cases n) auto
  have "c = a"
  proof (rule linorder_cases)
    assume "a < c"
    then show ?thesis using \<open>bt_get n a = Some b\<close> Cons.prems(2) n
      by (auto dest!: bt_get_Some_key split: if_splits dest: less_asym)
  next
    assume "c < a"
    have "bt_get m c = Some d" using Cons.prems(3) [of c] n e \<open>c < a\<close>
      by (simp add: order.strict_implies_not_eq)
    then show ?thesis using Cons.prems(1) e \<open>c < a\<close> by (auto dest!: bt_get_Some_key)
  qed simp
  moreover have "d = b" using \<open>bt_get n a = Some b\<close> n \<open>c = a\<close> by simp
  moreover have "m = n'"
  proof (rule Cons.IH)
    fix k show "bt_get m k = bt_get n' k"
      using Cons.prems(1,2) Cons.prems(3) [of k] n e \<open>c = a\<close>
      by (cases "k = a") (auto simp: bt_get_below)
  qed (use Cons.prems e n in auto)
  ultimately show ?case using e n by simp
qed

lemma bt_insert_same: "bt_wf m \<Longrightarrow> bt_get m k = Some v \<Longrightarrow> bt_insert k v m = m"
  by (rule bt_ext) auto

text \<open>Sums over the entries, for counters that total a map.\<close>

definition bt_sum :: "('v \<Rightarrow> nat) \<Rightarrow> ('k, 'v) btree \<Rightarrow> nat" where
  "bt_sum f m = sum_list (map (f \<circ> snd) m)"

lemma bt_sum_simps [simp]: "bt_sum f [] = 0" "bt_sum f ((k, v) # m) = f v + bt_sum f m"
  by (simp_all add: bt_sum_def)

lemma bt_sum_insert:
  "bt_wf m \<Longrightarrow> bt_sum f (bt_insert k v m) + (case bt_get m k of None \<Rightarrow> 0 | Some u \<Rightarrow> f u) = bt_sum f m + f v"
proof (induction m)
  case (Cons e m)
  obtain a b where e: "e = (a, b)" by (cases e)
  show ?case
  proof (cases "k < a")
    case True
    then have "bt_get m k = None" using Cons.prems e by (auto simp: bt_get_None_iff dest: bt_below)
    then show ?thesis using True e by (simp add: order.strict_implies_not_eq)
  qed (use Cons e in auto)
qed simp

lemma bt_sum_remove:
  "bt_wf m \<Longrightarrow> bt_get m k = Some u \<Longrightarrow> bt_sum f (bt_remove k m) + f u = bt_sum f m"
  by (induction m) (auto split: if_splits)

lemma bt_sum_ge: "bt_get m k = Some u \<Longrightarrow> f u \<le> bt_sum f m"
  by (induction m) (auto split: if_splits)

lemma bt_sum_0: "bt_sum f m = 0 \<Longrightarrow> bt_get m k = Some u \<Longrightarrow> f u = 0"
  using bt_sum_ge [of m k u f] by simp

lemma bt_len_remove: "bt_wf m \<Longrightarrow> k \<in> bt_keys m \<Longrightarrow> Suc (length (bt_remove k m)) = length m"
  by (induction m) auto

end
