(* ===== verification/Host_Budget.thy ===== *)
theory Host_Budget
  imports Cbe_Wire BTree_Map
begin

text \<open>
  The data half of \<open>src/runtime/knomosis-host/src/budget.rs\<close>: the budget policy, the per-actor
  budget cell and the epoch-budget ledger with their canonical CBE codecs, the cursor that reads
  them, and \<open>decode_budget_view\<close>, which extracts from an encoded signed action what the budget gate
  needs. An \<open>Amount\<close> is a 256-bit word.
\<close>

section \<open>Constants\<close>

definition BRIDGE_ACTOR :: u64 where
  "BRIDGE_ACTOR = 0"

definition GAS_POOL_ACTOR :: u64 where
  "GAS_POOL_ACTOR = 1"

definition MAX_TOPUP_BUDGET_PER_ACTION :: u64 where
  "MAX_TOPUP_BUDGET_PER_ACTION = 1000000"

definition CBE_TAG_UINT :: u8 where
  "CBE_TAG_UINT = 0x00"

definition CBE_TAG_AMOUNT :: u8 where
  "CBE_TAG_AMOUNT = 0x06"

definition CBE_TAG_BYTES :: u8 where
  "CBE_TAG_BYTES = 0x02"

definition CBE_TAG_MAP :: u8 where
  "CBE_TAG_MAP = 0x05"

definition HEAD_LEN :: usize where
  "HEAD_LEN = 9"

definition AMOUNT_HEAD_LEN :: usize where
  "AMOUNT_HEAD_LEN = 33"

definition push_cbe_uint :: "bytes \<Rightarrow> u64 \<Rightarrow> bytes" where
  "push_cbe_uint out v = (out @ [CBE_TAG_UINT]) @ to_le v"

section \<open>The cursor\<close>

datatype BudgetDecodeError =
    UnexpectedEnd
  | ExpectedUint usize u8
  | ExpectedAmount usize u8
  | ExpectedBytes usize u8
  | UnsupportedActionTag u64
  | UnknownActionTag u64
  | ExpectedMap usize u8
  | NonCanonical string
  | TrailingBytes usize

record CbeCursor =
  cur_bytes :: bytes
  cur_pos :: usize

definition cursor_new :: "bytes \<Rightarrow> CbeCursor" where
  "cursor_new bs = \<lparr>cur_bytes = bs, cur_pos = 0\<rparr>"

definition is_at_end :: "CbeCursor \<Rightarrow> bool" where
  "is_at_end c = (length (cur_bytes c) \<le> cur_pos c)"

definition read_map_head :: "(CbeCursor, BudgetDecodeError, u64) reader" where
  "read_map_head c =
     (case usize_checked_add (cur_pos c) HEAD_LEN of
        None \<Rightarrow> Inl UnexpectedEnd
      | Some e \<Rightarrow>
     (case slice_get (cur_bytes c) (cur_pos c) e of
        None \<Rightarrow> Inl UnexpectedEnd
      | Some head \<Rightarrow>
        if head ! 0 \<noteq> CBE_TAG_MAP then Inl (ExpectedMap (cur_pos c) (head ! 0))
        else Inr (from_le (drop 1 head), c\<lparr>cur_pos := e\<rparr>)))"

definition read_uint :: "(CbeCursor, BudgetDecodeError, u64) reader" where
  "read_uint c =
     (case usize_checked_add (cur_pos c) HEAD_LEN of
        None \<Rightarrow> Inl UnexpectedEnd
      | Some e \<Rightarrow>
     (case slice_get (cur_bytes c) (cur_pos c) e of
        None \<Rightarrow> Inl UnexpectedEnd
      | Some head \<Rightarrow>
        if head ! 0 \<noteq> CBE_TAG_UINT then Inl (ExpectedUint (cur_pos c) (head ! 0))
        else Inr (from_le (drop 1 head), c\<lparr>cur_pos := e\<rparr>)))"

definition read_amount :: "(CbeCursor, BudgetDecodeError, u256) reader" where
  "read_amount c =
     (case usize_checked_add (cur_pos c) AMOUNT_HEAD_LEN of
        None \<Rightarrow> Inl UnexpectedEnd
      | Some e \<Rightarrow>
     (case slice_get (cur_bytes c) (cur_pos c) e of
        None \<Rightarrow> Inl UnexpectedEnd
      | Some head \<Rightarrow>
        if head ! 0 \<noteq> CBE_TAG_AMOUNT then Inl (ExpectedAmount (cur_pos c) (head ! 0))
        else Inr (from_le (drop 1 head), c\<lparr>cur_pos := e\<rparr>)))"

definition skip_uint :: "(CbeCursor, BudgetDecodeError, unit) reader" where
  "skip_uint = rbind read_uint (\<lambda>_. rret ())"

definition skip_amount :: "(CbeCursor, BudgetDecodeError, unit) reader" where
  "skip_amount = rbind read_amount (\<lambda>_. rret ())"

definition skip_bytes :: "(CbeCursor, BudgetDecodeError, unit) reader" where
  "skip_bytes c =
     (case usize_checked_add (cur_pos c) HEAD_LEN of
        None \<Rightarrow> Inl UnexpectedEnd
      | Some e \<Rightarrow>
     (case slice_get (cur_bytes c) (cur_pos c) e of
        None \<Rightarrow> Inl UnexpectedEnd
      | Some head \<Rightarrow>
        if head ! 0 \<noteq> CBE_TAG_BYTES then Inl (ExpectedBytes (cur_pos c) (head ! 0))
        else
     (case usize_checked_add e (unat (from_le (drop 1 head) :: u64)) of
        None \<Rightarrow> Inl UnexpectedEnd
      | Some payload_end \<Rightarrow>
        if length (cur_bytes c) < payload_end then Inl UnexpectedEnd
        else Inr ((), c\<lparr>cur_pos := payload_end\<rparr>))))"

text \<open>The top-level \<open>decode\<close> functions: run a decoder from the start and reject trailing bytes.\<close>

definition decode_all :: "(CbeCursor, BudgetDecodeError, 'a) reader \<Rightarrow> bytes \<Rightarrow> BudgetDecodeError + 'a" where
  "decode_all p bs =
     (case p (cursor_new bs) of
        Inl e \<Rightarrow> Inl e
      | Inr (v, c) \<Rightarrow>
          if \<not> is_at_end c then Inl (TrailingBytes (length bs - cur_pos c)) else Inr v)"

section \<open>Policy and cells\<close>

datatype BudgetPolicy = Bounded (free_tier: u64) (action_cost: u64) (current_epoch: u64)

definition mk_bounded :: "u64 \<Rightarrow> u64 \<Rightarrow> u64 \<Rightarrow> BudgetPolicy" where
  "mk_bounded ft ac ep = Bounded ft (max ac 1) ep"

fun encode_policy :: "BudgetPolicy \<Rightarrow> bytes" where
  "encode_policy (Bounded ft ac ep) =
     push_cbe_uint (push_cbe_uint (push_cbe_uint (push_cbe_uint [] 0) ft) ac) ep"

definition decode_policy_at :: "(CbeCursor, BudgetDecodeError, BudgetPolicy) reader" where
  "decode_policy_at =
     rbind read_uint (\<lambda>tag.
     if tag \<noteq> 0 then rfail (NonCanonical ''budgetPolicy tag must be 0'') else
     rbind read_uint (\<lambda>ft.
     rbind read_uint (\<lambda>ac.
     if ac = 0 then rfail (NonCanonical ''budgetPolicy actionCost must be >= 1'') else
     rbind read_uint (\<lambda>ep.
     rret (Bounded ft ac ep)))))"

definition decode_policy :: "bytes \<Rightarrow> BudgetDecodeError + BudgetPolicy" where
  "decode_policy bs = decode_all decode_policy_at bs"

record ActorBudget =
  last_seen_epoch :: u64
  budget_balance :: u64

definition cell_empty :: ActorBudget where
  "cell_empty = \<lparr>last_seen_epoch = 0, budget_balance = 0\<rparr>"

definition normalise :: "ActorBudget \<Rightarrow> u64 \<Rightarrow> u64 \<Rightarrow> ActorBudget" where
  "normalise b now ft =
     (if last_seen_epoch b < now
      then \<lparr>last_seen_epoch = now, budget_balance = max (budget_balance b) ft\<rparr>
      else b)"

definition consume :: "ActorBudget \<Rightarrow> u64 \<Rightarrow> u64 \<Rightarrow> u64 \<Rightarrow> ActorBudget option" where
  "consume b now ft cost =
     (let n = normalise b now ft in
      if cost \<le> budget_balance n
      then Some \<lparr>last_seen_epoch = last_seen_epoch n, budget_balance = budget_balance n - cost\<rparr>
      else None)"

definition top_up :: "ActorBudget \<Rightarrow> u64 \<Rightarrow> u64 \<Rightarrow> u64 \<Rightarrow> ActorBudget" where
  "top_up b now ft amount =
     (let n = normalise b now ft in
      \<lparr>last_seen_epoch = last_seen_epoch n, budget_balance = wsat_add (budget_balance n) amount\<rparr>)"

definition encode_cell :: "ActorBudget \<Rightarrow> bytes" where
  "encode_cell b = push_cbe_uint (push_cbe_uint [] (last_seen_epoch b)) (budget_balance b)"

definition decode_cell_at :: "(CbeCursor, BudgetDecodeError, ActorBudget) reader" where
  "decode_cell_at =
     rbind read_uint (\<lambda>e. rbind read_uint (\<lambda>b.
     rret \<lparr>last_seen_epoch = e, budget_balance = b\<rparr>))"

definition decode_cell :: "bytes \<Rightarrow> BudgetDecodeError + ActorBudget" where
  "decode_cell bs = decode_all decode_cell_at bs"

section \<open>The epoch-budget ledger\<close>

type_synonym EpochBudgetState = "(u64, ActorBudget) btree"

definition cell_of :: "EpochBudgetState \<Rightarrow> u64 \<Rightarrow> ActorBudget" where
  "cell_of m actor = (case bt_get m actor of Some c \<Rightarrow> c | None \<Rightarrow> cell_empty)"

definition ledger_current_budget :: "EpochBudgetState \<Rightarrow> u64 \<Rightarrow> u64 \<Rightarrow> u64 \<Rightarrow> u64" where
  "ledger_current_budget m actor now ft = budget_balance (normalise (cell_of m actor) now ft)"

definition consume_in_place :: "EpochBudgetState \<Rightarrow> u64 \<Rightarrow> u64 \<Rightarrow> u64 \<Rightarrow> u64 \<Rightarrow> bool \<times> EpochBudgetState" where
  "consume_in_place m actor now ft cost =
     (case consume (cell_of m actor) now ft cost of
        Some updated \<Rightarrow> (True, bt_insert actor updated m)
      | None \<Rightarrow> (False, m))"

definition top_up_in_place :: "EpochBudgetState \<Rightarrow> u64 \<Rightarrow> u64 \<Rightarrow> u64 \<Rightarrow> u64 \<Rightarrow> EpochBudgetState" where
  "top_up_in_place m actor now ft amount =
     bt_insert actor (top_up (cell_of m actor) now ft amount) m"

fun encode_entries :: "EpochBudgetState \<Rightarrow> bytes \<Rightarrow> bytes" where
  "encode_entries [] out = out"
| "encode_entries ((actor, cell) # m) out =
     encode_entries m (push_cbe_uint out actor @ encode_cell cell)"

definition encode_ledger :: "EpochBudgetState \<Rightarrow> bytes" where
  "encode_ledger m =
     (let count = (if length m < 2 ^ 64 then of_nat (length m) else wmax :: u64) in
      encode_entries m ([CBE_TAG_MAP] @ to_le count))"

fun decode_entries :: "nat \<Rightarrow> u64 option \<Rightarrow> EpochBudgetState \<Rightarrow>
    (CbeCursor, BudgetDecodeError, EpochBudgetState) reader" where
  "decode_entries 0 prev m = rret m"
| "decode_entries (Suc n) prev m =
     rbind read_uint (\<lambda>key.
     if (case prev of Some p \<Rightarrow> key \<le> p | None \<Rightarrow> False)
     then rfail (NonCanonical ''epochBudgets keys must be strictly ascending'')
     else rbind decode_cell_at (\<lambda>cell.
     decode_entries n (Some key) (bt_insert key cell m)))"

definition decode_ledger_at :: "(CbeCursor, BudgetDecodeError, EpochBudgetState) reader" where
  "decode_ledger_at = rbind read_map_head (\<lambda>count. decode_entries (unat count) None [])"

definition decode_ledger :: "bytes \<Rightarrow> BudgetDecodeError + EpochBudgetState" where
  "decode_ledger bs = decode_all decode_ledger_at bs"

section \<open>The budget view of a signed action\<close>

datatype ActionBudgetKind =
    Ordinary
  | DepositWithFee (recipient: u64) (budget_grant: u64)
  | TopUpActionBudget (gas_resource: u64) (pool_actor: u64) (gas_amount: u256) (budget_increment: u64)
  | TopUpActionBudgetFor (recipient: u64) (gas_resource: u64) (pool_actor: u64) (gas_amount: u256)
      (budget_increment: u64)
  | ClaimBudgetRefund (gas_resource: u64) (pool_actor: u64) (budget_units: u64)
      (wei_per_budget_unit: u256)

record SignedActionBudgetView =
  signer :: u64
  kind :: ActionBudgetKind

definition decode_kind :: "u64 \<Rightarrow> (CbeCursor, BudgetDecodeError, ActionBudgetKind) reader" where
  "decode_kind tag =
     (if tag = 0 then
        rthen skip_uint (rthen skip_uint (rthen skip_uint (rthen skip_amount (rret Ordinary))))
      else if tag = 13 then
        rthen skip_uint (rthen skip_uint (rthen skip_amount (rthen skip_uint (rret Ordinary))))
      else if tag = 1 \<or> tag = 2 \<or> (5 \<le> tag \<and> tag \<le> 7) then
        rthen skip_uint (rthen skip_uint (rthen skip_amount (rret Ordinary)))
      else if tag = 3 \<or> tag = 9 \<or> tag = 11 then
        rthen skip_uint (rret Ordinary)
      else if tag = 4 \<or> tag = 12 then
        rthen skip_uint (rthen skip_bytes (rret Ordinary))
      else if tag = 14 then
        rthen skip_uint (rthen skip_uint (rthen skip_amount (rthen skip_bytes (rret Ordinary))))
      else if tag = 16 then rret Ordinary
      else if tag = 17 then
        rthen skip_bytes (rthen skip_uint (rthen skip_uint (rthen skip_bytes (rret Ordinary))))
      else if tag = 18 then
        rthen skip_bytes (rthen skip_uint (rthen skip_uint (rthen skip_uint (rret Ordinary))))
      else if tag = 19 then
        rthen skip_uint (rbind read_uint (\<lambda>rcpt. rthen skip_uint (rthen skip_amount (rthen skip_amount
        (rbind read_uint (\<lambda>grant. rthen skip_uint (rthen skip_amount
        (rret (DepositWithFee rcpt grant)))))))))
      else if tag = 20 then
        rbind read_uint (\<lambda>gr. rbind read_amount (\<lambda>ga. rbind read_uint (\<lambda>bi. rbind read_uint (\<lambda>pa.
        rret (TopUpActionBudget gr pa ga bi)))))
      else if tag = 21 then
        rbind read_uint (\<lambda>rcpt. rbind read_uint (\<lambda>gr. rbind read_amount (\<lambda>ga. rbind read_uint (\<lambda>bi.
        rbind read_uint (\<lambda>pa. rret (TopUpActionBudgetFor rcpt gr pa ga bi))))))
      else if tag = 22 then
        rbind read_uint (\<lambda>gr. rbind read_uint (\<lambda>bu. rbind read_amount (\<lambda>w. rbind read_uint (\<lambda>pa.
        rret (ClaimBudgetRefund gr pa bu w)))))
      else if tag = 24 then
        rthen skip_uint (rthen skip_amount (rthen skip_uint (rthen skip_uint (rret Ordinary))))
      else if tag = 25 then
        rthen skip_uint (rthen skip_uint (rthen skip_uint (rthen skip_amount (rthen skip_amount
        (rthen skip_uint (rret Ordinary))))))
      else if tag = 8 \<or> tag = 10 \<or> tag = 15 then rfail (UnsupportedActionTag tag)
      else rfail (UnknownActionTag tag))"

definition decode_view_at :: "(CbeCursor, BudgetDecodeError, SignedActionBudgetView) reader" where
  "decode_view_at =
     rbind read_uint (\<lambda>tag. rbind (decode_kind tag) (\<lambda>k. rbind read_uint (\<lambda>s.
     rthen skip_uint (rthen skip_bytes (rret \<lparr>signer = s, kind = k\<rparr>)))))"

definition decode_budget_view :: "bytes \<Rightarrow> BudgetDecodeError + SignedActionBudgetView" where
  "decode_budget_view bs = decode_all decode_view_at bs"

section \<open>The cursor reads exactly the wire items\<close>

definition cursor_ok :: "CbeCursor \<Rightarrow> bool" where
  "cursor_ok c \<longleftrightarrow> cur_pos c \<le> length (cur_bytes c) \<and> length (cur_bytes c) \<le> isize_max"

definition cursor_rest :: "CbeCursor \<Rightarrow> bytes" where
  "cursor_rest c = drop (cur_pos c) (cur_bytes c)"

lemma cursor_new_simps [simp]:
  "cursor_rest (cursor_new bs) = bs" "cursor_ok (cursor_new bs) \<longleftrightarrow> length bs \<le> isize_max"
  by (simp_all add: cursor_new_def cursor_rest_def cursor_ok_def)

lemma is_at_end_iff: "is_at_end c \<longleftrightarrow> cursor_rest c = []"
  by (simp add: is_at_end_def cursor_rest_def)

lemma cursor_head_step:
  assumes "cursor_ok c" "n \<le> 64"
  shows "usize_checked_add (cur_pos c) n = Some (cur_pos c + n)"
    "slice_get (cur_bytes c) (cur_pos c) (cur_pos c + n) =
      (if n \<le> length (cursor_rest c) then Some (take n (cursor_rest c)) else None)"
  using assms by (auto simp: usize_checked_add_def slice_get_def cursor_ok_def cursor_rest_def
      usize_max_def isize_max_def)

lemma cursor_advance:
  assumes "cursor_ok c" "n \<le> length (cursor_rest c)"
  shows "cursor_ok (c\<lparr>cur_pos := cur_pos c + n\<rparr>)"
    "cursor_rest (c\<lparr>cur_pos := cur_pos c + n\<rparr>) = drop n (cursor_rest c)"
  using assms by (auto simp: cursor_ok_def cursor_rest_def add.commute)

lemma head_split:
  assumes "Suc n \<le> length xs"
  shows "take (Suc n) xs = (take (Suc n) xs ! 0) # drop 1 (take (Suc n) xs)"
    "length (drop 1 (take (Suc n) xs)) = n"
  using assms by (cases xs; simp)+

text \<open>
  One fixed-width item: the common shape of \<open>read_uint\<close>, \<open>read_amount\<close> and \<open>read_map_head\<close>.
\<close>

lemma exact_head:
  fixes rd :: "(CbeCursor, BudgetDecodeError, 'v) reader"
  assumes codec: "byte_codec enc dec n" and n: "Suc n \<le> 64"
    and rd: "\<And>c. cursor_ok c \<Longrightarrow> Suc n \<le> length (cursor_rest c) \<Longrightarrow>
      take (Suc n) (cursor_rest c) ! 0 = tag \<Longrightarrow>
      rd c = Inr (dec (drop 1 (take (Suc n) (cursor_rest c))), c\<lparr>cur_pos := cur_pos c + Suc n\<rparr>)"
    and bad: "\<And>c v c'. cursor_ok c \<Longrightarrow> rd c = Inr (v, c') \<Longrightarrow>
      Suc n \<le> length (cursor_rest c) \<and> take (Suc n) (cursor_rest c) ! 0 = tag"
  shows "exact_reader cursor_ok cursor_rest rd (\<lambda>v w. w = tag # enc v)"
proof
  fix c v c' assume ok: "cursor_ok c" and r: "rd c = Inr (v, c')"
  note b = bad [OF ok r]
  then have e: "v = dec (drop 1 (take (Suc n) (cursor_rest c)))"
    "c' = c\<lparr>cur_pos := cur_pos c + Suc n\<rparr>" using rd [OF ok] r by simp_all
  have "tag # enc v = take (Suc n) (cursor_rest c)"
    using head_split [of n "cursor_rest c"] b byte_codec.enc_dec [OF codec] e(1) by metis
  then show "cursor_ok c' \<and> (\<exists>w. w = tag # enc v \<and> cursor_rest c = w @ cursor_rest c')"
    using cursor_advance [OF ok, of "Suc n"] b e(2) by simp
next
  fix c v w r assume ok: "cursor_ok c" and w: "w = tag # enc v" "cursor_rest c = w @ r"
  have l: "length (enc v) = n" by (rule byte_codec.width_enc [OF codec])
  then have "take (Suc n) (cursor_rest c) = tag # enc v" "Suc n \<le> length (cursor_rest c)"
    using w by simp_all
  then have "rd c = Inr (v, c\<lparr>cur_pos := cur_pos c + Suc n\<rparr>)"
    using rd [OF ok] by (simp add: byte_codec.dec_enc [OF codec])
  then show "\<exists>c'. rd c = Inr (v, c') \<and> cursor_ok c' \<and> cursor_rest c' = r"
    using cursor_advance [OF ok, of "Suc n"] w l by simp
qed

lemmas reader_defs = read_uint_def read_amount_def read_map_head_def
  HEAD_LEN_def AMOUNT_HEAD_LEN_def CBE_TAG_UINT_def CBE_TAG_AMOUNT_def CBE_TAG_MAP_def CBE_TAG_BYTES_def

lemma exact_read_uint: "exact_reader cursor_ok cursor_rest read_uint (\<lambda>v w. w = cbe_uint v)"
  unfolding cbe_uint_def
  by (rule exact_head [OF le64.byte_codec_axioms])
    (auto simp: reader_defs cursor_head_step split: if_splits)

lemma exact_read_map_head:
  "exact_reader cursor_ok cursor_rest read_map_head (\<lambda>v w. w = cbe_map_head v)"
  unfolding cbe_map_head_def
  by (rule exact_head [OF le64.byte_codec_axioms])
    (auto simp: reader_defs cursor_head_step split: if_splits)

lemma exact_read_amount: "exact_reader cursor_ok cursor_rest read_amount (\<lambda>v w. w = cbe_amount v)"
  unfolding cbe_amount_def
  by (rule exact_head [OF le256.byte_codec_axioms])
    (auto simp: reader_defs cursor_head_step split: if_splits)

lemma skip_bytes_eq:
  assumes "cursor_ok c"
  shows "skip_bytes c = Inr (u, c') \<longleftrightarrow>
    (\<exists>bs r. length bs < 2 ^ 64 \<and> cursor_rest c = cbe_bytes bs @ r \<and>
      c' = c\<lparr>cur_pos := cur_pos c + length (cbe_bytes bs)\<rparr>)" (is "?L \<longleftrightarrow> ?R")
proof -
  let ?r = "cursor_rest c"
  let ?h = "take 9 ?r"
  let ?n = "unat (from_le (drop 1 ?h) :: u64)"
  have len: "length (cur_bytes c) = cur_pos c + length ?r" "length (cur_bytes c) \<le> isize_max"
    using assms by (simp_all add: cursor_ok_def cursor_rest_def)
  have L: "?L \<longleftrightarrow> 9 \<le> length ?r \<and> ?h ! 0 = 2 \<and> 9 + ?n \<le> length ?r \<and>
      c' = c\<lparr>cur_pos := cur_pos c + (9 + ?n)\<rparr>"
    using assms len
    by (auto simp: skip_bytes_def reader_defs cursor_head_step usize_checked_add_def usize_max_def
        isize_max_def add.assoc split: if_splits option.splits)
  show ?thesis
  proof
    assume ?L
    then have b: "9 \<le> length ?r" "?h ! 0 = 2" "9 + ?n \<le> length ?r"
      and c': "c' = c\<lparr>cur_pos := cur_pos c + (9 + ?n)\<rparr>" using L by auto
    define bs where "bs = take ?n (drop 9 ?r)"
    have n: "length bs = ?n" using b by (simp add: bs_def)
    have "?h = 2 # to_le (of_nat ?n :: u64)"
      using head_split [of 8 ?r] b(1,2) le64.enc_dec [of "drop 1 ?h"] by simp
    then have "?r = cbe_bytes bs @ drop ?n (drop 9 ?r)"
      by (metis append_Cons append_assoc append_take_drop_id bs_def cbe_bytes_def n)
    moreover have "length bs < 2 ^ 64" using n unat_lt [of "from_le (drop 1 ?h) :: u64"] by simp
    moreover have "c' = c\<lparr>cur_pos := cur_pos c + length (cbe_bytes bs)\<rparr>" using n c' by simp
    ultimately show ?R by blast
  next
    assume ?R
    then obtain bs r where bs: "length bs < 2 ^ 64" "?r = cbe_bytes bs @ r"
      "c' = c\<lparr>cur_pos := cur_pos c + length (cbe_bytes bs)\<rparr>" by blast
    then have "?h = 2 # to_le (of_nat (length bs) :: u64)" by (simp add: cbe_bytes_def)
    moreover from this have "?n = length bs"
      using bs(1) by (simp add: le64.dec_enc unat_of_nat)
    ultimately show ?L using L bs by simp
  qed
qed

lemma exact_skip_bytes: "exact_reader cursor_ok cursor_rest skip_bytes
    (\<lambda>_ w. \<exists>bs. length bs < 2 ^ 64 \<and> w = cbe_bytes bs)"
proof
  fix c v c' assume ok: "cursor_ok c" and "skip_bytes c = Inr (v, c')"
  then obtain bs r where "length bs < 2 ^ 64" "cursor_rest c = cbe_bytes bs @ r"
    "c' = c\<lparr>cur_pos := cur_pos c + length (cbe_bytes bs)\<rparr>" by (auto simp: skip_bytes_eq)
  then show "cursor_ok c' \<and> (\<exists>w. (\<exists>bs. length bs < 2 ^ 64 \<and> w = cbe_bytes bs) \<and>
      cursor_rest c = w @ cursor_rest c')"
    using cursor_advance [OF ok, of "length (cbe_bytes bs)"] by auto
next
  fix c v w r assume ok: "cursor_ok c" and "\<exists>bs. length bs < 2 ^ 64 \<and> w = cbe_bytes bs"
    and r: "cursor_rest c = w @ r"
  then obtain bs where bs: "length bs < 2 ^ 64" "w = cbe_bytes bs" by blast
  then have "skip_bytes c = Inr (v, c\<lparr>cur_pos := cur_pos c + length w\<rparr>)"
    using ok r by (subst skip_bytes_eq) auto
  then show "\<exists>c'. skip_bytes c = Inr (v, c') \<and> cursor_ok c' \<and> cursor_rest c' = r"
    using cursor_advance [OF ok, of "length w"] r by simp
qed

interpretation host_cbe: cbe_reader cursor_ok cursor_rest read_uint read_amount skip_bytes
  by (intro cbe_reader.intro exact_read_uint exact_read_amount exact_skip_bytes)

lemma decode_all_exact:
  assumes "exact_reader cursor_ok cursor_rest p img" and "length bs \<le> isize_max"
  shows "decode_all p bs = Inr v \<longleftrightarrow> img v bs"
proof -
  have "decode_all p bs = Inr v \<longleftrightarrow> (\<exists>c. p (cursor_new bs) = Inr (v, c) \<and> cursor_rest c = [])"
    by (auto simp: decode_all_def is_at_end_iff split: sum.splits)
  then show ?thesis
    using exact_reader.get_to_end [OF assms(1), of "cursor_new bs" v] assms(2) by simp
qed

section \<open>Exactness of the codecs\<close>

lemma push_cbe_uint_eq: "push_cbe_uint out v = out @ cbe_uint v"
  by (simp add: push_cbe_uint_def cbe_uint_def CBE_TAG_UINT_def)

lemmas exact_intros = exact_bind exact_if exact_ret exact_fail
  exact_read_uint exact_read_amount exact_read_map_head exact_skip_bytes

lemma exact_decode_policy: "exact_reader cursor_ok cursor_rest decode_policy_at
    (\<lambda>p w. action_cost p \<noteq> 0 \<and> w = encode_policy p)"
  unfolding decode_policy_at_def
  apply (rule exact_cong, (rule exact_intros)+)
  subgoal for x w by (cases x) (auto simp: push_cbe_uint_eq)
  done

lemma exact_decode_cell: "exact_reader cursor_ok cursor_rest decode_cell_at (\<lambda>b w. w = encode_cell b)"
  unfolding decode_cell_at_def
  apply (rule exact_cong, (rule exact_intros)+)
  subgoal for x w by (cases x) (auto simp: push_cbe_uint_eq encode_cell_def)
  done

fun entries_image :: "EpochBudgetState \<Rightarrow> bytes" where
  "entries_image [] = []"
| "entries_image ((k, c) # es) = cbe_uint k @ encode_cell c @ entries_image es"

lemma encode_entries_eq: "encode_entries m out = out @ entries_image m"
  by (induction m out rule: encode_entries.induct) (auto simp: push_cbe_uint_eq)

definition ascending_from :: "u64 option \<Rightarrow> EpochBudgetState \<Rightarrow> bool" where
  "ascending_from prev es \<longleftrightarrow> bt_wf es \<and> (\<forall>p. prev = Some p \<longrightarrow> (\<forall>k \<in> bt_keys es. p < k))"

lemma ascending_from_simps [simp]:
  "ascending_from prev []"
  "ascending_from prev ((k, c) # es) \<longleftrightarrow>
     \<not> (case prev of Some p \<Rightarrow> k \<le> p | None \<Rightarrow> False) \<and> ascending_from (Some k) es"
  by (auto simp: ascending_from_def split: option.splits intro: less_trans)

lemma exact_decode_entries: "exact_reader cursor_ok cursor_rest (decode_entries n prev m)
    (\<lambda>x w. \<exists>es. length es = n \<and> ascending_from prev es \<and> w = entries_image es \<and>
      x = foldl (\<lambda>m (k, c). bt_insert k c m) m es)"
proof (induction n arbitrary: prev m)
  case 0
  show ?case unfolding decode_entries.simps by (rule exact_cong [OF exact_ret]) auto
next
  case (Suc n)
  let ?bad = "\<lambda>k. case prev of Some p \<Rightarrow> k \<le> p | None \<Rightarrow> False"
  let ?ins = "foldl (\<lambda>m (k, c). bt_insert k c m)"
  have img: "(\<exists>k a b. a = cbe_uint k \<and> (if ?bad k then False
        else \<exists>c a' b'. a' = encode_cell c \<and> (\<exists>es. length es = n \<and> ascending_from (Some k) es \<and>
          b' = entries_image es \<and> x = ?ins (bt_insert k c m) es) \<and> b = a' @ b') \<and> w = a @ b) \<longleftrightarrow>
      (\<exists>es. length es = Suc n \<and> ascending_from prev es \<and> w = entries_image es \<and> x = ?ins m es)"
    (is "?A \<longleftrightarrow> ?B") for x w
  proof
    assume ?A
    then obtain k c es where "\<not> ?bad k" "length es = n" "ascending_from (Some k) es"
      "x = ?ins (bt_insert k c m) es" "w = cbe_uint k @ encode_cell c @ entries_image es"
      by (auto split: if_splits)
    then show ?B by (intro exI [of _ "(k, c) # es"]) simp
  next
    assume ?B
    then obtain k c es where "\<not> ?bad k" "length es = n" "ascending_from (Some k) es"
      "x = ?ins (bt_insert k c m) es" "w = cbe_uint k @ encode_cell c @ entries_image es"
      by (auto simp: length_Suc_conv)
    then show ?A by (intro exI [of _ k]) auto
  qed
  show ?case unfolding decode_entries.simps
    by (rule exact_cong [OF exact_bind [OF exact_read_uint exact_if [OF exact_fail
            exact_bind [OF exact_decode_cell Suc]]] img])
qed

lemma foldl_bt_insert_append:
  "bt_wf (m @ es) \<Longrightarrow> foldl (\<lambda>m (k, c). bt_insert k c m) m es = m @ es"
proof (induction es arbitrary: m)
  case (Cons e es)
  obtain k c where e: "e = (k, c)" by (cases e)
  have "\<forall>k' \<in> bt_keys m. k' < k"
    using Cons.prems by (auto simp: e bt_wf_def bt_keys_def sorted_wrt_append)
  then have "bt_insert k c m = m @ [(k, c)]"
    by (induction m) (auto dest: less_asym)
  then show ?case using Cons.IH [of "m @ [e]"] Cons.prems e by simp
qed simp

lemma exact_decode_ledger: "exact_reader cursor_ok cursor_rest decode_ledger_at
    (\<lambda>x w. length x < 2 ^ 64 \<and> bt_wf x \<and> w = encode_ledger x)"
proof -
  have img: "(\<exists>n a b. a = cbe_map_head n \<and> (\<exists>es. length es = unat n \<and> ascending_from None es \<and>
        b = entries_image es \<and> x = foldl (\<lambda>m (k, c). bt_insert k c m) [] es) \<and> w = a @ b) \<longleftrightarrow>
      length x < 2 ^ 64 \<and> bt_wf x \<and> w = encode_ledger x" (is "?A \<longleftrightarrow> ?B") for x w
  proof
    assume ?A
    then obtain n es where "length es = unat n" "bt_wf es" "w = cbe_map_head n @ entries_image es"
      "x = es" by (auto simp: ascending_from_def foldl_bt_insert_append)
    then show ?B using unat_lt [of n]
      by (simp add: encode_ledger_def encode_entries_eq cbe_map_head_def CBE_TAG_MAP_def)
  next
    assume ?B
    then show ?A
      by (intro exI [of _ "of_nat (length x)"])
        (auto simp: encode_ledger_def encode_entries_eq cbe_map_head_def CBE_TAG_MAP_def
          unat_of_nat ascending_from_def foldl_bt_insert_append)
  qed
  show ?thesis unfolding decode_ledger_at_def
    by (rule exact_cong [OF exact_bind [OF exact_read_map_head exact_decode_entries] img])
qed

section \<open>The grammar of the budget view\<close>

text \<open>
  The fields of every action the gate decodes, by constructor tag, and the budget kind they denote.
  This is the table form of the frozen action encoding; \<open>decode_kind\<close> is proved equal to reading it.
\<close>

definition action_shape :: "u64 \<Rightarrow> wshape list option" where
  "action_shape tag =
     (if tag = 0 then Some [ShUint, ShUint, ShUint, ShAmount]
      else if tag = 13 then Some [ShUint, ShUint, ShAmount, ShUint]
      else if tag = 1 \<or> tag = 2 \<or> (5 \<le> tag \<and> tag \<le> 7) then Some [ShUint, ShUint, ShAmount]
      else if tag = 3 \<or> tag = 9 \<or> tag = 11 then Some [ShUint]
      else if tag = 4 \<or> tag = 12 then Some [ShUint, ShBytes]
      else if tag = 14 then Some [ShUint, ShUint, ShAmount, ShBytes]
      else if tag = 16 then Some []
      else if tag = 17 then Some [ShBytes, ShUint, ShUint, ShBytes]
      else if tag = 18 then Some [ShBytes, ShUint, ShUint, ShUint]
      else if tag = 19 then
        Some [ShUint, ShUint, ShUint, ShAmount, ShAmount, ShUint, ShUint, ShAmount]
      else if tag = 20 then Some [ShUint, ShAmount, ShUint, ShUint]
      else if tag = 21 then Some [ShUint, ShUint, ShAmount, ShUint, ShUint]
      else if tag = 22 then Some [ShUint, ShUint, ShAmount, ShUint]
      else if tag = 24 then Some [ShUint, ShAmount, ShUint, ShUint]
      else if tag = 25 then Some [ShUint, ShUint, ShUint, ShAmount, ShAmount, ShUint]
      else None)"

definition kind_of_fields :: "u64 \<Rightarrow> wval list \<Rightarrow> ActionBudgetKind" where
  "kind_of_fields tag vs =
     (if tag = 19 then DepositWithFee (wuint (vs ! 1)) (wuint (vs ! 5))
      else if tag = 20 then
        TopUpActionBudget (wuint (vs ! 0)) (wuint (vs ! 3)) (wamount (vs ! 1)) (wuint (vs ! 2))
      else if tag = 21 then
        TopUpActionBudgetFor (wuint (vs ! 0)) (wuint (vs ! 1)) (wuint (vs ! 4)) (wamount (vs ! 2))
          (wuint (vs ! 3))
      else if tag = 22 then
        ClaimBudgetRefund (wuint (vs ! 0)) (wuint (vs ! 3)) (wuint (vs ! 1)) (wamount (vs ! 2))
      else Ordinary)"

lemma decode_kind_table:
  "decode_kind tag =
     (case action_shape tag of
        Some sh \<Rightarrow> rbind (read_fields read_uint read_amount skip_bytes sh) (\<lambda>vs. rret (kind_of_fields tag vs))
      | None \<Rightarrow> rfail (if tag = 8 \<or> tag = 10 \<or> tag = 15 then UnsupportedActionTag tag
                      else UnknownActionTag tag))"
  by (auto simp: decode_kind_def action_shape_def kind_of_fields_def rthen_def skip_uint_def
      skip_amount_def rbind_assoc)

definition view_image :: "SignedActionBudgetView \<Rightarrow> bytes \<Rightarrow> bool" where
  "view_image v w \<longleftrightarrow> (\<exists>tag vs n. action_shape tag = Some (map wshape_of vs) \<and>
     kind v = kind_of_fields tag vs \<and> wimg (VUint tag # vs @ [VUint (signer v), VUint n, VBytes]) w)"

lemma exact_decode_kind: "exact_reader cursor_ok cursor_rest (decode_kind tag)
    (\<lambda>k w. \<exists>vs. action_shape tag = Some (map wshape_of vs) \<and> wimg vs w \<and> k = kind_of_fields tag vs)"
proof (cases "action_shape tag")
  case None
  then show ?thesis unfolding decode_kind_table by (simp add: exact_cong [OF exact_fail])
next
  case (Some sh)
  show ?thesis unfolding decode_kind_table Some option.case
    by (rule exact_cong [OF exact_bind [OF host_cbe.exact_fields exact_ret]]) (auto simp: Some)
qed

lemma exact_decode_view: "exact_reader cursor_ok cursor_rest decode_view_at view_image"
  unfolding decode_view_at_def rthen_def skip_uint_def rbind_assoc
  apply (rule exact_cong, (rule exact_decode_kind exact_intros)+)
  subgoal for x w by (cases x) (auto simp: view_image_def wimg_append; blast)
  done

section \<open>Properties\<close>

text \<open>
  C16: The three budget codecs are canonical: on every input a Rust slice can be, \<open>decode\<close> returns a
  value exactly when the input is that value's encoding. So decoding inverts encoding, no second
  byte string decodes to the same policy, cell or ledger, trailing bytes and unsorted or repeated
  ledger keys are rejected, and a zero action cost never decodes.
\<close>

theorem budget_codecs_exact:
  assumes "length bs \<le> isize_max"
  shows "(decode_policy bs = Inr p \<longleftrightarrow> action_cost p \<noteq> 0 \<and> bs = encode_policy p) \<and>
    (decode_cell bs = Inr b \<longleftrightarrow> bs = encode_cell b) \<and>
    (decode_ledger bs = Inr m \<longleftrightarrow> length m < 2 ^ 64 \<and> bt_wf m \<and> bs = encode_ledger m)"
  unfolding decode_policy_def decode_cell_def decode_ledger_def
  using decode_all_exact [OF exact_decode_policy assms] decode_all_exact [OF exact_decode_cell assms]
    decode_all_exact [OF exact_decode_ledger assms] by simp

theorem budget_codecs_exact_witness:
  "decode_ledger (encode_ledger [(3, \<lparr>last_seen_epoch = 1, budget_balance = 70\<rparr>)]) =
     Inr [(3, \<lparr>last_seen_epoch = 1, budget_balance = 70\<rparr>)]"
  by (rule budget_codecs_exact [THEN conjunct2, THEN conjunct2, THEN iffD2])
    (simp_all add: encode_ledger_def encode_entries_eq encode_cell_def push_cbe_uint_eq isize_max_def)

text \<open>
  C15: \<open>decode_budget_view\<close> accepts exactly the encoded signed actions of the constructor table:
  the tag, that tag's fields in order, the signer, the nonce and the signature, and nothing behind
  them; and it reports the signer and budget kind of precisely those fields.
\<close>

theorem decode_budget_view_exact:
  assumes "length bs \<le> isize_max"
  shows "decode_budget_view bs = Inr v \<longleftrightarrow> view_image v bs"
  unfolding decode_budget_view_def by (rule decode_all_exact [OF exact_decode_view assms])

theorem decode_budget_view_exact_witness:
  "decode_budget_view (cbe_uint 16 @ cbe_uint 3 @ cbe_uint 9 @ cbe_bytes [1, 2]) =
     Inr \<lparr>signer = 3, kind = Ordinary\<rparr>"
proof (rule decode_budget_view_exact [THEN iffD2])
  show "view_image \<lparr>signer = 3, kind = Ordinary\<rparr>
      (cbe_uint 16 @ cbe_uint 3 @ cbe_uint 9 @ cbe_bytes [1, 2])"
    unfolding view_image_def
    by (rule exI [of _ 16], rule exI [of _ "[]"], rule exI [of _ 9])
      (auto simp: action_shape_def kind_of_fields_def intro: exI [of _ "[1, 2]"])
qed (simp add: isize_max_def)

end
