(* ===== verification/Host_Gate.thy ===== *)
theory Host_Gate
  imports Host_Budget
begin

text \<open>
  The admission half of \<open>src/runtime/knomosis-host/src/budget.rs\<close>: \<open>BudgetGate\<close>, which charges the
  signer of every action, credits deposits and top-ups, and rejects the action otherwise.
  \<open>evaluate\<close> is split the way the source's \<open>match\<close> statements are: the guards, the charge, the
  credit. The gas-balance table and the consent set are read by key only, so they are a map and a
  set.
\<close>

section \<open>The gate\<close>

datatype GateRejection =
    InsufficientBudget
  | BridgeActorTopUp
  | SelfPoolTopUp
  | ZeroGasTopUp
  | SelfRecipientDelegatedTopUp
  | TopUpNonCanonicalPool
  | TopUpNonCanonicalResource
  | TopUpBudgetCeilingExceeded
  | NonBridgeDepositWithFee
  | InsufficientGas
  | DelegationNotAuthorized
  | RefundByBridgeActor
  | RefundToSelfPool
  | RefundRateDisabled
  | RefundZeroUnits
  | RefundNonCanonicalResource
  | RefundInsufficientPool

fun reason :: "GateRejection \<Rightarrow> string" where
  "reason InsufficientBudget = ''InsufficientBudget''"
| "reason BridgeActorTopUp = ''BudgetGateBridgeActorTopUp''"
| "reason SelfPoolTopUp = ''BudgetGateSelfPoolTopUp''"
| "reason ZeroGasTopUp = ''BudgetGateZeroGasTopUp''"
| "reason SelfRecipientDelegatedTopUp = ''BudgetGateSelfRecipientDelegatedTopUp''"
| "reason TopUpNonCanonicalPool = ''BudgetGateTopUpNonCanonicalPool''"
| "reason TopUpNonCanonicalResource = ''BudgetGateTopUpNonCanonicalResource''"
| "reason TopUpBudgetCeilingExceeded = ''BudgetGateTopUpBudgetCeilingExceeded''"
| "reason NonBridgeDepositWithFee = ''BudgetGateNonBridgeDepositWithFee''"
| "reason InsufficientGas = ''BudgetGateInsufficientGas''"
| "reason DelegationNotAuthorized = ''BudgetGateDelegationNotAuthorized''"
| "reason RefundByBridgeActor = ''BudgetGateRefundByBridgeActor''"
| "reason RefundToSelfPool = ''BudgetGateRefundToSelfPool''"
| "reason RefundRateDisabled = ''BudgetGateRefundRateDisabled''"
| "reason RefundZeroUnits = ''BudgetGateRefundZeroUnits''"
| "reason RefundNonCanonicalResource = ''BudgetGateRefundNonCanonicalResource''"
| "reason RefundInsufficientPool = ''BudgetGateRefundInsufficientPool''"

record BudgetGate =
  policy :: BudgetPolicy
  ledger :: EpochBudgetState
  strict :: bool
  balances :: "u64 \<times> u64 \<rightharpoonup> u256"
  consent :: "(u64 \<times> u64) set"
  epoch_length :: u64
  admitted :: u64

definition gate_with_ledger :: "BudgetPolicy \<Rightarrow> EpochBudgetState \<Rightarrow> BudgetGate" where
  "gate_with_ledger p m = \<lparr>policy = p, ledger = m, strict = False, balances = Map.empty,
     consent = {}, epoch_length = 0, admitted = 0\<rparr>"

definition gate_new :: "BudgetPolicy \<Rightarrow> BudgetGate" where
  "gate_new p = \<lparr>policy = p, ledger = [], strict = False, balances = Map.empty,
     consent = {}, epoch_length = 0, admitted = 0\<rparr>"

definition with_strict_checks :: "BudgetGate \<Rightarrow> BudgetGate" where
  "with_strict_checks g = g\<lparr>strict := True\<rparr>"

definition with_epoch_length :: "BudgetGate \<Rightarrow> u64 \<Rightarrow> BudgetGate" where
  "with_epoch_length g n = g\<lparr>epoch_length := n\<rparr>"

definition effective_epoch :: "BudgetGate \<Rightarrow> u64" where
  "effective_epoch g =
     wsat_add (current_epoch (policy g))
       (case wchecked_div (admitted g) (epoch_length g) of Some q \<Rightarrow> q | None \<Rightarrow> 0)"

definition set_balance :: "BudgetGate \<Rightarrow> u64 \<Rightarrow> u64 \<Rightarrow> u256 \<Rightarrow> BudgetGate" where
  "set_balance g res actor bal = g\<lparr>balances := (balances g)((res, actor) \<mapsto> bal)\<rparr>"

definition allow_delegate :: "BudgetGate \<Rightarrow> u64 \<Rightarrow> u64 \<Rightarrow> BudgetGate" where
  "allow_delegate g rcpt who = g\<lparr>consent := insert (rcpt, who) (consent g)\<rparr>"

definition gate_current_budget :: "BudgetGate \<Rightarrow> u64 \<Rightarrow> u64" where
  "gate_current_budget g actor =
     ledger_current_budget (ledger g) actor (effective_epoch g) (free_tier (policy g))"

definition balance_of :: "BudgetGate \<Rightarrow> u64 \<Rightarrow> u64 \<Rightarrow> u256" where
  "balance_of g res actor = (case balances g (res, actor) of Some b \<Rightarrow> b | None \<Rightarrow> 0)"

fun evaluate_guards :: "BudgetGate \<Rightarrow> u64 \<Rightarrow> ActionBudgetKind \<Rightarrow> GateRejection option" where
  "evaluate_guards g who (TopUpActionBudget res pool gas incr) =
     (if who = BRIDGE_ACTOR then Some BridgeActorTopUp
      else if who = pool then Some SelfPoolTopUp
      else if pool \<noteq> GAS_POOL_ACTOR then Some TopUpNonCanonicalPool
      else if res \<noteq> 0 \<and> res \<noteq> 1 then Some TopUpNonCanonicalResource
      else if MAX_TOPUP_BUDGET_PER_ACTION < incr then Some TopUpBudgetCeilingExceeded
      else if gas = 0 then Some ZeroGasTopUp
      else if strict g \<and> balance_of g res who < gas then Some InsufficientGas
      else None)"
| "evaluate_guards g who (TopUpActionBudgetFor rcpt res pool gas incr) =
     (if who = BRIDGE_ACTOR then Some BridgeActorTopUp
      else if who = pool then Some SelfPoolTopUp
      else if rcpt = who then Some SelfRecipientDelegatedTopUp
      else if pool \<noteq> GAS_POOL_ACTOR then Some TopUpNonCanonicalPool
      else if res \<noteq> 0 \<and> res \<noteq> 1 then Some TopUpNonCanonicalResource
      else if MAX_TOPUP_BUDGET_PER_ACTION < incr then Some TopUpBudgetCeilingExceeded
      else if gas = 0 then Some ZeroGasTopUp
      else if strict g \<and> balance_of g res who < gas then Some InsufficientGas
      else if strict g \<and> (rcpt, who) \<notin> consent g then Some DelegationNotAuthorized
      else None)"
| "evaluate_guards g who (DepositWithFee rcpt grant) =
     (if who \<noteq> BRIDGE_ACTOR then Some NonBridgeDepositWithFee else None)"
| "evaluate_guards g who (ClaimBudgetRefund res pool units wei) =
     (if who = BRIDGE_ACTOR then Some RefundByBridgeActor
      else if who = pool then Some RefundToSelfPool
      else if res \<noteq> 0 \<and> res \<noteq> 1 then Some RefundNonCanonicalResource
      else if wei = 0 then Some RefundRateDisabled
      else if units = 0 then Some RefundZeroUnits
      else if strict g then
        (case wchecked_mul (ucast units) wei of
           None \<Rightarrow> Some RefundInsufficientPool
         | Some refund \<Rightarrow>
             if balance_of g res pool < refund then Some RefundInsufficientPool else None)
      else None)"
| "evaluate_guards g who Ordinary = None"

fun refund_extra :: "ActionBudgetKind \<Rightarrow> u64" where
  "refund_extra (ClaimBudgetRefund res pool units wei) = units"
| "refund_extra _ = 0"

fun apply_credit :: "EpochBudgetState \<Rightarrow> u64 \<Rightarrow> u64 \<Rightarrow> u64 \<Rightarrow> ActionBudgetKind \<Rightarrow> EpochBudgetState" where
  "apply_credit m who now ft (DepositWithFee rcpt grant) = top_up_in_place m rcpt now ft grant"
| "apply_credit m who now ft (TopUpActionBudget res pool gas incr) = top_up_in_place m who now ft incr"
| "apply_credit m who now ft (TopUpActionBudgetFor rcpt res pool gas incr) =
     top_up_in_place m rcpt now ft incr"
| "apply_credit m who now ft (ClaimBudgetRefund res pool units wei) = m"
| "apply_credit m who now ft Ordinary = m"

definition evaluate :: "BudgetGate \<Rightarrow> SignedActionBudgetView \<Rightarrow> GateRejection + EpochBudgetState" where
  "evaluate g view =
     (let now = effective_epoch g; ft = free_tier (policy g); cost = action_cost (policy g);
          who = signer view
      in case evaluate_guards g who (kind view) of
           Some rej \<Rightarrow> Inl rej
         | None \<Rightarrow>
             if who \<noteq> BRIDGE_ACTOR then
               (case consume_in_place (ledger g) who now ft (wsat_add cost (refund_extra (kind view))) of
                  (False, m) \<Rightarrow> Inl InsufficientBudget
                | (True, m) \<Rightarrow> Inr (apply_credit m who now ft (kind view)))
             else Inr (apply_credit (ledger g) who now ft (kind view)))"

definition admit :: "BudgetGate \<Rightarrow> SignedActionBudgetView \<Rightarrow> (GateRejection + unit) \<times> BudgetGate" where
  "admit g view =
     (case evaluate g view of
        Inl rej \<Rightarrow> (Inl rej, g)
      | Inr next \<Rightarrow> (Inr (), g\<lparr>ledger := next, admitted := wsat_add (admitted g) 1\<rparr>))"

section \<open>Budgets of the ledger\<close>

lemma normalise_idem: "normalise (normalise b now ft) now ft = normalise b now ft"
  by (simp add: normalise_def)

lemma normalise_current:
  "now \<le> last_seen_epoch b \<Longrightarrow> normalise b now ft = b"
  by (simp add: normalise_def not_less [symmetric])

lemma normalise_epoch: "now \<le> last_seen_epoch (normalise b now ft)"
  by (simp add: normalise_def not_less)

lemma cell_of_insert [simp]: "cell_of (bt_insert a c m) a' = (if a' = a then c else cell_of m a')"
  by (simp add: cell_of_def)

lemma consume_budget:
  assumes "consume b now ft cost = Some b'"
  shows "cost \<le> budget_balance (normalise b now ft)"
    "budget_balance (normalise b' now ft) = budget_balance (normalise b now ft) - cost"
    "last_seen_epoch b' = last_seen_epoch (normalise b now ft)"
  using assms normalise_epoch [of now b ft]
  by (auto simp: consume_def Let_def normalise_current split: if_splits)

lemma top_up_budget:
  "budget_balance (normalise (top_up b now ft n) now ft) =
     wsat_add (budget_balance (normalise b now ft)) n"
  "last_seen_epoch (top_up b now ft n) = last_seen_epoch (normalise b now ft)"
  using normalise_epoch [of now b ft] by (auto simp: top_up_def Let_def normalise_current)

lemma consume_in_place_cases:
  "consume_in_place m a now ft cost = (False, m) \<and> ledger_current_budget m a now ft < cost \<or>
   (\<exists>m'. consume_in_place m a now ft cost = (True, m') \<and> cost \<le> ledger_current_budget m a now ft \<and>
     (\<forall>x. ledger_current_budget m' x now ft =
        ledger_current_budget m x now ft - (if x = a then cost else 0)))"
proof (cases "consume (cell_of m a) now ft cost")
  case None
  then show ?thesis
    by (auto simp: consume_in_place_def consume_def ledger_current_budget_def Let_def split: if_splits)
next
  case (Some c)
  then show ?thesis
    using consume_budget [OF Some] by (auto simp: consume_in_place_def ledger_current_budget_def)
qed

lemma top_up_in_place_budget:
  "ledger_current_budget (top_up_in_place m a now ft n) x now ft =
     (if x = a then wsat_add (ledger_current_budget m x now ft) n else ledger_current_budget m x now ft)"
  by (simp add: top_up_in_place_def ledger_current_budget_def top_up_budget)

text \<open>A later epoch raises a budget to the free tier at most, once or not at all.\<close>

lemma budget_epoch_growth:
  assumes "now \<le> now'"
  shows "unat (ledger_current_budget m a now' ft) \<le>
    unat (ledger_current_budget m a now ft) + unat ft * (unat now' - unat now)"
proof (cases "now = now'")
  case False
  then have "unat now < unat now'" using assms
    by (simp add: word_le_nat_alt word_unat_eq_iff)
  then obtain d where "unat now' - unat now = Suc d" by (metis Suc_diff_Suc)
  then show ?thesis using assms
    by (auto simp: ledger_current_budget_def normalise_def max_def word_le_nat_alt word_less_nat_alt)
qed simp

section \<open>What an admission does\<close>

definition charge :: "BudgetGate \<Rightarrow> SignedActionBudgetView \<Rightarrow> u64" where
  "charge g v =
     (if signer v = BRIDGE_ACTOR then 0 else wsat_add (action_cost (policy g)) (refund_extra (kind v)))"

fun credit :: "u64 \<Rightarrow> ActionBudgetKind \<Rightarrow> u64 \<Rightarrow> u64" where
  "credit who (DepositWithFee rcpt grant) a = (if a = rcpt then grant else 0)"
| "credit who (TopUpActionBudget res pool gas incr) a = (if a = who then incr else 0)"
| "credit who (TopUpActionBudgetFor rcpt res pool gas incr) a = (if a = rcpt then incr else 0)"
| "credit who _ a = 0"

lemma wsat_add_0 [simp]: "wsat_add a 0 = (a :: 'a::len word)"
  by (simp add: wsat_add_def wchecked_add_def)

lemma apply_credit_budget:
  "ledger_current_budget (apply_credit m who now ft k) a now ft =
     wsat_add (ledger_current_budget m a now ft) (credit who k a)"
  by (cases k) (auto simp: top_up_in_place_budget)

lemma evaluate_cases:
  obtains (guard) rej where "evaluate_guards g (signer v) (kind v) = Some rej" "evaluate g v = Inl rej"
  | (poor) "evaluate_guards g (signer v) (kind v) = None" "evaluate g v = Inl InsufficientBudget"
      "gate_current_budget g (signer v) < charge g v"
  | (ok) m' where "evaluate_guards g (signer v) (kind v) = None" "evaluate g v = Inr m'"
      "charge g v \<le> gate_current_budget g (signer v)"
      "\<And>a. ledger_current_budget m' a (effective_epoch g) (free_tier (policy g)) =
         wsat_add (gate_current_budget g a - (if a = signer v then charge g v else 0))
           (credit (signer v) (kind v) a)"
proof (cases "evaluate_guards g (signer v) (kind v)")
  case None
  note defs = evaluate_def Let_def None charge_def gate_current_budget_def
  show ?thesis
  proof (cases "signer v = BRIDGE_ACTOR")
    case True
    then show ?thesis using None
      by (intro ok) (auto simp: defs apply_credit_budget)
  next
    case False
    from consume_in_place_cases [of "ledger g" "signer v" "effective_epoch g" "free_tier (policy g)"
        "charge g v"]
    show ?thesis
    proof (elim disjE exE conjE, goal_cases)
      case 1
      then show ?thesis using False None by (intro poor) (auto simp: defs)
    next
      case (2 m')
      then show ?thesis using False None by (intro ok) (auto simp: defs apply_credit_budget)
    qed
  qed
qed (auto intro: guard simp: evaluate_def Let_def)

section \<open>Runs of the gate\<close>

text \<open>
  \<open>gate_run\<close> offers a sequence of actions to the gate; \<open>spent\<close> and \<open>credited\<close> are what the admitted
  ones charged to and credited to one actor, \<open>admissions\<close> counts the charged ones.
\<close>

fun gate_run :: "BudgetGate \<Rightarrow> SignedActionBudgetView list \<Rightarrow> BudgetGate" where
  "gate_run g [] = g"
| "gate_run g (v # vs) = gate_run (snd (admit g v)) vs"

fun spent :: "BudgetGate \<Rightarrow> SignedActionBudgetView list \<Rightarrow> u64 \<Rightarrow> nat" where
  "spent g [] a = 0"
| "spent g (v # vs) a =
     (if isl (fst (admit g v)) \<or> signer v \<noteq> a then 0 else unat (charge g v)) +
     spent (snd (admit g v)) vs a"

fun credited :: "BudgetGate \<Rightarrow> SignedActionBudgetView list \<Rightarrow> u64 \<Rightarrow> nat" where
  "credited g [] a = 0"
| "credited g (v # vs) a =
     (if isl (fst (admit g v)) then 0 else unat (credit (signer v) (kind v) a)) +
     credited (snd (admit g v)) vs a"

fun admissions :: "BudgetGate \<Rightarrow> SignedActionBudgetView list \<Rightarrow> u64 \<Rightarrow> nat" where
  "admissions g [] a = 0"
| "admissions g (v # vs) a =
     (if isl (fst (admit g v)) \<or> signer v \<noteq> a then 0 else 1) + admissions (snd (admit g v)) vs a"

lemma wchecked_div_mono:
  "(a :: u64) \<le> b \<Longrightarrow> unat (case wchecked_div a n of Some q \<Rightarrow> q | None \<Rightarrow> 0) \<le>
     unat (case wchecked_div b n of Some q \<Rightarrow> q | None \<Rightarrow> 0)"
  by (simp add: wchecked_div_def word_le_nat_alt unat_div div_le_mono)

lemma effective_epoch_mono: "effective_epoch g \<le> effective_epoch (g\<lparr>ledger := m, admitted := wsat_add (admitted g) 1\<rparr>)"
  using wchecked_div_mono [OF le_wsat_add [of "admitted g" 1], of "epoch_length g"]
  by (auto simp: effective_epoch_def word_le_nat_alt unat_wsat_add)

lemma admit_policy [simp]: "policy (snd (admit g v)) = policy g"
  by (simp add: admit_def split: sum.splits)

lemma admit_epoch_mono: "effective_epoch g \<le> effective_epoch (snd (admit g v))"
  by (auto simp: admit_def effective_epoch_mono split: sum.splits)

lemma gate_run_policy [simp]: "policy (gate_run g vs) = policy g"
  by (induction g vs rule: gate_run.induct) auto

lemma gate_run_epoch_mono: "effective_epoch g \<le> effective_epoch (gate_run g vs)"
proof (induction g vs rule: gate_run.induct)
  case (2 g v vs)
  then show ?case using admit_epoch_mono [of g v] by (auto intro: order_trans)
qed simp

lemma admit_account:
  "unat (gate_current_budget (snd (admit g v)) a) +
     (if isl (fst (admit g v)) \<or> signer v \<noteq> a then 0 else unat (charge g v)) \<le>
   unat (gate_current_budget g a) +
     (if isl (fst (admit g v)) then 0 else unat (credit (signer v) (kind v) a)) +
     unat (free_tier (policy g)) * (unat (effective_epoch (snd (admit g v))) - unat (effective_epoch g))"
proof (cases rule: evaluate_cases [of g v])
  case (ok m')
  let ?g' = "g\<lparr>ledger := m', admitted := wsat_add (admitted g) 1\<rparr>"
  have adm: "admit g v = (Inr (), ?g')" using ok by (simp add: admit_def)
  have "unat (gate_current_budget ?g' a) \<le>
      unat (ledger_current_budget m' a (effective_epoch g) (free_tier (policy g))) +
      unat (free_tier (policy g)) * (unat (effective_epoch ?g') - unat (effective_epoch g))"
    using budget_epoch_growth [OF effective_epoch_mono] by (simp add: gate_current_budget_def)
  moreover have "unat (ledger_current_budget m' a (effective_epoch g) (free_tier (policy g))) +
      (if signer v \<noteq> a then 0 else unat (charge g v)) \<le>
      unat (gate_current_budget g a) + unat (credit (signer v) (kind v) a)"
    using ok(3) by (auto simp: ok(4) unat_wsat_add unat_sub_nowrap word_le_nat_alt)
  ultimately show ?thesis by (simp add: adm)
qed (simp_all add: admit_def)

lemma admissions_le_spent:
  assumes "a \<noteq> BRIDGE_ACTOR"
  shows "admissions g vs a * unat (action_cost (policy g)) \<le> spent g vs a"
proof (induction vs arbitrary: g)
  case (Cons v vs)
  have "unat (action_cost (policy g)) \<le> unat (charge g v)" if "signer v = a"
    using that assms le_wsat_add by (simp add: charge_def word_le_nat_alt [symmetric])
  then show ?case using Cons [of "snd (admit g v)"] by (auto simp: add_mono)
qed simp

lemma gate_run_account:
  "unat (gate_current_budget (gate_run g vs) a) + spent g vs a \<le>
     unat (gate_current_budget g a) + credited g vs a +
     unat (free_tier (policy g)) * (unat (effective_epoch (gate_run g vs)) - unat (effective_epoch g))"
proof (induction g vs rule: gate_run.induct)
  case (2 g v vs)
  let ?g = "snd (admit g v)"
  have "effective_epoch g \<le> effective_epoch ?g" "effective_epoch ?g \<le> effective_epoch (gate_run ?g vs)"
    by (rule admit_epoch_mono gate_run_epoch_mono)+
  then have "unat (effective_epoch (gate_run ?g vs)) - unat (effective_epoch g) =
      (unat (effective_epoch (gate_run ?g vs)) - unat (effective_epoch ?g)) +
      (unat (effective_epoch ?g) - unat (effective_epoch g))"
    by (simp add: word_le_nat_alt)
  then show ?case using 2 admit_account [of g v a] by (simp add: algebra_simps)
qed simp

section \<open>Reachable gates\<close>

inductive gate_step :: "BudgetGate \<Rightarrow> BudgetGate \<Rightarrow> bool" where
  step_admit: "gate_step g (snd (admit g v))"
| step_balance: "gate_step g (set_balance g res a bal)"
| step_delegate: "gate_step g (allow_delegate g rcpt who)"

definition gate_inv :: "BudgetGate \<Rightarrow> bool" where
  "gate_inv g \<longleftrightarrow> bt_wf (ledger g) \<and>
     (\<forall>a. last_seen_epoch (cell_of (ledger g) a) \<le> effective_epoch g)"

lemma normalise_seen: "last_seen_epoch b \<le> now \<Longrightarrow> last_seen_epoch (normalise b now ft) \<le> now"
  by (simp add: normalise_def)

lemma seen_consume:
  assumes "consume_in_place m a now ft cost = (True, m')"
    and "\<forall>x. last_seen_epoch (cell_of m x) \<le> now" "bt_wf m"
  shows "bt_wf m' \<and> (\<forall>x. last_seen_epoch (cell_of m' x) \<le> now)"
  using assms
  by (auto simp: consume_in_place_def consume_budget(3) normalise_seen split: option.splits)

lemma seen_credit:
  assumes "\<forall>x. last_seen_epoch (cell_of m x) \<le> now" "bt_wf m"
  shows "bt_wf (apply_credit m who now ft k) \<and>
    (\<forall>x. last_seen_epoch (cell_of (apply_credit m who now ft k) x) \<le> now)"
  using assms
  by (cases k) (auto simp: top_up_in_place_def top_up_budget(2) normalise_seen)

lemma evaluate_seen:
  assumes "evaluate g v = Inr m'" "gate_inv g"
  shows "bt_wf m' \<and> (\<forall>x. last_seen_epoch (cell_of m' x) \<le> effective_epoch g)"
  using assms
  by (auto simp: evaluate_def Let_def gate_inv_def seen_credit dest!: seen_consume
      split: option.splits if_splits prod.splits bool.splits)

lemma gate_step_inv: "gate_step g g' \<Longrightarrow> gate_inv g \<Longrightarrow> gate_inv g' \<and> policy g' = policy g \<and>
    strict g' = strict g \<and> effective_epoch g \<le> effective_epoch g'"
proof (induction rule: gate_step.induct)
  case (step_admit g v)
  show ?case
  proof (cases "evaluate g v")
    case (Inr m')
    then show ?thesis
      using evaluate_seen [OF Inr step_admit] effective_epoch_mono [of g m']
      by (auto simp: admit_def gate_inv_def intro: order_trans)
  qed (use step_admit in \<open>simp add: admit_def\<close>)
qed (simp_all add: gate_inv_def set_balance_def allow_delegate_def effective_epoch_def)

section \<open>Properties\<close>

text \<open>
  C12: The gate decides every action by its guards and the signer's budget alone, and an admission
  moves budgets exactly as specified: the signer loses the action cost (plus the refunded units),
  the bridge actor pays nothing, the credited actor gains the grant (capped at the largest 64-bit
  value), every other actor's budget is unchanged.
\<close>

theorem evaluate_decides:
  "case evaluate g v of
     Inl rej \<Rightarrow> (if evaluate_guards g (signer v) (kind v) = None
       then rej = InsufficientBudget \<and> gate_current_budget g (signer v) < charge g v
       else evaluate_guards g (signer v) (kind v) = Some rej)
   | Inr m' \<Rightarrow> evaluate_guards g (signer v) (kind v) = None \<and>
       charge g v \<le> gate_current_budget g (signer v) \<and>
       (\<forall>a. ledger_current_budget m' a (effective_epoch g) (free_tier (policy g)) =
          wsat_add (gate_current_budget g a - (if a = signer v then charge g v else 0))
            (credit (signer v) (kind v) a))"
  by (cases rule: evaluate_cases [of g v]) simp_all

text \<open>
  C11: Budget is never created: over any sequence of offered actions, an actor's final budget plus
  everything it was charged is at most its initial budget plus everything it was credited plus one
  free tier per elapsed epoch.\<close>

theorem gate_run_conserves_budget:
  "unat (gate_current_budget (gate_run g vs) a) + spent g vs a \<le>
     unat (gate_current_budget g a) + credited g vs a +
     unat (free_tier (policy g)) * (unat (effective_epoch (gate_run g vs)) - unat (effective_epoch g))"
  by (rule gate_run_account)

text \<open>
  C22: The rate limit: an actor other than the bridge has at most (initial budget + credits + one
  free tier per elapsed epoch) / action cost of its offered actions admitted.
\<close>

theorem gate_rate_limit:
  assumes "a \<noteq> BRIDGE_ACTOR"
  shows "admissions g vs a * unat (action_cost (policy g)) \<le>
     unat (gate_current_budget g a) + credited g vs a +
     unat (free_tier (policy g)) * (unat (effective_epoch (gate_run g vs)) - unat (effective_epoch g))"
  using admissions_le_spent [OF assms, of g vs] gate_run_account [of g vs a] by simp

theorem gate_rate_limit_witness:
  "admissions (gate_new (mk_bounded 10 4 1)) [\<lparr>signer = 5, kind = Ordinary\<rparr>] 5 * 4 \<le> 10 \<and>
   admissions (gate_new (mk_bounded 10 4 1)) [\<lparr>signer = 5, kind = Ordinary\<rparr>] 5 = 1"
  using gate_rate_limit [of 5 "gate_new (mk_bounded 10 4 1)" "[\<lparr>signer = 5, kind = Ordinary\<rparr>]"]
  by (simp add: gate_new_def mk_bounded_def admit_def evaluate_def effective_epoch_def
      wchecked_div_def consume_in_place_def consume_def cell_of_def cell_empty_def normalise_def
      gate_current_budget_def ledger_current_budget_def BRIDGE_ACTOR_def Let_def max_def)


text \<open>
  Every gate reachable from a fresh one by admissions, balance updates and consents keeps its
  policy and mode, its ledger is a well-formed ordered map, no cell was touched in a later epoch than
  the effective one, and the effective epoch never goes back.
\<close>

theorem gate_reachable_inv:
  assumes "gate_step\<^sup>*\<^sup>* (with_epoch_length (gate_new p) n) g"
  shows "gate_inv g \<and> policy g = p \<and> \<not> strict g \<and>
    effective_epoch (with_epoch_length (gate_new p) n) \<le> effective_epoch g"
  using assms
proof (induction rule: rtranclp_induct)
  case base
  show ?case by (simp add: gate_inv_def with_epoch_length_def gate_new_def cell_of_def cell_empty_def)
next
  case (step g g')
  then show ?case using gate_step_inv [OF step(2)] by (auto intro: order_trans)
qed

theorem gate_reachable_inv_witness:
  "gate_inv (set_balance (with_epoch_length (gate_new (mk_bounded 10 4 1)) 100) 0 7 55)"
  using gate_reachable_inv [of "mk_bounded 10 4 1" 100] step_balance by blast

text \<open>
  C18: A strict gate admits only actions the signer can pay for: a top-up is covered by the signer's
  gas balance, goes to the canonical pool and resource and stays below the ceiling; a delegated
  top-up has the recipient's consent; a refund's exact product of units and rate, without any
  wrap-around, is covered by the pool; a fee deposit comes from the bridge.
\<close>

theorem strict_admission_sound:
  assumes "strict g" and "fst (admit g v) = Inr ()"
  shows "case kind v of
      TopUpActionBudget res pool gas incr \<Rightarrow>
        signer v \<noteq> BRIDGE_ACTOR \<and> pool = GAS_POOL_ACTOR \<and> signer v \<noteq> pool \<and> res \<in> {0, 1} \<and>
        incr \<le> MAX_TOPUP_BUDGET_PER_ACTION \<and> gas \<noteq> 0 \<and> gas \<le> balance_of g res (signer v)
    | TopUpActionBudgetFor rcpt res pool gas incr \<Rightarrow>
        signer v \<noteq> BRIDGE_ACTOR \<and> pool = GAS_POOL_ACTOR \<and> signer v \<noteq> pool \<and> res \<in> {0, 1} \<and>
        incr \<le> MAX_TOPUP_BUDGET_PER_ACTION \<and> gas \<noteq> 0 \<and> gas \<le> balance_of g res (signer v) \<and>
        rcpt \<noteq> signer v \<and> (rcpt, signer v) \<in> consent g
    | ClaimBudgetRefund res pool units wei \<Rightarrow>
        signer v \<noteq> BRIDGE_ACTOR \<and> signer v \<noteq> pool \<and> res \<in> {0, 1} \<and> units \<noteq> 0 \<and> wei \<noteq> 0 \<and>
        unat units * unat wei \<le> unat (balance_of g res pool)
    | DepositWithFee rcpt grant \<Rightarrow> signer v = BRIDGE_ACTOR
    | Ordinary \<Rightarrow> True"
proof -
  have "evaluate_guards g (signer v) (kind v) = None"
    using assms(2) by (cases rule: evaluate_cases [of g v]) (simp_all add: admit_def)
  then show ?thesis using assms(1)
    by (cases "kind v")
      (auto simp: wchecked_mul_Some unat_ucast_up word_less_nat_alt word_le_nat_alt
        split: if_splits option.splits)
qed

theorem strict_admission_sound_witness:
  "\<exists>g v. strict g \<and> fst (admit g v) = Inr () \<and> (7, signer v) \<in> consent g"
proof -
  let ?g = "allow_delegate (set_balance (with_strict_checks (gate_new (mk_bounded 10 4 1))) 0 5 90) 7 5"
  let ?v = "\<lparr>signer = 5, kind = TopUpActionBudgetFor 7 0 1 80 30\<rparr>"
  have "strict ?g" "fst (admit ?g ?v) = Inr ()"
    by (simp_all add: gate_new_def with_strict_checks_def set_balance_def allow_delegate_def
        mk_bounded_def admit_def evaluate_def effective_epoch_def balance_of_def
        wchecked_div_def consume_in_place_def consume_def cell_of_def cell_empty_def normalise_def
        BRIDGE_ACTOR_def GAS_POOL_ACTOR_def MAX_TOPUP_BUDGET_PER_ACTION_def Let_def max_def)
  then show ?thesis using strict_admission_sound [of ?g ?v] by fastforce
qed

text \<open>
  The refund product can exceed 256 bits, because the rate is a full 256-bit amount: such a refund
  is rejected by a strict gate.
\<close>

lemma refund_product_overflow:
  "wchecked_mul (ucast (2 :: u64)) (push_bit 255 1 :: u256) = None"
  by (simp add: wchecked_mul_def)

end
