(* ===== verification/L1_Action.thy ===== *)
theory L1_Action
  imports Cbe_Wire
begin

text \<open>
  Actions and their canonical encoding as the L1 ingestor produces them:
  \<open>src/runtime/knomosis-l1-ingest/src/action.rs\<close> (\<open>EthAddress\<close>, \<open>PublicKey\<close>, \<open>Action\<close>, \<open>tag\<close>) and
  \<open>encoding.rs\<close> (the item encoders, \<open>encode_action\<close>, \<open>signing_input\<close>, \<open>encode_signed_action\<close>).
\<close>

type_synonym ActorId = u64
type_synonym ResourceId = u64
type_synonym Nonce = u128
type_synonym LogIndex = u64
type_synonym DepositId = u64
type_synonym EthAddress = bytes
type_synonym PublicKey = bytes

definition eth_zero :: EthAddress where
  "eth_zero = replicate 20 0"

definition eth_from_bytes :: "bytes \<Rightarrow> EthAddress option" where
  "eth_from_bytes bs = (if length bs \<noteq> 20 then None else Some bs)"

datatype Action =
    Transfer ResourceId ActorId ActorId u256
  | Mint ResourceId ActorId u256
  | Burn ResourceId ActorId u256
  | FreezeResource ResourceId
  | ReplaceKey ActorId PublicKey
  | Reward ResourceId ActorId u256
  | DistributeOthers ResourceId ActorId u256
  | ProportionalDilute ResourceId ActorId u256
  | DisputeWithdraw LogIndex
  | Rollback LogIndex
  | RegisterIdentity ActorId PublicKey
  | Deposit ResourceId ActorId u256 DepositId
  | Withdraw ResourceId ActorId u256 EthAddress
  | RevokeLocalPolicy
  | FaultProofChallenge bytes LogIndex LogIndex bytes
  | FaultProofResolution bytes u128 ActorId LogIndex
  | DepositWithFee ResourceId ActorId ActorId u256 u256 u64 DepositId u256
  | TopUpActionBudget ResourceId u256 u64 ActorId
  | TopUpActionBudgetFor ActorId ResourceId u256 u64 ActorId
  | ClaimBudgetRefund ResourceId u64 u256 ActorId
  | ReclaimAmmReserves ResourceId u256 ActorId ActorId
  | ReserveSwap ResourceId ResourceId ActorId u256 u256 ActorId

fun action_tag :: "Action \<Rightarrow> u64" where
  "action_tag (Transfer _ _ _ _) = 0"
| "action_tag (Mint _ _ _) = 1"
| "action_tag (Burn _ _ _) = 2"
| "action_tag (FreezeResource _) = 3"
| "action_tag (ReplaceKey _ _) = 4"
| "action_tag (Reward _ _ _) = 5"
| "action_tag (DistributeOthers _ _ _) = 6"
| "action_tag (ProportionalDilute _ _ _) = 7"
| "action_tag (DisputeWithdraw _) = 9"
| "action_tag (Rollback _) = 11"
| "action_tag (RegisterIdentity _ _) = 12"
| "action_tag (Deposit _ _ _ _) = 13"
| "action_tag (Withdraw _ _ _ _) = 14"
| "action_tag RevokeLocalPolicy = 16"
| "action_tag (FaultProofChallenge _ _ _ _) = 17"
| "action_tag (FaultProofResolution _ _ _ _) = 18"
| "action_tag (DepositWithFee _ _ _ _ _ _ _ _) = 19"
| "action_tag (TopUpActionBudget _ _ _ _) = 20"
| "action_tag (TopUpActionBudgetFor _ _ _ _ _) = 21"
| "action_tag (ClaimBudgetRefund _ _ _ _) = 22"
| "action_tag (ReclaimAmmReserves _ _ _ _) = 24"
| "action_tag (ReserveSwap _ _ _ _ _ _) = 25"

section \<open>Encoders\<close>

datatype EncodeError = FieldExceedsBound u128 | LengthExceedsBound usize

definition write_head :: "bytes \<Rightarrow> u8 \<Rightarrow> u64 \<Rightarrow> bytes" where
  "write_head out t n = (out @ [t]) @ to_le n"

definition encode_amount :: "u256 \<Rightarrow> bytes" where
  "encode_amount v = [0x06] @ to_le v"

definition encode_u64 :: "u64 \<Rightarrow> bytes" where
  "encode_u64 v = write_head [] 0x00 v"

definition encode_u128_checked :: "u128 \<Rightarrow> bytes option" where
  "encode_u128_checked v = (if 2 ^ 64 \<le> v then None else Some (encode_u64 (ucast v)))"

definition encode_bytes_checked :: "bytes \<Rightarrow> bytes option" where
  "encode_bytes_checked bs =
     (if length bs < 2 ^ 64 then Some (write_head [] 0x02 (of_nat (length bs)) @ bs) else None)"

definition encode_nonce :: "Nonce \<Rightarrow> EncodeError + bytes" where
  "encode_nonce n = ok_or (encode_u128_checked n) (FieldExceedsBound n)"

definition encode_byte_string :: "bytes \<Rightarrow> EncodeError + bytes" where
  "encode_byte_string bs = ok_or (encode_bytes_checked bs) (LengthExceedsBound (length bs))"

fun encode_fields :: "Action \<Rightarrow> EncodeError + bytes" where
  "encode_fields (Transfer r sender receiver amount) =
     Inr (encode_u64 r @ encode_u64 sender @ encode_u64 receiver @ encode_amount amount)"
| "encode_fields (Mint r to amount) = Inr (encode_u64 r @ encode_u64 to @ encode_amount amount)"
| "encode_fields (Reward r to amount) = Inr (encode_u64 r @ encode_u64 to @ encode_amount amount)"
| "encode_fields (Burn r from amount) = Inr (encode_u64 r @ encode_u64 from @ encode_amount amount)"
| "encode_fields (FreezeResource r) = Inr (encode_u64 r)"
| "encode_fields (ReplaceKey actor key) =
     res_bind (encode_byte_string key) (\<lambda>k. Inr (encode_u64 actor @ k))"
| "encode_fields (DistributeOthers r excluded amount) =
     Inr (encode_u64 r @ encode_u64 excluded @ encode_amount amount)"
| "encode_fields (ProportionalDilute r excluded reward) =
     Inr (encode_u64 r @ encode_u64 excluded @ encode_amount reward)"
| "encode_fields (DisputeWithdraw idx) = Inr (encode_u64 idx)"
| "encode_fields (Rollback idx) = Inr (encode_u64 idx)"
| "encode_fields (RegisterIdentity actor pk) =
     res_bind (encode_byte_string pk) (\<lambda>k. Inr (encode_u64 actor @ k))"
| "encode_fields (Deposit r rcpt amount d) =
     Inr (encode_u64 r @ encode_u64 rcpt @ encode_amount amount @ encode_u64 d)"
| "encode_fields (Withdraw r sender amount l1) =
     res_bind (encode_byte_string l1) (\<lambda>a.
     Inr (encode_u64 r @ encode_u64 sender @ encode_amount amount @ a))"
| "encode_fields RevokeLocalPolicy = Inr []"
| "encode_fields (FaultProofChallenge h s e c) =
     res_bind (encode_byte_string h) (\<lambda>h'. res_bind (encode_byte_string c) (\<lambda>c'.
     Inr (h' @ encode_u64 s @ encode_u64 e @ c')))"
| "encode_fields (FaultProofResolution h game winner idx) =
     res_bind (encode_byte_string h) (\<lambda>h'.
     res_bind (ok_or (encode_u128_checked game) (FieldExceedsBound game)) (\<lambda>g.
     Inr (h' @ g @ encode_u64 winner @ encode_u64 idx)))"
| "encode_fields (DepositWithFee r rcpt pool user poolamt grant d seed) =
     Inr (encode_u64 r @ encode_u64 rcpt @ encode_u64 pool @ encode_amount user @
       encode_amount poolamt @ encode_u64 grant @ encode_u64 d @ encode_amount seed)"
| "encode_fields (TopUpActionBudget res gas incr pool) =
     Inr (encode_u64 res @ encode_amount gas @ encode_u64 incr @ encode_u64 pool)"
| "encode_fields (TopUpActionBudgetFor rcpt res gas incr pool) =
     Inr (encode_u64 rcpt @ encode_u64 res @ encode_amount gas @ encode_u64 incr @ encode_u64 pool)"
| "encode_fields (ClaimBudgetRefund res units wei pool) =
     Inr (encode_u64 res @ encode_u64 units @ encode_amount wei @ encode_u64 pool)"
| "encode_fields (ReclaimAmmReserves r amount reserve pool) =
     Inr (encode_u64 r @ encode_amount amount @ encode_u64 reserve @ encode_u64 pool)"
| "encode_fields (ReserveSwap from to user ain minout reserve) =
     Inr (encode_u64 from @ encode_u64 to @ encode_u64 user @ encode_amount ain @
       encode_amount minout @ encode_u64 reserve)"

definition encode_action :: "Action \<Rightarrow> EncodeError + bytes" where
  "encode_action a = res_bind (encode_fields a) (\<lambda>fs. Inr (encode_u64 (action_tag a) @ fs))"

definition SIGNED_ACTION_DOMAIN :: bytes where
  "SIGNED_ACTION_DOMAIN = map of_char ''legalkernel/v1/signedaction''"

definition signing_input :: "Action \<Rightarrow> u64 \<Rightarrow> u128 \<Rightarrow> bytes \<Rightarrow> EncodeError + bytes" where
  "signing_input a signer nonce deployment_id =
     res_bind (encode_byte_string SIGNED_ACTION_DOMAIN) (\<lambda>dom.
     res_bind (encode_byte_string deployment_id) (\<lambda>dep.
     res_bind (encode_action a) (\<lambda>act.
     res_bind (encode_nonce nonce) (\<lambda>n.
     Inr (dom @ dep @ act @ encode_u64 signer @ n)))))"

definition encode_signed_action :: "Action \<Rightarrow> u64 \<Rightarrow> u128 \<Rightarrow> bytes \<Rightarrow> EncodeError + bytes" where
  "encode_signed_action a signer nonce sig =
     res_bind (encode_action a) (\<lambda>act.
     res_bind (encode_nonce nonce) (\<lambda>n.
     res_bind (encode_byte_string sig) (\<lambda>s.
     Inr (act @ encode_u64 signer @ n @ s))))"

section \<open>The encoding as a list of fields\<close>

fun action_fields :: "Action \<Rightarrow> wfield list" where
  "action_fields (Transfer r sender receiver amount) =
     [FUint r, FUint sender, FUint receiver, FAmount amount]"
| "action_fields (Mint r to amount) = [FUint r, FUint to, FAmount amount]"
| "action_fields (Burn r from amount) = [FUint r, FUint from, FAmount amount]"
| "action_fields (FreezeResource r) = [FUint r]"
| "action_fields (ReplaceKey actor key) = [FUint actor, FBytes key]"
| "action_fields (Reward r to amount) = [FUint r, FUint to, FAmount amount]"
| "action_fields (DistributeOthers r excluded amount) = [FUint r, FUint excluded, FAmount amount]"
| "action_fields (ProportionalDilute r excluded reward) = [FUint r, FUint excluded, FAmount reward]"
| "action_fields (DisputeWithdraw idx) = [FUint idx]"
| "action_fields (Rollback idx) = [FUint idx]"
| "action_fields (RegisterIdentity actor pk) = [FUint actor, FBytes pk]"
| "action_fields (Deposit r rcpt amount d) = [FUint r, FUint rcpt, FAmount amount, FUint d]"
| "action_fields (Withdraw r sender amount l1) = [FUint r, FUint sender, FAmount amount, FBytes l1]"
| "action_fields RevokeLocalPolicy = []"
| "action_fields (FaultProofChallenge h s e c) = [FBytes h, FUint s, FUint e, FBytes c]"
| "action_fields (FaultProofResolution h game winner idx) =
     [FBytes h, FUint (ucast game), FUint winner, FUint idx]"
| "action_fields (DepositWithFee r rcpt pool user poolamt grant d seed) =
     [FUint r, FUint rcpt, FUint pool, FAmount user, FAmount poolamt, FUint grant, FUint d,
      FAmount seed]"
| "action_fields (TopUpActionBudget res gas incr pool) =
     [FUint res, FAmount gas, FUint incr, FUint pool]"
| "action_fields (TopUpActionBudgetFor rcpt res gas incr pool) =
     [FUint rcpt, FUint res, FAmount gas, FUint incr, FUint pool]"
| "action_fields (ClaimBudgetRefund res units wei pool) =
     [FUint res, FUint units, FAmount wei, FUint pool]"
| "action_fields (ReclaimAmmReserves r amount reserve pool) =
     [FUint r, FAmount amount, FUint reserve, FUint pool]"
| "action_fields (ReserveSwap from to user ain minout reserve) =
     [FUint from, FUint to, FUint user, FAmount ain, FAmount minout, FUint reserve]"

fun action_ok :: "Action \<Rightarrow> bool" where
  "action_ok (FaultProofResolution h game winner idx) \<longleftrightarrow> length h < 2 ^ 64 \<and> unat game < 2 ^ 64"
| "action_ok a \<longleftrightarrow> list_all field_ok (action_fields a)"

lemma encode_items [simp]:
  "encode_u64 v = cbe_uint v" "encode_amount a = cbe_amount a"
  by (simp_all add: encode_u64_def encode_amount_def cbe_uint_def cbe_amount_def write_head_def)

lemma encode_u128_checked_eq:
  "encode_u128_checked v = (if unat v < 2 ^ 64 then Some (cbe_uint (ucast v)) else None)"
  by (simp add: encode_u128_checked_def word_le_nat_alt)

lemma encode_byte_string_eq:
  "encode_byte_string bs =
     (if length bs < 2 ^ 64 then Inr (cbe_bytes bs) else Inl (LengthExceedsBound (length bs)))"
  by (simp add: encode_byte_string_def encode_bytes_checked_def cbe_bytes_def write_head_def)

lemma encode_fields_Inr:
  "encode_fields a = Inr fs \<longleftrightarrow> action_ok a \<and> fs = wire (action_fields a)"
  by (cases a) (auto simp: encode_byte_string_eq encode_u128_checked_eq)

lemma action_fields_ok: "action_ok a \<Longrightarrow> list_all field_ok (action_fields a)"
  by (cases a) simp_all

lemma encode_action_Inr:
  "encode_action a = Inr bs \<longleftrightarrow>
     action_ok a \<and> bs = wire (FUint (action_tag a) # action_fields a)"
  by (auto simp: encode_action_def res_bind_Inr_iff encode_fields_Inr)

lemma encode_nonce_Inr:
  "encode_nonce n = Inr bs \<longleftrightarrow> unat n < 2 ^ 64 \<and> bs = cbe_uint (ucast n)"
  by (auto simp: encode_nonce_def encode_u128_checked_eq)

lemma encode_signed_action_Inr:
  "encode_signed_action a signer nonce sig = Inr bs \<longleftrightarrow>
     action_ok a \<and> unat nonce < 2 ^ 64 \<and> length sig < 2 ^ 64 \<and>
     bs = wire (FUint (action_tag a) # action_fields a @ [FUint signer, FUint (ucast nonce), FBytes sig])"
  by (auto simp: encode_signed_action_def res_bind_Inr_iff encode_action_Inr encode_nonce_Inr
      encode_byte_string_eq split: if_splits)

lemma signing_input_Inr:
  "signing_input a signer nonce dep = Inr bs \<longleftrightarrow>
     action_ok a \<and> unat nonce < 2 ^ 64 \<and> length dep < 2 ^ 64 \<and>
     bs = wire ([FBytes SIGNED_ACTION_DOMAIN, FBytes dep, FUint (action_tag a)] @ action_fields a @
       [FUint signer, FUint (ucast nonce)])"
proof -
  have "length SIGNED_ACTION_DOMAIN < 2 ^ 64" by (simp add: SIGNED_ACTION_DOMAIN_def)
  then show ?thesis
    by (auto simp: signing_input_def res_bind_Inr_iff encode_action_Inr encode_nonce_Inr
        encode_byte_string_eq split: if_splits)
qed

section \<open>The encoding is injective\<close>

lemma action_tag_shape:
  "action_tag a = action_tag b \<Longrightarrow>
     map (wshape_of \<circ> field_val) (action_fields a) = map (wshape_of \<circ> field_val) (action_fields b)"
  by (cases a; cases b) simp_all

lemma ucast_u64_inj: "unat (m :: u128) < 2 ^ 64 \<Longrightarrow> unat n < 2 ^ 64 \<Longrightarrow>
    (ucast m :: u64) = ucast n \<longleftrightarrow> m = n"
  by (simp add: word_unat_eq_iff unsigned_ucast_eq take_bit_nat_eq_self)

lemma action_fields_inj:
  "action_ok a \<Longrightarrow> action_ok b \<Longrightarrow> action_tag a = action_tag b \<Longrightarrow>
     action_fields a = action_fields b \<Longrightarrow> a = b"
  by (cases a; cases b) (simp_all add: ucast_u64_inj)

lemma action_wire_inj:
  assumes "action_ok a" "action_ok b"
  shows "wire (FUint (action_tag a) # action_fields a) @ r =
      wire (FUint (action_tag b) # action_fields b) @ s \<longleftrightarrow> a = b \<and> r = s"
  using assms action_fields_inj [OF assms] action_tag_shape [of a b]
    wire_inj [of "action_fields a" "action_fields b" r s]
  by (auto simp: action_fields_ok)

section \<open>Properties\<close>

text \<open>
  C10: What is signed determines what was meant: if two signing inputs agree, then the action, the
  signer, the nonce and the deployment they were built from agree. So no signature made for one
  action, actor, nonce or deployment is valid for another.
\<close>

theorem signing_input_injective:
  assumes "signing_input a s n d = Inr bs" and "signing_input a' s' n' d' = Inr bs"
  shows "a = a' \<and> s = s' \<and> n = n' \<and> d = d'"
proof -
  note i = assms [unfolded signing_input_Inr]
  let ?w = "\<lambda>a s n. wire (FUint (action_tag a) # action_fields a) @ wire [FUint s, FUint (ucast n)]"
  have "cbe_bytes d @ ?w a s n = cbe_bytes d' @ ?w a' s' n'" using i by simp
  then have "d = d'" "?w a s n = ?w a' s' n'" using i by (simp_all only: cbe_bytes_inj)
  moreover from this(2) have "a = a'" "wire [FUint s, FUint (ucast n)] = wire [FUint s', FUint (ucast n')]"
    using i by (simp_all only: action_wire_inj)
  ultimately show ?thesis using i by (simp add: ucast_u64_inj)
qed

theorem signing_input_injective_witness:
  "\<exists>bs. signing_input (Deposit 0 5 9 3) 0 2 [1] = Inr bs \<and>
     signing_input (Deposit 0 5 9 3) 0 2 [2] \<noteq> Inr bs"
proof -
  obtain bs where bs: "signing_input (Deposit 0 5 9 3) 0 2 [1] = Inr bs"
    by (auto simp: signing_input_Inr)
  then show ?thesis using signing_input_injective [OF bs, of "Deposit 0 5 9 3" 0 2 "[2]"] by auto
qed

text \<open>
  C21: An encoded signed action determines the action, signer, nonce and signature, even with
  arbitrary bytes appended, so concatenated submissions parse in one way only.
\<close>

theorem encode_signed_action_prefix_free:
  assumes "encode_signed_action a s n sig = Inr bs" and "encode_signed_action a' s' n' sig' = Inr bs'"
    and "bs @ r = bs' @ r'"
  shows "a = a' \<and> s = s' \<and> n = n' \<and> sig = sig' \<and> r = r'"
proof -
  note i = assms(1,2) [unfolded encode_signed_action_Inr]
  let ?t = "\<lambda>s n sig r. wire [FUint s, FUint (ucast n), FBytes sig] @ r"
  have "wire (FUint (action_tag a) # action_fields a) @ ?t s n sig r =
      wire (FUint (action_tag a') # action_fields a') @ ?t s' n' sig' r'"
    using i assms(3) by simp
  then have "a = a'" "?t s n sig r = ?t s' n' sig' r'" using i by (simp_all only: action_wire_inj)
  then show ?thesis using i by (simp add: ucast_u64_inj cbe_bytes_inj)
qed

theorem encode_signed_action_prefix_free_witness:
  "\<exists>bs. encode_signed_action (Mint 0 5 9) 0 2 [7] = Inr bs \<and>
     (\<forall>r'. bs @ [4] = bs @ r' \<longrightarrow> [4] = r')"
proof -
  obtain bs where bs: "encode_signed_action (Mint 0 5 9) 0 2 [7] = Inr bs"
    by (auto simp: encode_signed_action_Inr)
  then show ?thesis
    using encode_signed_action_prefix_free [OF bs bs, of "[4]"] by blast
qed

end
