(* ===== verification/L1_Events.thy ===== *)
theory L1_Events
  imports L1_Action
begin

text \<open>
  \<open>src/runtime/knomosis-l1-ingest/src/events.rs\<close>: the typed events of the L1 contracts, and the ABI
  decoder that turns a raw log record into one. Topics and ABI slots are 32-byte lists.
\<close>

section \<open>Topics\<close>

type_synonym TopicHash = bytes

definition REGISTERED_ECDSA_TOPIC :: TopicHash where
  "REGISTERED_ECDSA_TOPIC =
    [0xce, 0x31, 0xc5, 0x0c, 0x89, 0x2e, 0x89, 0x43, 0x2f, 0x74, 0x80, 0x0e, 0x82, 0x6e, 0x0b, 0xb0,
     0x76, 0xfe, 0x2a, 0x8b, 0x7d, 0xc9, 0x4c, 0xdc, 0xb4, 0x00, 0x48, 0x03, 0xab, 0x13, 0x71, 0x91]"

definition REGISTERED_EIP1271_TOPIC :: TopicHash where
  "REGISTERED_EIP1271_TOPIC =
    [0x29, 0xd3, 0x16, 0xd1, 0xee, 0xe1, 0x86, 0x06, 0x1e, 0x97, 0x88, 0x0a, 0xfb, 0xfe, 0xb6, 0xc0,
     0xbc, 0x62, 0x7f, 0x65, 0x15, 0x8f, 0xea, 0x15, 0x61, 0x80, 0x3e, 0x2a, 0xf9, 0xbd, 0xe7, 0x06]"

definition REVOKED_TOPIC :: TopicHash where
  "REVOKED_TOPIC =
    [0xb6, 0xfa, 0x8b, 0x8b, 0xd5, 0xea, 0xb6, 0x0f, 0x29, 0x2e, 0xca, 0x87, 0x6e, 0x3e, 0xf9, 0x07,
     0x22, 0x27, 0x5b, 0x78, 0x53, 0x09, 0xd8, 0x4b, 0x1d, 0xe1, 0x13, 0xce, 0x0b, 0x8c, 0x4e, 0x74]"

definition DEPOSIT_INITIATED_TOPIC :: TopicHash where
  "DEPOSIT_INITIATED_TOPIC =
    [0x54, 0x2e, 0xae, 0x02, 0xf9, 0x02, 0xaf, 0xae, 0xe0, 0x5e, 0x2d, 0x3c, 0xdf, 0x00, 0x47, 0x79,
     0x6b, 0xba, 0xee, 0x70, 0xb5, 0x15, 0xc2, 0x23, 0x06, 0x8b, 0x38, 0x59, 0xa4, 0x15, 0x85, 0xe9]"

definition DEPOSIT_WITH_FEE_INITIATED_TOPIC :: TopicHash where
  "DEPOSIT_WITH_FEE_INITIATED_TOPIC =
    [0xdf, 0xfb, 0x20, 0x55, 0xd2, 0x79, 0x87, 0x3f, 0xcf, 0x95, 0x36, 0x0d, 0x6f, 0x94, 0xb9, 0x25,
     0x76, 0x4a, 0xc7, 0x8f, 0x9a, 0xe2, 0xa0, 0xef, 0xbb, 0x6f, 0x3c, 0xfa, 0xe0, 0xe4, 0xc8, 0xf5]"

definition AMM_DISABLED_TOPIC :: TopicHash where
  "AMM_DISABLED_TOPIC =
    [0xdd, 0xbc, 0x5c, 0xd6, 0x90, 0x78, 0xde, 0x41, 0xf6, 0xb8, 0xac, 0x3a, 0x31, 0x9e, 0x19, 0x2a,
     0x1a, 0x8c, 0xf7, 0xf0, 0xe0, 0xc7, 0x34, 0x23, 0xb6, 0x47, 0xab, 0x54, 0x80, 0x99, 0xb9, 0xfb]"

record RawLog =
  log_address :: EthAddress
  topics :: "TopicHash list"
  data :: bytes
  block_number :: u64
  tx_hash :: TopicHash
  log_index :: u64

datatype EventTopic =
    TRegisteredEcdsa
  | TRegisteredEip1271
  | TRevoked
  | TDepositInitiated
  | TDepositWithFeeInitiated
  | TAmmDisabled

fun topic_hash :: "EventTopic \<Rightarrow> TopicHash" where
  "topic_hash TRegisteredEcdsa = REGISTERED_ECDSA_TOPIC"
| "topic_hash TRegisteredEip1271 = REGISTERED_EIP1271_TOPIC"
| "topic_hash TRevoked = REVOKED_TOPIC"
| "topic_hash TDepositInitiated = DEPOSIT_INITIATED_TOPIC"
| "topic_hash TDepositWithFeeInitiated = DEPOSIT_WITH_FEE_INITIATED_TOPIC"
| "topic_hash TAmmDisabled = AMM_DISABLED_TOPIC"

definition topic_from_hash :: "TopicHash \<Rightarrow> EventTopic option" where
  "topic_from_hash h = List.find (\<lambda>t. topic_hash t = h)
     [TRegisteredEcdsa, TRegisteredEip1271, TRevoked, TDepositInitiated, TDepositWithFeeInitiated,
      TAmmDisabled]"

section \<open>Events\<close>

text \<open>
  The last three fields of every variant are the block number, transaction hash and log index of the
  log record.
\<close>

datatype IngestedEvent =
    RegisteredEcdsa (actor: EthAddress) (pubkey: bytes) u64 TopicHash u64
  | RegisteredEip1271 (actor: EthAddress) (contract_signer: EthAddress) u64 TopicHash u64
  | Revoked (actor: EthAddress) u64 TopicHash u64
  | DepositInitiated (depositor: EthAddress) (resource_id: u64) (token: EthAddress) (amount: bytes)
      (depositor_nonce: u64) (receipt_hash: TopicHash) u64 TopicHash u64
  | DepositWithFeeInitiated (sender: EthAddress) (resource_id: u64) (token: EthAddress)
      (user_amount: bytes) (pool_amount: bytes) (amm_seed_amount: bytes) (budget_grant: u64)
      (depositor_nonce: u64) (receipt_hash: TopicHash) u64 TopicHash u64
  | AmmDisabled (timestamp: bytes) u64 TopicHash u64

fun origin_key :: "IngestedEvent \<Rightarrow> u64 \<times> TopicHash \<times> u64" where
  "origin_key (RegisteredEcdsa _ _ b t l) = (b, t, l)"
| "origin_key (RegisteredEip1271 _ _ b t l) = (b, t, l)"
| "origin_key (Revoked _ b t l) = (b, t, l)"
| "origin_key (DepositInitiated _ _ _ _ _ _ b t l) = (b, t, l)"
| "origin_key (DepositWithFeeInitiated _ _ _ _ _ _ _ _ _ b t l) = (b, t, l)"
| "origin_key (AmmDisabled _ b t l) = (b, t, l)"

datatype DecodeError =
    NoTopics
  | InvalidAddress string
  | TopicCountMismatch string usize usize
  | OffsetOutOfRange usize usize
  | LengthOverflow usize usize
  | UnexpectedEnd usize usize
  | Uint64Overflow usize

section \<open>ABI decoding\<close>

definition decode_abi_u64 :: "bytes \<Rightarrow> usize \<Rightarrow> DecodeError + u64" where
  "decode_abi_u64 slot offset =
     (if list_ex (\<lambda>b. b \<noteq> 0) (take 24 slot) then Inl (Uint64Overflow offset)
      else Inr (from_be (drop 24 slot)))"

definition decode_abi_address :: "bytes \<Rightarrow> string \<Rightarrow> DecodeError + EthAddress" where
  "decode_abi_address slot location =
     (if list_ex (\<lambda>b. b \<noteq> 0) (take 12 slot) then Inl (InvalidAddress location)
      else Inr (drop 12 slot))"

definition read_slot :: "bytes \<Rightarrow> usize \<Rightarrow> DecodeError + bytes" where
  "read_slot dat offset =
     (case usize_checked_add offset 32 of
        None \<Rightarrow> Inl (LengthOverflow 32 offset)
      | Some e \<Rightarrow>
          if length dat < e then Inl (UnexpectedEnd offset (e - length dat))
          else Inr (take 32 (drop offset dat)))"

definition decode_abi_bytes :: "bytes \<Rightarrow> usize \<Rightarrow> DecodeError + bytes" where
  "decode_abi_bytes dat offset_pos =
     res_bind (read_slot dat offset_pos) (\<lambda>header.
     if list_ex (\<lambda>b. b \<noteq> 0) (take 24 header) then Inl (OffsetOutOfRange usize_max (length dat))
     else let tail_offset = unat (from_be (drop 24 header) :: u64) in
     if length dat < tail_offset then Inl (OffsetOutOfRange tail_offset (length dat))
     else res_bind (read_slot dat tail_offset) (\<lambda>length_slot.
     if list_ex (\<lambda>b. b \<noteq> 0) (take 24 length_slot) then Inl (LengthOverflow usize_max tail_offset)
     else let len = unat (from_be (drop 24 length_slot) :: u64) in
     case usize_checked_add tail_offset 32 of
       None \<Rightarrow> Inl (LengthOverflow len tail_offset)
     | Some payload_start \<Rightarrow>
     (case usize_checked_add payload_start len of
        None \<Rightarrow> Inl (LengthOverflow len payload_start)
      | Some payload_end \<Rightarrow>
          if length dat < payload_end
          then Inl (UnexpectedEnd payload_start (payload_end - length dat))
          else Inr (take (payload_end - payload_start) (drop payload_start dat)))))"

definition decode_event :: "RawLog \<Rightarrow> DecodeError + IngestedEvent option" where
  "decode_event log =
     (case topics log of
        [] \<Rightarrow> Inl NoTopics
      | topic0 # _ \<Rightarrow>
     (case topic_from_hash topic0 of
        None \<Rightarrow> Inr None
      | Some TRegisteredEcdsa \<Rightarrow>
          if length (topics log) \<noteq> 2
          then Inl (TopicCountMismatch ''RegisteredECDSA'' 2 (length (topics log)))
          else
            res_bind (decode_abi_address (topics log ! 1) ''topic 1'') (\<lambda>a.
            res_bind (decode_abi_bytes (data log) 0) (\<lambda>pk.
            Inr (Some (RegisteredEcdsa a pk (block_number log) (tx_hash log) (log_index log)))))
      | Some TRegisteredEip1271 \<Rightarrow>
          if length (topics log) \<noteq> 2
          then Inl (TopicCountMismatch ''RegisteredEIP1271'' 2 (length (topics log)))
          else
            res_bind (decode_abi_address (topics log ! 1) ''topic 1'') (\<lambda>a.
            res_bind (read_slot (data log) 0) (\<lambda>slot.
            res_bind (decode_abi_address slot ''data offset 0'') (\<lambda>cs.
            Inr (Some (RegisteredEip1271 a cs (block_number log) (tx_hash log) (log_index log))))))
      | Some TRevoked \<Rightarrow>
          if length (topics log) \<noteq> 2
          then Inl (TopicCountMismatch ''Revoked'' 2 (length (topics log)))
          else
            res_bind (decode_abi_address (topics log ! 1) ''topic 1'') (\<lambda>a.
            Inr (Some (Revoked a (block_number log) (tx_hash log) (log_index log))))
      | Some TDepositInitiated \<Rightarrow>
          if length (topics log) \<noteq> 3
          then Inl (TopicCountMismatch ''DepositInitiated'' 3 (length (topics log)))
          else
            res_bind (decode_abi_address (topics log ! 1) ''topic 1'') (\<lambda>dep.
            res_bind (decode_abi_u64 (topics log ! 2) 0) (\<lambda>r.
            res_bind (read_slot (data log) 0) (\<lambda>token_slot.
            res_bind (decode_abi_address token_slot ''data offset 0 (token)'') (\<lambda>tok.
            res_bind (read_slot (data log) 32) (\<lambda>amt.
            res_bind (read_slot (data log) 64) (\<lambda>nonce_slot.
            res_bind (decode_abi_u64 nonce_slot 64) (\<lambda>n.
            res_bind (read_slot (data log) 96) (\<lambda>receipt.
            Inr (Some (DepositInitiated dep r tok amt n receipt
              (block_number log) (tx_hash log) (log_index log)))))))))))
      | Some TDepositWithFeeInitiated \<Rightarrow>
          if length (topics log) \<noteq> 4
          then Inl (TopicCountMismatch ''DepositWithFeeInitiated'' 4 (length (topics log)))
          else
            res_bind (decode_abi_address (topics log ! 1) ''topic 1'') (\<lambda>src.
            res_bind (decode_abi_u64 (topics log ! 2) 0) (\<lambda>r.
            res_bind (decode_abi_address (topics log ! 3) ''topic 3 (token)'') (\<lambda>tok.
            res_bind (read_slot (data log) 0) (\<lambda>user.
            res_bind (read_slot (data log) 32) (\<lambda>pool.
            res_bind (read_slot (data log) 64) (\<lambda>seed.
            res_bind (read_slot (data log) 96) (\<lambda>grant_slot.
            res_bind (decode_abi_u64 grant_slot 96) (\<lambda>grant.
            res_bind (read_slot (data log) 128) (\<lambda>nonce_slot.
            res_bind (decode_abi_u64 nonce_slot 128) (\<lambda>n.
            res_bind (read_slot (data log) 160) (\<lambda>receipt.
            Inr (Some (DepositWithFeeInitiated src r tok user pool seed grant n receipt
              (block_number log) (tx_hash log) (log_index log))))))))))))))
      | Some TAmmDisabled \<Rightarrow>
          if length (topics log) \<noteq> 1
          then Inl (TopicCountMismatch ''AmmDisabled'' 1 (length (topics log)))
          else
            res_bind (read_slot (data log) 0) (\<lambda>ts.
            Inr (Some (AmmDisabled ts (block_number log) (tx_hash log) (log_index log))))))"

section \<open>The ABI layout\<close>

text \<open>
  The layout the contracts emit, independently of the decoder: padded words for addresses and 64-bit
  integers, one word per field, indexed fields as topics.
\<close>

definition abi_u64 :: "u64 \<Rightarrow> bytes" where
  "abi_u64 v = replicate 24 0 @ to_be v"

definition abi_address :: "EthAddress \<Rightarrow> bytes" where
  "abi_address a = replicate 12 0 @ a"

fun abi_topics :: "IngestedEvent \<Rightarrow> TopicHash list" where
  "abi_topics (RegisteredEcdsa a pk b t l) = [REGISTERED_ECDSA_TOPIC, abi_address a]"
| "abi_topics (RegisteredEip1271 a cs b t l) = [REGISTERED_EIP1271_TOPIC, abi_address a]"
| "abi_topics (Revoked a b t l) = [REVOKED_TOPIC, abi_address a]"
| "abi_topics (DepositInitiated dep r tok amt n rc b t l) =
     [DEPOSIT_INITIATED_TOPIC, abi_address dep, abi_u64 r]"
| "abi_topics (DepositWithFeeInitiated src r tok ua pa seed g n rc b t l) =
     [DEPOSIT_WITH_FEE_INITIATED_TOPIC, abi_address src, abi_u64 r, abi_address tok]"
| "abi_topics (AmmDisabled ts b t l) = [AMM_DISABLED_TOPIC]"

fun abi_data :: "IngestedEvent \<Rightarrow> bytes" where
  "abi_data (RegisteredEcdsa a pk b t l) = abi_u64 32 @ abi_u64 (of_nat (length pk)) @ pk"
| "abi_data (RegisteredEip1271 a cs b t l) = abi_address cs"
| "abi_data (Revoked a b t l) = []"
| "abi_data (DepositInitiated dep r tok amt n rc b t l) = abi_address tok @ amt @ abi_u64 n @ rc"
| "abi_data (DepositWithFeeInitiated src r tok ua pa seed g n rc b t l) =
     ua @ pa @ seed @ abi_u64 g @ abi_u64 n @ rc"
| "abi_data (AmmDisabled ts b t l) = ts"

fun event_wf :: "IngestedEvent \<Rightarrow> bool" where
  "event_wf (RegisteredEcdsa a pk b t l) \<longleftrightarrow> length a = 20"
| "event_wf (RegisteredEip1271 a cs b t l) \<longleftrightarrow> length a = 20 \<and> length cs = 20"
| "event_wf (Revoked a b t l) \<longleftrightarrow> length a = 20"
| "event_wf (DepositInitiated dep r tok amt n rc b t l) \<longleftrightarrow>
     length dep = 20 \<and> length tok = 20 \<and> length amt = 32 \<and> length rc = 32"
| "event_wf (DepositWithFeeInitiated src r tok ua pa seed g n rc b t l) \<longleftrightarrow>
     length src = 20 \<and> length tok = 20 \<and> length ua = 32 \<and> length pa = 32 \<and> length seed = 32 \<and>
     length rc = 32"
| "event_wf (AmmDisabled ts b t l) \<longleftrightarrow> length ts = 32"

text \<open>
  The data of a log that carries an event: its words, with anything behind them.  A key is a dynamic value: the
  first word is the offset of its length word, wherever that lies, and the key follows that word.
\<close>

fun abi_image :: "IngestedEvent \<Rightarrow> bytes \<Rightarrow> bool" where
  "abi_image (RegisteredEcdsa a pk b t l) dat \<longleftrightarrow>
     (\<exists>off x y. dat = abi_u64 off @ x \<and> drop (unat off) dat = abi_u64 (of_nat (length pk)) @ pk @ y)"
| "abi_image e dat \<longleftrightarrow> (\<exists>x. dat = abi_data e @ x)"

definition log_ok :: "RawLog \<Rightarrow> bool" where
  "log_ok log \<longleftrightarrow> list_all (\<lambda>t. length t = 32) (topics log) \<and> length (data log) \<le> isize_max"

lemma length_abi [simp]: "length (abi_u64 v) = 32" "length (abi_address a) = 12 + length a"
  by (simp_all add: abi_u64_def abi_address_def)

lemma zero_prefix:
  assumes "n \<le> length slot"
  shows "\<not> list_ex (\<lambda>b. b \<noteq> 0) (take n slot) \<longleftrightarrow> slot = replicate n 0 @ drop n (slot :: bytes)"
proof -
  have "\<not> list_ex (\<lambda>b. b \<noteq> 0) (take n slot) \<longleftrightarrow> take n slot = replicate n 0"
    using assms replicate_length_same [of "take n slot" 0] by (auto simp: list_ex_iff in_set_replicate)
  then show ?thesis by (metis append_same_eq append_take_drop_id)
qed

lemma decode_abi_u64_Inr:
  assumes "length slot = 32"
  shows "decode_abi_u64 slot off = Inr v \<longleftrightarrow> slot = abi_u64 v"
proof -
  have "drop 24 slot = to_be v \<longleftrightarrow> from_be (drop 24 slot) = v"
    using be64.enc_dec [of "drop 24 slot"] assms by (auto simp: be64.dec_enc)
  then show ?thesis using zero_prefix [of 24 slot] assms
    by (auto simp: decode_abi_u64_def abi_u64_def)
qed

lemma decode_abi_address_Inr:
  assumes "length slot = 32"
  shows "decode_abi_address slot loc = Inr a \<longleftrightarrow> length a = 20 \<and> slot = abi_address a"
  using zero_prefix [of 12 slot] assms by (auto simp: decode_abi_address_def abi_address_def)

lemma read_slot_Inr:
  assumes "length dat \<le> isize_max" "off \<le> 512"
  shows "read_slot dat off = Inr s \<longleftrightarrow> off + 32 \<le> length dat \<and> s = take 32 (drop off dat)"
  using assms by (auto simp: read_slot_def usize_checked_add_def usize_max_def)

lemma topic_hash_inj: "topic_hash t = topic_hash u \<longleftrightarrow> t = u"
  by (cases t; cases u) (simp_all add: REGISTERED_ECDSA_TOPIC_def REGISTERED_EIP1271_TOPIC_def
      REVOKED_TOPIC_def DEPOSIT_INITIATED_TOPIC_def DEPOSIT_WITH_FEE_INITIATED_TOPIC_def
      AMM_DISABLED_TOPIC_def)

lemma topic_from_hash_iff: "topic_from_hash h = Some t \<longleftrightarrow> h = topic_hash t"
proof
  assume "topic_from_hash h = Some t"
  then show "h = topic_hash t" unfolding topic_from_hash_def find_Some_iff by auto
next
  assume "h = topic_hash t"
  then show "topic_from_hash h = Some t"
    by (cases t) (simp_all add: topic_from_hash_def topic_hash_inj del: topic_hash.simps)
qed

fun topic_of :: "IngestedEvent \<Rightarrow> EventTopic" where
  "topic_of (RegisteredEcdsa _ _ _ _ _) = TRegisteredEcdsa"
| "topic_of (RegisteredEip1271 _ _ _ _ _) = TRegisteredEip1271"
| "topic_of (Revoked _ _ _ _) = TRevoked"
| "topic_of (DepositInitiated _ _ _ _ _ _ _ _ _) = TDepositInitiated"
| "topic_of (DepositWithFeeInitiated _ _ _ _ _ _ _ _ _ _ _ _) = TDepositWithFeeInitiated"
| "topic_of (AmmDisabled _ _ _ _) = TAmmDisabled"

lemma abi_topics_hd: "\<exists>ts. abi_topics e = topic_hash (topic_of e) # ts"
  by (cases e) simp_all

lemma decode_event_topic:
  assumes "decode_event log = Inr (Some e)"
  shows "\<exists>ts. topics log = topic_hash (topic_of e) # ts"
proof -
  obtain t0 ts where t: "topics log = t0 # ts"
    using assms by (auto simp: decode_event_def split: list.splits)
  then obtain k where "topic_from_hash t0 = Some k"
    using assms by (auto simp: decode_event_def split: option.splits)
  moreover from this have "topic_of e = k"
    using assms t
    by (cases k) (auto simp: decode_event_def res_bind_Inr_iff split: if_splits)
  ultimately show ?thesis using t by (simp add: topic_from_hash_iff)
qed

lemma topic_from_hash_hash: "topic_from_hash (topic_hash t) = Some t"
  by (simp add: topic_from_hash_iff)

lemmas topic_from_hash_consts [simp] =
  topic_from_hash_hash [of TRegisteredEcdsa, simplified]
  topic_from_hash_hash [of TRegisteredEip1271, simplified]
  topic_from_hash_hash [of TRevoked, simplified]
  topic_from_hash_hash [of TDepositInitiated, simplified]
  topic_from_hash_hash [of TDepositWithFeeInitiated, simplified]
  topic_from_hash_hash [of TAmmDisabled, simplified]

lemma len_conv:
  "length ts = Suc 0 \<longleftrightarrow> (\<exists>a. ts = [a])"
  "length ts = 2 \<longleftrightarrow> (\<exists>a b. ts = [a, b])"
  "length ts = 3 \<longleftrightarrow> (\<exists>a b c. ts = [a, b, c])"
  by (auto simp: length_Suc_conv numeral_eq_Suc)

lemma slots_iff:
  fixes dat :: bytes
  assumes "\<forall>w \<in> set ws. length w = 32"
  shows "(\<exists>x. dat = concat ws @ x) \<longleftrightarrow>
    32 * length ws \<le> length dat \<and> (\<forall>i < length ws. ws ! i = take 32 (drop (32 * i) dat))"
  using assms
proof (induction ws arbitrary: dat)
  case (Cons w ws)
  have w: "length w = 32" using Cons.prems by simp
  have "(\<exists>x. dat = concat (w # ws) @ x) \<longleftrightarrow>
      32 \<le> length dat \<and> w = take 32 dat \<and> (\<exists>x. drop 32 dat = concat ws @ x)"
    using w by (auto simp: append_eq_conv_conj) (metis append_take_drop_id)
  also have "\<dots> \<longleftrightarrow> 32 \<le> length dat \<and> w = take 32 dat \<and> 32 * length ws \<le> length dat - 32 \<and>
      (\<forall>i < length ws. ws ! i = take 32 (drop (32 * Suc i) dat))"
    using Cons.IH [of "drop 32 dat"] Cons.prems by (simp add: add.commute)
  also have "\<dots> \<longleftrightarrow> 32 * length (w # ws) \<le> length dat \<and>
      (\<forall>i < length (w # ws). (w # ws) ! i = take 32 (drop (32 * i) dat))"
    by (auto simp: All_less_Suc2)
  finally show ?case .
qed simp

text \<open>The fields of a log with the right first topic, variant by variant.\<close>

text \<open>A dynamic value, wherever its offset points.\<close>

lemma read_slot_at:
  assumes "length dat \<le> isize_max" "off \<le> length dat"
  shows "read_slot dat off = Inr s \<longleftrightarrow> off + 32 \<le> length dat \<and> s = take 32 (drop off dat)"
  using assms by (auto simp: read_slot_def usize_checked_add_def usize_max_def isize_max_def)

lemma word_slot:
  assumes "length slot = 32"
  shows "(if list_ex (\<lambda>b. b \<noteq> 0) (take 24 slot) then Inl e else f (from_be (drop 24 slot) :: u64)) = Inr y \<longleftrightarrow>
    (\<exists>v. slot = abi_u64 v \<and> f v = Inr y)"
proof (cases "list_ex (\<lambda>b. b \<noteq> 0) (take 24 slot)")
  case True
  then have "slot \<noteq> abi_u64 v" for v using decode_abi_u64_Inr [OF assms, of 0 v] by (simp add: decode_abi_u64_def)
  then show ?thesis using True by simp
next
  case False
  then have "from_be (drop 24 slot) = v \<longleftrightarrow> slot = abi_u64 v" for v
    using decode_abi_u64_Inr [OF assms, of 0 v] by (simp add: decode_abi_u64_def)
  then show ?thesis using False by (metis (no_types, lifting))
qed

lemma decode_abi_bytes_words:
  assumes l: "length dat \<le> isize_max"
  shows "decode_abi_bytes dat 0 = Inr pk \<longleftrightarrow> 32 \<le> length dat \<and> (\<exists>off. take 32 dat = abi_u64 off \<and>
    unat off + 32 \<le> length dat \<and> (\<exists>len. take 32 (drop (unat off) dat) = abi_u64 len \<and>
      unat off + 32 + unat len \<le> length dat \<and> pk = take (unat len) (drop (unat off + 32) dat)))"
proof -
  define g where "g off len = (case usize_checked_add (unat off) 32 of None \<Rightarrow> Inl (LengthOverflow (unat len) (unat off))
     | Some payload_start \<Rightarrow> (case usize_checked_add payload_start (unat len) of
        None \<Rightarrow> Inl (LengthOverflow (unat len) payload_start)
      | Some payload_end \<Rightarrow> if length dat < payload_end then Inl (UnexpectedEnd payload_start (payload_end - length dat))
          else Inr (take (payload_end - payload_start) (drop payload_start dat))))" for off len :: u64
  define f where "f off = (if length dat < unat off then Inl (OffsetOutOfRange (unat off) (length dat))
     else res_bind (read_slot dat (unat off)) (\<lambda>s. if list_ex (\<lambda>b. b \<noteq> 0) (take 24 s) then Inl (LengthOverflow usize_max (unat off))
       else g off (from_be (drop 24 s))))" for off :: u64
  have g: "g off len = Inr pk \<longleftrightarrow> unat off + 32 + unat len \<le> length dat \<and> pk = take (unat len) (drop (unat off + 32) dat)" for off len
    using l by (auto simp: g_def usize_checked_add_def usize_max_def isize_max_def)
  have f: "f off = Inr pk \<longleftrightarrow> unat off + 32 \<le> length dat \<and>
      (\<exists>len. take 32 (drop (unat off) dat) = abi_u64 len \<and> g off len = Inr pk)" for off
    using read_slot_at [OF l, of "unat off"]
      word_slot [of "take 32 (drop (unat off) dat)" "LengthOverflow usize_max (unat off)" "g off" pk]
    by (cases "length dat < unat off"; cases "unat off + 32 \<le> length dat") (simp_all add: f_def res_bind_Inr_iff)
  have "decode_abi_bytes dat 0 = Inr pk \<longleftrightarrow> 32 \<le> length dat \<and> (\<exists>off. take 32 dat = abi_u64 off \<and> f off = Inr pk)"
  proof -
    have "decode_abi_bytes dat 0 = res_bind (read_slot dat 0) (\<lambda>s.
        if list_ex (\<lambda>b. b \<noteq> 0) (take 24 s) then Inl (OffsetOutOfRange usize_max (length dat)) else f (from_be (drop 24 s)))"
      unfolding decode_abi_bytes_def f_def g_def Let_def ..
    then show ?thesis
      using read_slot_at [OF l, of 0] word_slot [of "take 32 dat" "OffsetOutOfRange usize_max (length dat)" f pk]
      by (cases "32 \<le> length dat") (simp_all add: res_bind_Inr_iff)
  qed
  then show ?thesis unfolding f g .
qed

lemma decode_abi_bytes_iff:
  assumes l: "length dat \<le> isize_max"
  shows "decode_abi_bytes dat 0 = Inr pk \<longleftrightarrow>
    (\<exists>off x y. dat = abi_u64 off @ x \<and> drop (unat off) dat = abi_u64 (of_nat (length pk)) @ pk @ y)"
  unfolding decode_abi_bytes_words [OF l]
proof (intro iffI; elim conjE exE)
  fix off len :: u64
  assume a: "32 \<le> length dat" "take 32 dat = abi_u64 off" "unat off + 32 \<le> length dat"
    "take 32 (drop (unat off) dat) = abi_u64 len" "unat off + 32 + unat len \<le> length dat"
    "pk = take (unat len) (drop (unat off + 32) dat)"
  then have "of_nat (length pk) = len" by simp
  moreover have "drop (unat off) dat = take 32 (drop (unat off) dat) @ take (unat len) (drop (unat off + 32) dat) @
      drop (unat len) (drop (unat off + 32) dat)" by (metis add.commute append_take_drop_id drop_drop)
  ultimately have "drop (unat off) dat = abi_u64 (of_nat (length pk)) @ pk @ drop (unat len) (drop (unat off + 32) dat)"
    using a(4,6) by simp
  moreover have "dat = abi_u64 off @ drop 32 dat" using a(2) by (metis append_take_drop_id)
  ultimately show "\<exists>off x y. dat = abi_u64 off @ x \<and> drop (unat off) dat = abi_u64 (of_nat (length pk)) @ pk @ y" by blast
next
  fix off x y
  assume a: "dat = abi_u64 off @ x" "drop (unat off) dat = abi_u64 (of_nat (length pk)) @ pk @ y"
  have n: "length (drop (unat off) dat) = 32 + length pk + length y" unfolding a(2) by simp
  then have b: "unat off + 32 + length pk \<le> length dat" by simp
  then have u: "unat (of_nat (length pk) :: u64) = length pk" using l by (simp add: unat_of_nat isize_max_def)
  have "take 32 (drop (unat off) dat) = abi_u64 (of_nat (length pk))" using a(2) by simp
  moreover have "drop (unat off + 32) dat = pk @ y" using a(2) by (metis (no_types, lifting) add.commute append_eq_conv_conj drop_drop length_abi(1))
  moreover have "take 32 dat = abi_u64 off" "32 \<le> length dat" using a(1) by simp_all
  ultimately show "32 \<le> length dat \<and> (\<exists>off. take 32 dat = abi_u64 off \<and>
    unat off + 32 \<le> length dat \<and> (\<exists>len. take 32 (drop (unat off) dat) = abi_u64 len \<and>
      unat off + 32 + unat len \<le> length dat \<and> pk = take (unat len) (drop (unat off + 32) dat)))"
    using b u by (intro conjI exI [of _ off] exI [of _ "of_nat (length pk)"]) simp_all
qed

lemma decode_event_fields:
  assumes ok: "log_ok log" and t: "topics log = topic_hash (topic_of e) # ts"
  shows "decode_event log = Inr (Some e) \<longleftrightarrow>
    event_wf e \<and> topics log = abi_topics e \<and> abi_image e (data log) \<and>
    origin_key e = (block_number log, tx_hash log, log_index log)"
proof -
  have l: "length (data log) \<le> isize_max" and ts: "\<forall>t \<in> set ts. length t = 32"
    using ok t by (auto simp: log_ok_def list_all_iff)
  note rs = read_slot_Inr [OF l]
  note defs = decode_event_def res_bind_Inr_iff decode_abi_address_Inr decode_abi_u64_Inr rs len_conv
  show ?thesis
  proof (cases e)
    case (DepositWithFeeInitiated src r tok ua pa seed g n rc b th li)
    have "event_wf e \<Longrightarrow> abi_image e (data log) \<longleftrightarrow> 192 \<le> length (data log) \<and>
        ua = take 32 (data log) \<and> pa = take 32 (drop 32 (data log)) \<and>
        seed = take 32 (drop 64 (data log)) \<and> abi_u64 g = take 32 (drop 96 (data log)) \<and>
        abi_u64 n = take 32 (drop 128 (data log)) \<and> rc = take 32 (drop 160 (data log))"
      using slots_iff [of "[ua, pa, seed, abi_u64 g, abi_u64 n, rc]" "data log"] DepositWithFeeInitiated
      by (simp add: All_less_Suc2)
    then show ?thesis using t ts DepositWithFeeInitiated
      by (cases "\<exists>t1 t2 t3. ts = [t1, t2, t3]") (auto simp: defs)
  next
    case (DepositInitiated dep r tok amt n rc b th li)
    have "event_wf e \<Longrightarrow> abi_image e (data log) \<longleftrightarrow> 128 \<le> length (data log) \<and>
        abi_address tok = take 32 (data log) \<and> amt = take 32 (drop 32 (data log)) \<and>
        abi_u64 n = take 32 (drop 64 (data log)) \<and> rc = take 32 (drop 96 (data log))"
      using slots_iff [of "[abi_address tok, amt, abi_u64 n, rc]" "data log"] DepositInitiated
      by (simp add: All_less_Suc2)
    then show ?thesis using t ts DepositInitiated
      by (cases "\<exists>t1 t2. ts = [t1, t2]") (auto simp: defs)
  next
    case (RegisteredEip1271 a cs b th li)
    then show ?thesis using t ts slots_iff [of "[abi_address cs]" "data log"] by (auto simp: defs)
  next
    case (AmmDisabled tm b th li)
    then show ?thesis using t ts slots_iff [of "[tm]" "data log"] by (auto simp: defs)
  next
    case (Revoked a b th li)
    then show ?thesis using t ts by (auto simp: defs)
  next
    case (RegisteredEcdsa a pk b th li)
    then show ?thesis using t ts decode_abi_bytes_iff [OF l, of pk]
      by (cases "\<exists>t1. ts = [t1]") (auto simp: defs simp del: abi_data.simps)
  qed
qed

section \<open>Properties\<close>

text \<open>
  C14: The log decoder is exact: it returns an event precisely for the logs whose topics are that event's
  and whose data starts with its ABI words, and the event carries the log's origin.  A padded word
  with non-zero high bytes, a wrong topic count or short data never decodes to an event; bytes behind
  the words are ignored.  For the one event with a dynamic field, the registration of a key, the data
  is any in which the offset word leads to a length word followed by the key, at any offset, as the ABI allows.
\<close>

theorem decode_event_exact:
  assumes "log_ok log"
  shows "decode_event log = Inr (Some e) \<longleftrightarrow>
    event_wf e \<and> topics log = abi_topics e \<and> abi_image e (data log) \<and>
    origin_key e = (block_number log, tx_hash log, log_index log)"
  using decode_event_fields [OF assms] decode_event_topic [of log e] abi_topics_hd [of e]
  by metis

theorem decode_event_exact_witness:
  "decode_event \<lparr>log_address = eth_zero, topics = [REVOKED_TOPIC, abi_address eth_zero], data = [],
     block_number = 7, tx_hash = [], log_index = 1\<rparr> = Inr (Some (Revoked eth_zero 7 [] 1)) \<and>
   decode_event \<lparr>log_address = eth_zero, topics = [REGISTERED_ECDSA_TOPIC, abi_address eth_zero],
     data = abi_u64 32 @ abi_u64 2 @ [9, 8] @ [0], block_number = 7, tx_hash = [], log_index = 1\<rparr> =
   Inr (Some (RegisteredEcdsa eth_zero [9, 8] 7 [] 1))" (is "?r \<and> ?k")
proof
  show ?r by (rule decode_event_exact [THEN iffD2])
    (simp_all add: log_ok_def eth_zero_def REVOKED_TOPIC_def)
  have "abi_image (RegisteredEcdsa eth_zero [9, 8] 7 [] 1) (abi_u64 32 @ abi_u64 2 @ [9, 8] @ [0])"
    unfolding abi_image.simps by (intro exI [of _ 32] exI [of _ "abi_u64 2 @ [9, 8] @ [0]"] exI [of _ "[0]"]) simp
  then show ?k by (intro decode_event_exact [THEN iffD2])
    (simp_all add: log_ok_def eth_zero_def REGISTERED_ECDSA_TOPIC_def isize_max_def del: abi_image.simps)
qed

end
