(* ===== verification/L1_Translation.thy ===== *)
theory L1_Translation
  imports L1_Events BTree_Map
begin

text \<open>
  \<open>src/runtime/knomosis-l1-ingest/src/address_book.rs\<close> (the bijection between L1 addresses and actor
  ids, assigned from a monotone counter above the reserved ids) and \<open>translation.rs\<close> (from a decoded
  L1 event to the bridge action it stands for, previewed against the book and committed afterwards).
\<close>

section \<open>The address book\<close>

record AddressBook =
  forward :: "(EthAddress, ActorId) btree"
  reverse :: "(ActorId, EthAddress) btree"
  next_actor_id :: ActorId

definition BRIDGE_ACTOR_ID :: ActorId where
  "BRIDGE_ACTOR_ID = 0"

definition GAS_POOL_ACTOR_ID :: ActorId where
  "GAS_POOL_ACTOR_ID = 1"

definition SEQUENCER_ACTOR_ID :: ActorId where
  "SEQUENCER_ACTOR_ID = 2"

definition AMM_RESERVE_ACTOR_ID :: ActorId where
  "AMM_RESERVE_ACTOR_ID = 3"

definition INITIAL_NEXT_ACTOR_ID :: ActorId where
  "INITIAL_NEXT_ACTOR_ID = 4"

datatype AssignError = AssignOverflow

definition book_new :: AddressBook where
  "book_new = \<lparr>forward = [], reverse = [], next_actor_id = INITIAL_NEXT_ACTOR_ID\<rparr>"

definition lookup :: "AddressBook \<Rightarrow> EthAddress \<Rightarrow> ActorId option" where
  "lookup book addr = bt_get (forward book) addr"

definition lookup_reverse :: "AddressBook \<Rightarrow> ActorId \<Rightarrow> EthAddress option" where
  "lookup_reverse book i = bt_get (reverse book) i"

definition try_assign :: "AddressBook \<Rightarrow> EthAddress \<Rightarrow> (AssignError + ActorId \<times> bool) \<times> AddressBook" where
  "try_assign book addr =
     (case bt_get (forward book) addr of
        Some existing \<Rightarrow> (Inr (existing, False), book)
      | None \<Rightarrow>
          let fresh = next_actor_id book in
          (case wchecked_add fresh 1 of
             None \<Rightarrow> (Inl AssignOverflow, book)
           | Some nxt \<Rightarrow>
               (Inr (fresh, True),
                book\<lparr>forward := bt_insert addr fresh (forward book),
                     reverse := bt_insert fresh addr (reverse book),
                     next_actor_id := nxt\<rparr>)))"

definition assign :: "AddressBook \<Rightarrow> EthAddress \<Rightarrow> ((ActorId \<times> bool) \<times> AddressBook) rust" where
  "assign book addr =
     (case try_assign book addr of (Inl e, _) \<Rightarrow> Panic | (Inr r, book') \<Rightarrow> Val (r, book'))"

definition book_len :: "AddressBook \<Rightarrow> usize" where
  "book_len book = length (forward book)"

section \<open>Translation\<close>

record UnsignedAction =
  ua_action :: Action
  ua_signer :: ActorId
  ua_nonce :: Nonce

datatype Translated =
    NoAction
  | Emit UnsignedAction
  | EmitWithAssignment UnsignedAction EthAddress ActorId

definition bridge_action :: "Action \<Rightarrow> Nonce \<Rightarrow> UnsignedAction" where
  "bridge_action a nonce = \<lparr>ua_action = a, ua_signer = BRIDGE_ACTOR_ID, ua_nonce = nonce\<rparr>"

definition preview_registration :: "AddressBook \<Rightarrow> EthAddress \<Rightarrow> PublicKey \<Rightarrow> Nonce \<Rightarrow> Translated" where
  "preview_registration book addr pk nonce =
     (case lookup book addr of
        None \<Rightarrow>
          let fresh_id = next_actor_id book in
          EmitWithAssignment (bridge_action (RegisterIdentity fresh_id pk) nonce) addr fresh_id
      | Some existing_id \<Rightarrow> Emit (bridge_action (ReplaceKey existing_id pk) nonce))"

fun preview_ingest :: "AddressBook \<Rightarrow> IngestedEvent \<Rightarrow> Nonce \<Rightarrow> Translated" where
  "preview_ingest book (RegisteredEcdsa a pk _ _ _) nonce = preview_registration book a pk nonce"
| "preview_ingest book (RegisteredEip1271 a cs _ _ _) nonce = preview_registration book a cs nonce"
| "preview_ingest book (Revoked _ _ _ _) nonce = NoAction"
| "preview_ingest book (DepositInitiated _ _ _ _ _ _ _ _ _) nonce = NoAction"
| "preview_ingest book (DepositWithFeeInitiated _ _ _ _ _ _ _ _ _ _ _ _) nonce = NoAction"
| "preview_ingest book (AmmDisabled _ _ _ _) nonce = NoAction"

definition deposit_id_from_receipt :: "bytes \<Rightarrow> DepositId" where
  "deposit_id_from_receipt receipt = from_be (take 8 receipt)"

definition amount_from_be_bytes :: "bytes \<Rightarrow> u256" where
  "amount_from_be_bytes bs = from_be bs"

definition materialise_deposit_for ::
    "AddressBook \<Rightarrow> EthAddress \<Rightarrow> Nonce \<Rightarrow> (ActorId \<Rightarrow> Action) \<Rightarrow> Translated" where
  "materialise_deposit_for book dep nonce build =
     (case lookup book dep of
        Some existing_id \<Rightarrow> Emit (bridge_action (build existing_id) nonce)
      | None \<Rightarrow>
          let fresh_id = next_actor_id book in
          EmitWithAssignment (bridge_action (build fresh_id) nonce) dep fresh_id)"

fun preview_ingest_materialising :: "AddressBook \<Rightarrow> IngestedEvent \<Rightarrow> Nonce \<Rightarrow> Translated" where
  "preview_ingest_materialising book (DepositInitiated dep r tok amt n receipt _ _ _) nonce =
     (let amount = amount_from_be_bytes amt; deposit_id = deposit_id_from_receipt receipt in
      materialise_deposit_for book dep nonce (\<lambda>rcpt. Deposit r rcpt amount deposit_id))"
| "preview_ingest_materialising book
     (DepositWithFeeInitiated src r tok user pool seed grant n receipt _ _ _) nonce =
     (let user_amount = amount_from_be_bytes user; pool_amount = amount_from_be_bytes pool;
          seed_amount = amount_from_be_bytes seed; deposit_id = deposit_id_from_receipt receipt in
      materialise_deposit_for book src nonce (\<lambda>rcpt.
        DepositWithFee r rcpt GAS_POOL_ACTOR_ID user_amount pool_amount grant deposit_id seed_amount))"
| "preview_ingest_materialising book e nonce = preview_ingest book e nonce"

datatype CommitError = CommitOverflow | ExpectedIdMismatch ActorId ActorId

definition commit_assignment ::
    "AddressBook \<Rightarrow> EthAddress \<Rightarrow> ActorId \<Rightarrow> (CommitError + ActorId) \<times> AddressBook" where
  "commit_assignment book addr expected =
     (case try_assign book addr of
        (Inl AssignOverflow, book') \<Rightarrow> (Inl CommitOverflow, book')
      | (Inr (assigned, was_new), book') \<Rightarrow>
          if assigned \<noteq> expected then (Inl (ExpectedIdMismatch expected assigned), book')
          else (Inr assigned, book'))"

definition ingest :: "AddressBook \<Rightarrow> IngestedEvent \<Rightarrow> Nonce \<Rightarrow> (UnsignedAction option \<times> AddressBook) rust" where
  "ingest book e nonce =
     (case preview_ingest book e nonce of
        NoAction \<Rightarrow> Val (None, book)
      | Emit a \<Rightarrow> Val (Some a, book)
      | EmitWithAssignment a addr new_id \<Rightarrow>
          (case commit_assignment book addr new_id of
             (Inl _, _) \<Rightarrow> Panic
           | (Inr _, book') \<Rightarrow> Val (Some a, book')))"

section \<open>The book is a bijection\<close>

definition book_inv :: "AddressBook \<Rightarrow> bool" where
  "book_inv b \<longleftrightarrow> bt_wf (forward b) \<and> bt_wf (reverse b) \<and>
     (\<forall>a i. lookup b a = Some i \<longleftrightarrow> lookup_reverse b i = Some a) \<and>
     (\<forall>i. i \<in> bt_keys (reverse b) \<longleftrightarrow> INITIAL_NEXT_ACTOR_ID \<le> i \<and> i < next_actor_id b) \<and>
     INITIAL_NEXT_ACTOR_ID \<le> next_actor_id b \<and> book_len b + 4 = unat (next_actor_id b)"

lemma book_inv_new: "book_inv book_new"
  by (auto simp: book_inv_def book_new_def lookup_def lookup_reverse_def book_len_def
      INITIAL_NEXT_ACTOR_ID_def)

lemma u64_succ:
  fixes n :: u64
  assumes "wchecked_add n 1 = Some m"
  shows "i < m \<longleftrightarrow> i \<le> n" "n < m"
  using assms by (auto simp: wchecked_add_Some word_less_nat_alt word_le_nat_alt)

lemma try_assign_cases:
  obtains (known) i where "lookup b a = Some i" "try_assign b a = (Inr (i, False), b)"
  | (full) "lookup b a = None" "next_actor_id b = wmax" "try_assign b a = (Inl AssignOverflow, b)"
  | (fresh) m where "lookup b a = None" "wchecked_add (next_actor_id b) 1 = Some m"
      "try_assign b a = (Inr (next_actor_id b, True),
        b\<lparr>forward := bt_insert a (next_actor_id b) (forward b),
          reverse := bt_insert (next_actor_id b) a (reverse b), next_actor_id := m\<rparr>)"
proof (cases "lookup b a")
  case None
  show ?thesis
  proof (cases "wchecked_add (next_actor_id b) 1")
    case overflow: None
    then have "unat (next_actor_id b) = unat (wmax :: u64)"
      using unat_lt [of "next_actor_id b"] by (simp add: wchecked_add_None unat_wmax)
    then show ?thesis using None overflow
      by (intro full) (auto simp: try_assign_def lookup_def word_unat_eq_iff)
  next
    case (Some m)
    then show ?thesis using None by (intro fresh) (auto simp: try_assign_def lookup_def Let_def)
  qed
next
  case (Some i)
  then show ?thesis by (intro known) (auto simp: try_assign_def lookup_def)
qed

lemma try_assign_lookup:
  "lookup (snd (try_assign b a)) x =
     (if x = a \<and> lookup b a = None \<and> isl (fst (try_assign b a)) = False then Some (next_actor_id b)
      else lookup b x)"
  by (cases rule: try_assign_cases [of b a]) (auto simp: lookup_def)

lemma book_inv_fresh: "book_inv b \<Longrightarrow> lookup_reverse b (next_actor_id b) = None"
  by (auto simp: book_inv_def lookup_reverse_def bt_get_None_iff)

lemma book_inv_assign: "book_inv b \<Longrightarrow> book_inv (snd (try_assign b a))"
proof (cases rule: try_assign_cases [of b a])
  case (fresh m)
  assume inv: "book_inv b"
  have "i \<in> bt_keys (bt_insert (next_actor_id b) a (reverse b)) \<longleftrightarrow>
      INITIAL_NEXT_ACTOR_ID \<le> i \<and> i < m" for i
    using inv u64_succ [OF fresh(2)] by (auto simp: book_inv_def)
  moreover have "lookup b x \<noteq> Some (next_actor_id b)" for x
    using book_inv_fresh [OF inv] inv by (auto simp: book_inv_def)
  moreover have "lookup_reverse b i \<noteq> Some a" for i
    using inv fresh(1) by (auto simp: book_inv_def) (metis option.distinct(1))
  moreover have "length (bt_insert a (next_actor_id b) (forward b)) + 4 = unat m"
    using inv fresh(1) by (simp add: book_inv_def book_len_def lookup_def bt_len_insert
        bt_get_None_iff [symmetric] fresh(2) [unfolded wchecked_add_Some])
  ultimately show ?thesis
    using inv fresh u64_succ(2) [OF fresh(2)]
    by (auto simp: book_inv_def lookup_def lookup_reverse_def book_len_def intro: order_trans)
qed auto

fun book_run :: "AddressBook \<Rightarrow> EthAddress list \<Rightarrow> AddressBook" where
  "book_run b [] = b"
| "book_run b (a # as) = book_run (snd (try_assign b a)) as"

lemma book_run_inv: "book_inv b \<Longrightarrow> book_inv (book_run b as)"
  by (induction b as rule: book_run.induct) (auto simp: book_inv_assign)

lemma book_run_stable: "lookup b a = Some i \<Longrightarrow> lookup (book_run b as) a = Some i"
proof (induction b as rule: book_run.induct)
  case (2 b a' as)
  have "lookup (snd (try_assign b a')) a = Some i" using 2(2) by (auto simp: try_assign_lookup)
  then show ?case using 2 by simp
qed simp

section \<open>Properties\<close>

text \<open>
  C19: Whatever addresses are assigned in whatever order, the book is a bijection between the known
  addresses and the ids from 4 up to the counter: two addresses never share an id, the reserved ids
  of the bridge, pool, sequencer and reserve are never handed out, the entries number exactly the
  ids handed out, and no later assignment changes an earlier one.
\<close>

theorem book_bijective:
  "(lookup (book_run book_new as) a = Some i \<longleftrightarrow> lookup_reverse (book_run book_new as) i = Some a) \<and>
   ((\<exists>a. lookup (book_run book_new as) a = Some i) \<longleftrightarrow>
      AMM_RESERVE_ACTOR_ID < i \<and> i < next_actor_id (book_run book_new as)) \<and>
   book_len (book_run book_new as) + 4 = unat (next_actor_id (book_run book_new as)) \<and>
   (\<forall>bs. lookup (book_run book_new as) a \<noteq> None \<longrightarrow>
      lookup (book_run (book_run book_new as) bs) a = lookup (book_run book_new as) a)"
proof -
  let ?b = "book_run book_new as"
  have inv: "book_inv ?b" by (rule book_run_inv [OF book_inv_new])
  have "(\<exists>a. lookup ?b a = Some i) \<longleftrightarrow> i \<in> bt_keys (reverse ?b)"
    using inv bt_key_get [of i "reverse ?b"] bt_get_Some_key [of "reverse ?b" i]
    unfolding book_inv_def lookup_reverse_def by blast
  also have "\<dots> \<longleftrightarrow> AMM_RESERVE_ACTOR_ID < i \<and> i < next_actor_id ?b"
    using inv by (auto simp: book_inv_def INITIAL_NEXT_ACTOR_ID_def AMM_RESERVE_ACTOR_ID_def
        word_le_nat_alt word_less_nat_alt)
  finally have ids: "(\<exists>a. lookup ?b a = Some i) \<longleftrightarrow> AMM_RESERVE_ACTOR_ID < i \<and> i < next_actor_id ?b" .
  have "lookup ?b a \<noteq> None \<Longrightarrow> lookup (book_run ?b bs) a = lookup ?b a" for bs
    using book_run_stable [of ?b a] by fastforce
  then show ?thesis using inv ids unfolding book_inv_def by blast
qed

theorem book_bijective_witness:
  "lookup (book_run book_new [eth_zero]) eth_zero = Some 4 \<and>
   lookup_reverse (book_run book_new [eth_zero]) 4 = Some eth_zero"
  using book_bijective [of "[eth_zero]" eth_zero 4]
  by (simp add: book_new_def try_assign_def Let_def INITIAL_NEXT_ACTOR_ID_def wchecked_add_def lookup_def)

text \<open>
  Preview and commit agree: when a preview proposes a new id for an address, committing it to
  the same book succeeds with exactly that id (unless the 64-bit counter is exhausted), binds the
  address to it and keeps the book a bijection; committing against a book in which the address got
  another id in between is refused.
\<close>

theorem preview_then_commit:
  assumes "book_inv b" and "preview_ingest_materialising b e nonce = EmitWithAssignment ua addr i"
  shows "lookup b addr = None \<and> i = next_actor_id b \<and>
    (next_actor_id b \<noteq> wmax \<longrightarrow>
      (\<exists>b'. commit_assignment b addr i = (Inr i, b') \<and> lookup b' addr = Some i \<and> book_inv b')) \<and>
    (\<forall>b2 j. lookup b2 addr = Some j \<and> j \<noteq> i \<longrightarrow>
      commit_assignment b2 addr i = (Inl (ExpectedIdMismatch i j), b2))"
proof -
  have p: "lookup b addr = None" "i = next_actor_id b"
    using assms(2) by (cases e; auto simp: preview_registration_def materialise_deposit_for_def Let_def
        split: option.splits)+
  have "\<exists>b'. commit_assignment b addr i = (Inr i, b') \<and> lookup b' addr = Some i \<and> book_inv b'"
    if "next_actor_id b \<noteq> wmax"
    using p that book_inv_assign [OF assms(1), of addr] try_assign_lookup [of b addr addr]
    by (cases rule: try_assign_cases [of b addr]) (auto simp: commit_assignment_def)
  moreover have "commit_assignment b2 addr i = (Inl (ExpectedIdMismatch i j), b2)"
    if "lookup b2 addr = Some j" "j \<noteq> i" for b2 j
    using that by (cases rule: try_assign_cases [of b2 addr]) (auto simp: commit_assignment_def)
  ultimately show ?thesis using p by blast
qed

theorem preview_then_commit_witness:
  "\<exists>b'. commit_assignment book_new eth_zero 4 = (Inr 4, b') \<and> lookup b' eth_zero = Some 4"
  using preview_then_commit [OF book_inv_new, of "RegisteredEcdsa eth_zero [1] 0 [] 0" 0
      "bridge_action (RegisterIdentity 4 [1]) 0" eth_zero 4]
  by (auto simp: preview_registration_def Let_def lookup_def book_new_def INITIAL_NEXT_ACTOR_ID_def
      wmax_def)

end
