(* ===== verification/L1_Reorg.thy ===== *)
theory L1_Reorg
  imports Prelude
begin

text \<open>
  \<open>src/runtime/knomosis-l1-ingest/src/reorg.rs\<close>: the bounded window of recent block headers, which
  accepts the next block of the chain, rolls back to a common ancestor on a shallow reorganisation
  and refuses everything else. The \<open>VecDeque\<close> is a list, oldest block first.
\<close>

section \<open>The window\<close>

record BlockHeader =
  number :: u64
  hash :: bytes
  parent_hash :: bytes

datatype ReorgError = DeepReorg u64 u64 | OrphanedParent u64 | NonMonotone u64 u64

datatype AdvanceOutcome = Advanced | Reorged usize u64

record ReorgWindow =
  capacity :: usize
  buffer :: "BlockHeader list"

definition window_new :: "usize \<Rightarrow> ReorgWindow rust" where
  "window_new cap = (if cap > 0 then Val \<lparr>capacity = cap, buffer = []\<rparr> else Panic)"

definition window_clear :: "ReorgWindow \<Rightarrow> ReorgWindow" where
  "window_clear w = w\<lparr>buffer := []\<rparr>"

definition push_bounded :: "ReorgWindow \<Rightarrow> BlockHeader \<Rightarrow> ReorgWindow" where
  "push_bounded w h =
     w\<lparr>buffer := (if length (buffer w) = capacity w then tl (buffer w) else buffer w) @ [h]\<rparr>"

definition seed :: "ReorgWindow \<Rightarrow> BlockHeader list \<Rightarrow> ReorgWindow" where
  "seed w headers = foldl push_bounded (window_clear w) headers"

definition window_head :: "ReorgWindow \<Rightarrow> BlockHeader option" where
  "window_head w = (if buffer w = [] then None else Some (last (buffer w)))"

definition window_tail :: "ReorgWindow \<Rightarrow> BlockHeader option" where
  "window_tail w = (if buffer w = [] then None else Some (hd (buffer w)))"

definition contains_hash :: "ReorgWindow \<Rightarrow> bytes \<Rightarrow> bool" where
  "contains_hash w h = list_ex (\<lambda>b. hash b = h) (buffer w)"

text \<open>The walk-back: the index of the newest block that is the parent of the incoming one.\<close>

fun find_parent_rev :: "(usize \<times> BlockHeader) list \<Rightarrow> BlockHeader \<Rightarrow> usize option" where
  "find_parent_rev [] incoming = None"
| "find_parent_rev ((i, h) # hs) incoming =
     (if hash h = parent_hash incoming \<and> number h + 1 = number incoming then Some i
      else find_parent_rev hs incoming)"

definition find_parent :: "BlockHeader list \<Rightarrow> BlockHeader \<Rightarrow> usize option" where
  "find_parent hs incoming = find_parent_rev (rev (enumerate 0 hs)) incoming"

definition rewind :: "ReorgWindow \<Rightarrow> BlockHeader \<Rightarrow> (ReorgError + AdvanceOutcome) \<times> ReorgWindow" where
  "rewind w incoming =
     (case find_parent (buffer w) incoming of
        None \<Rightarrow> (Inl (OrphanedParent (number incoming)), w)
      | Some i \<Rightarrow>
          let dropped_count = length (buffer w) - (i + 1);
              dropped_from_number =
                (if i + 1 < length (buffer w) then number (buffer w ! (i + 1)) else number incoming)
          in (Inr (Reorged dropped_count dropped_from_number),
              w\<lparr>buffer := take (i + 1) (buffer w) @ [incoming]\<rparr>))"

definition advance :: "ReorgWindow \<Rightarrow> BlockHeader \<Rightarrow> (ReorgError + AdvanceOutcome) \<times> ReorgWindow" where
  "advance w incoming =
     (case window_head w of
        None \<Rightarrow> (Inr Advanced, w\<lparr>buffer := buffer w @ [incoming]\<rparr>)
      | Some lst \<Rightarrow>
          let window_floor = (case window_tail w of None \<Rightarrow> number lst | Some h \<Rightarrow> number h) in
          if number incoming \<le> window_floor then (Inl (DeepReorg (number incoming) window_floor), w)
          else if number incoming = number lst + 1 \<and> parent_hash incoming = hash lst
          then (Inr Advanced, push_bounded w incoming)
          else if number incoming \<le> number lst then rewind w incoming
          else if number lst + 1 < number incoming then (Inl (NonMonotone (number incoming) (number lst)), w)
          else rewind w incoming)"

section \<open>The window is a chain\<close>

text \<open>
  \<open>linked\<close>: each block carries the next number (without wrap-around) and the hash of its
  predecessor as parent hash.
\<close>

fun linked :: "BlockHeader list \<Rightarrow> bool" where
  "linked (a # b # hs) \<longleftrightarrow>
     unat (number b) = Suc (unat (number a)) \<and> parent_hash b = hash a \<and> linked (b # hs)"
| "linked _ \<longleftrightarrow> True"

definition window_inv :: "ReorgWindow \<Rightarrow> bool" where
  "window_inv w \<longleftrightarrow> linked (buffer w) \<and> length (buffer w) \<le> capacity w \<and> 0 < capacity w"

lemma linked_Cons:
  "linked (a # hs) \<longleftrightarrow> linked hs \<and>
     (hs \<noteq> [] \<longrightarrow> unat (number (hd hs)) = Suc (unat (number a)) \<and> parent_hash (hd hs) = hash a)"
  by (cases hs) auto

lemma linked_append:
  "linked (xs @ ys) \<longleftrightarrow> linked xs \<and> linked ys \<and>
     (xs \<noteq> [] \<and> ys \<noteq> [] \<longrightarrow>
       unat (number (hd ys)) = Suc (unat (number (last xs))) \<and> parent_hash (hd ys) = hash (last xs))"
  by (induction xs) (auto simp: linked_Cons)

lemma linked_number:
  "linked hs \<Longrightarrow> i < length hs \<Longrightarrow> unat (number (hs ! i)) = unat (number (hd hs)) + i"
proof (induction hs arbitrary: i)
  case (Cons h hs)
  show ?case
  proof (cases i)
    case (Suc j)
    then have "hs \<noteq> []" using Cons.prems by auto
    then show ?thesis using Cons Suc by (simp add: linked_Cons)
  qed simp
qed simp

lemma linked_last: "linked hs \<Longrightarrow> hs \<noteq> [] \<Longrightarrow>
    Suc (unat (number (last hs))) = unat (number (hd hs)) + length hs"
  using linked_number [of hs "length hs - 1"] by (simp add: last_conv_nth)

lemma linked_tl: "linked hs \<Longrightarrow> linked (tl hs)"
  by (cases hs) (auto simp: linked_Cons)

lemma find_parent_rev_Some:
  "find_parent_rev ihs inc = Some i \<Longrightarrow>
     \<exists>h. (i, h) \<in> set ihs \<and> hash h = parent_hash inc \<and> number h + 1 = number inc"
  by (induction ihs inc rule: find_parent_rev.induct) (auto split: if_splits)

lemma find_parent_rev_None:
  "find_parent_rev ihs inc = None \<longleftrightarrow>
     (\<forall>(i, h) \<in> set ihs. \<not> (hash h = parent_hash inc \<and> number h + 1 = number inc))"
  by (induction ihs inc rule: find_parent_rev.induct) auto

text \<open>
  In a linked window the parent of an incoming block, if present, is the block numbered one below it.
\<close>

lemma succ_number:
  fixes m n :: u64
  assumes "0 < unat n"
  shows "m + 1 = n \<longleftrightarrow> Suc (unat m) = unat n"
proof
  assume "m + 1 = n"
  then show "Suc (unat m) = unat n"
    using assms unat_lt [of m] by (auto simp: unat_word_ariths mod_Suc split: if_splits)
next
  assume "Suc (unat m) = unat n"
  then show "m + 1 = n"
    using unat_lt [of n] unat_add_nowrap [of m 1] by (simp add: word_unat_eq_iff)
qed

lemma find_parent_linked:
  assumes "linked hs" "hs \<noteq> []" "unat (number (hd hs)) < unat (number inc)"
  shows "find_parent hs inc =
    (let i = unat (number inc) - unat (number (hd hs)) - 1 in
     if i < length hs \<and> hash (hs ! i) = parent_hash inc then Some i else None)"
proof -
  define i where "i = unat (number inc) - unat (number (hd hs)) - 1"
  have mem: "(j, h) \<in> set (rev (enumerate 0 hs)) \<longleftrightarrow> j < length hs \<and> h = hs ! j" for j h
    by (auto simp: in_set_enumerate_eq)
  have num: "number (hs ! j) + 1 = number inc \<longleftrightarrow> j = i" if "j < length hs" for j
    using that assms by (auto simp: succ_number linked_number i_def)
  show ?thesis unfolding Let_def i_def [symmetric]
  proof (cases "find_parent hs inc")
    case None
    have "\<not> (hash (hs ! j) = parent_hash inc \<and> number (hs ! j) + 1 = number inc)"
      if "j < length hs" for j
      using None that mem [of j "hs ! j"]
      by (auto simp: find_parent_def find_parent_rev_None simp del: set_rev)
    then show "find_parent hs inc =
        (if i < length hs \<and> hash (hs ! i) = parent_hash inc then Some i else None)"
      using num None by auto
  next
    case (Some j)
    then have "j < length hs" "hash (hs ! j) = parent_hash inc" "number (hs ! j) + 1 = number inc"
      using find_parent_rev_Some [of "rev (enumerate 0 hs)" inc j]
      by (auto simp: find_parent_def mem simp del: set_rev)
    then show "find_parent hs inc =
        (if i < length hs \<and> hash (hs ! i) = parent_hash inc then Some i else None)"
      using Some num by auto
  qed
qed

text \<open>What \<open>advance\<close> does to a linked, non-empty window, by the number of the incoming block.\<close>

definition below :: "BlockHeader list \<Rightarrow> BlockHeader \<Rightarrow> BlockHeader list" where
  "below hs inc = filter (\<lambda>h. number h < number inc) hs"

lemma below_linked:
  assumes "linked hs" "hs \<noteq> []" "unat (number (hd hs)) < unat (number inc)"
  shows "below hs inc = take (unat (number inc) - unat (number (hd hs))) hs"
proof -
  let ?n = "unat (number inc) - unat (number (hd hs))"
  have l: "\<forall>h \<in> set (take ?n hs). number h < number inc"
    using assms by (auto simp: in_set_conv_nth linked_number word_less_nat_alt)
  have r: "\<forall>h \<in> set (drop ?n hs). \<not> number h < number inc"
    using assms by (auto simp: in_set_conv_nth linked_number word_less_nat_alt)
  have "filter (\<lambda>h. number h < number inc) (take ?n hs @ drop ?n hs) = take ?n hs"
    unfolding filter_append using l r by (simp add: filter_id_conv filter_empty_conv)
  then show ?thesis by (simp add: below_def)
qed

definition advance_spec :: "ReorgWindow \<Rightarrow> BlockHeader \<Rightarrow> (ReorgError + AdvanceOutcome) \<times> ReorgWindow" where
  "advance_spec w inc =
     (let hs = buffer w; kept = below hs inc in
      if hs = [] then (Inr Advanced, w\<lparr>buffer := [inc]\<rparr>)
      else if number inc \<le> number (hd hs) then (Inl (DeepReorg (number inc) (number (hd hs))), w)
      else if Suc (unat (number (last hs))) < unat (number inc)
      then (Inl (NonMonotone (number inc) (number (last hs))), w)
      else if parent_hash inc \<noteq> hash (last kept) then (Inl (OrphanedParent (number inc)), w)
      else if kept = hs then (Inr Advanced, push_bounded w inc)
      else (Inr (Reorged (length hs - length kept) (number inc)), w\<lparr>buffer := kept @ [inc]\<rparr>))"

lemma rewind_linked:
  assumes "linked (buffer w)" "buffer w \<noteq> []" "unat (number (hd (buffer w))) < unat (number inc)"
    and "unat (number inc) \<le> Suc (unat (number (last (buffer w))))"
    and "unat (number inc) = Suc (unat (number (last (buffer w)))) \<Longrightarrow>
      parent_hash inc \<noteq> hash (last (buffer w))"
  shows "rewind w inc =
    (if parent_hash inc = hash (last (below (buffer w) inc))
     then (Inr (Reorged (length (buffer w) - length (below (buffer w) inc)) (number inc)),
       w\<lparr>buffer := below (buffer w) inc @ [inc]\<rparr>)
     else (Inl (OrphanedParent (number inc)), w))"
proof -
  let ?hs = "buffer w"
  define n where "n = unat (number inc) - unat (number (hd ?hs))"
  have n: "0 < n" "n \<le> length ?hs" "n - 1 < length ?hs"
    using assms linked_last [of ?hs] by (auto simp: n_def)
  have b: "below ?hs inc = take n ?hs" using assms by (simp add: below_linked n_def)
  have lst: "last (take n ?hs) = ?hs ! (n - 1)" using n assms(2) by (simp add: last_conv_nth)
  have f: "find_parent ?hs inc = (if hash (?hs ! (n - 1)) = parent_hash inc then Some (n - 1) else None)"
    using assms n(3) by (simp add: find_parent_linked n_def Let_def)
  show ?thesis
  proof (cases "n < length ?hs")
    case True
    then have "number (?hs ! n) = number inc"
      using assms by (simp add: word_unat_eq_iff linked_number n_def)
    then show ?thesis using n True by (auto simp: rewind_def f b lst Let_def)
  next
    case False
    then have "n = length ?hs" using n by simp
    then have "unat (number inc) = Suc (unat (number (last ?hs)))"
      using assms(1-3) linked_last [of ?hs] by (simp add: n_def)
    then have "parent_hash inc \<noteq> hash (last ?hs)" using assms(5) by simp
    then show ?thesis using \<open>n = length ?hs\<close> assms(2)
      by (auto simp: rewind_def f b last_conv_nth)
  qed
qed

lemma advance_eq_spec:
  assumes "window_inv w"
  shows "advance w inc = advance_spec w inc"
proof (cases "buffer w = []")
  case False
  let ?hs = "buffer w"
  have lk: "linked ?hs" using assms by (simp add: window_inv_def)
  show ?thesis
  proof (cases "number inc \<le> number (hd ?hs)")
    case above: False
    then have a: "unat (number (hd ?hs)) < unat (number inc)" by (simp add: word_le_nat_alt)
    have kept: "below ?hs inc = ?hs \<longleftrightarrow> Suc (unat (number (last ?hs))) \<le> unat (number inc)"
      using below_linked [OF lk False a] linked_last [OF lk False] False a
      by (auto simp: take_all_iff)
    have nxt: "number inc = number (last ?hs) + 1 \<longleftrightarrow> Suc (unat (number (last ?hs))) = unat (number inc)"
      using succ_number [of "number inc" "number (last ?hs)"] a by auto
    have gap: "number (last ?hs) + 1 < number inc \<longleftrightarrow> Suc (unat (number (last ?hs))) < unat (number inc)"
      if "\<not> number inc \<le> number (last ?hs)"
      using that unat_add_nowrap [of "number (last ?hs)" 1] unat_lt [of "number inc"]
      by (simp add: word_less_nat_alt word_le_nat_alt)
    show ?thesis
    proof (cases "Suc (unat (number (last ?hs))) < unat (number inc)")
      case True
      then show ?thesis using False above nxt gap
        by (auto simp: advance_def advance_spec_def window_head_def window_tail_def word_le_nat_alt Let_def)
    next
      case le: False
      note r = rewind_linked [OF lk False a]
      show ?thesis
      proof (cases "Suc (unat (number (last ?hs))) = unat (number inc) \<and> parent_hash inc = hash (last ?hs)")
        case True
        then show ?thesis using False above nxt kept
          by (simp add: advance_def advance_spec_def window_head_def window_tail_def Let_def)
      next
        case no: False
        then show ?thesis using False above nxt gap le kept r
          by (auto simp: advance_def advance_spec_def window_head_def window_tail_def Let_def)
      qed
    qed
  qed (use False in \<open>simp add: advance_def advance_spec_def window_head_def window_tail_def Let_def\<close>)
qed (simp add: advance_def advance_spec_def window_head_def)

lemma linked_take: "linked hs \<Longrightarrow> linked (take n hs)"
  using linked_append [of "take n hs" "drop n hs"] by simp

lemma last_take_number:
  assumes "linked hs" "0 < n" "n \<le> length hs"
  shows "Suc (unat (number (last (take n hs)))) = unat (number (hd hs)) + n"
  using assms linked_take [of hs n] linked_last [of "take n hs"] by (cases hs) auto

lemma push_bounded_inv:
  assumes "window_inv w" "buffer w \<noteq> []"
    and "unat (number h) = Suc (unat (number (last (buffer w))))" "parent_hash h = hash (last (buffer w))"
  shows "window_inv (push_bounded w h)"
  using assms by (cases "buffer w") (auto simp: window_inv_def push_bounded_def linked_append linked_Cons)

lemma advance_spec_inv:
  assumes "window_inv w"
  shows "window_inv (snd (advance_spec w inc))"
proof (cases "buffer w = []")
  case False
  let ?hs = "buffer w"
  define n where "n = unat (number inc) - unat (number (hd ?hs))"
  have lk: "linked ?hs" "length ?hs \<le> capacity w" using assms by (simp_all add: window_inv_def)
  show ?thesis
  proof (cases "number inc \<le> number (hd ?hs) \<or> Suc (unat (number (last ?hs))) < unat (number inc)")
    case False2: False
    then have a: "unat (number (hd ?hs)) < unat (number inc)" "0 < n" "n \<le> length ?hs"
      using linked_last [OF lk(1) False] by (auto simp: word_le_nat_alt n_def)
    have b: "below ?hs inc = take n ?hs" using below_linked [OF lk(1) False a(1)] by (simp add: n_def)
    have num: "unat (number inc) = Suc (unat (number (last (take n ?hs))))"
      using last_take_number [OF lk(1) a(2,3)] a(1) by (simp add: n_def)
    have "length (take n ?hs) < length ?hs" if "take n ?hs \<noteq> ?hs" using that a(3) by force
    then show ?thesis using False False2 lk num a assms push_bounded_inv [OF assms False, of inc]
      by (auto simp: advance_spec_def Let_def b window_inv_def linked_append linked_take)
  qed (use False assms in \<open>auto simp: advance_spec_def Let_def\<close>)
qed (use assms in \<open>auto simp: advance_spec_def window_inv_def\<close>)

lemma push_bounded_sel:
  "capacity (push_bounded w h) = capacity w"
  "buffer (push_bounded w h) =
     (if length (buffer w) = capacity w then tl (buffer w) else buffer w) @ [h]"
  by (simp_all add: push_bounded_def)

lemma seed_linked:
  assumes "linked (buffer w @ hs)" "length (buffer w) \<le> capacity w" "0 < capacity w"
  shows "window_inv (foldl push_bounded w hs) \<and> capacity (foldl push_bounded w hs) = capacity w \<and>
    buffer (foldl push_bounded w hs) =
      drop (length (buffer w) + length hs - capacity w) (buffer w @ hs)"
  using assms
proof (induction hs arbitrary: w)
  case (Cons h hs)
  let ?w = "push_bounded w h"
  have t: "linked (tl (buffer w) @ h # hs)" if "buffer w \<noteq> []"
    using linked_tl [OF Cons.prems(1)] that by simp
  have "window_inv (foldl push_bounded ?w hs) \<and> capacity (foldl push_bounded ?w hs) = capacity ?w \<and>
      buffer (foldl push_bounded ?w hs) = drop (length (buffer ?w) + length hs - capacity ?w) (buffer ?w @ hs)"
    using Cons.prems t by (intro Cons.IH) (cases "buffer w"; auto simp: push_bounded_sel)+
  then show ?case using Cons.prems
    by (cases "length (buffer w) = capacity w"; cases "buffer w")
      (auto simp: push_bounded_sel Suc_diff_le simp del: drop_append)
qed (simp add: window_inv_def)

section \<open>Properties\<close>

text \<open>
  C13: On every window that is a chain, \<open>advance\<close> decides as specified: it rejects a block at or below
  the floor, a gap above the tip and a block whose parent is not the window's block of the previous
  number, and leaves the window alone; otherwise it extends the tip, or drops exactly the blocks
  numbered at or above the incoming one, reports how many and from which number, and appends it.
\<close>

theorem advance_decides:
  assumes "window_inv w"
  shows "advance w inc = advance_spec w inc"
  by (rule advance_eq_spec [OF assms])

definition genesis_window :: ReorgWindow where
  "genesis_window = \<lparr>capacity = 2, buffer = [\<lparr>number = 7, hash = [1], parent_hash = [0]\<rparr>]\<rparr>"

theorem advance_decides_witness:
  "advance genesis_window \<lparr>number = 9, hash = [2], parent_hash = [1]\<rparr> =
     (Inl (NonMonotone 9 7), genesis_window)"
  using advance_decides [of genesis_window "\<lparr>number = 9, hash = [2], parent_hash = [1]\<rparr>"]
  by (simp add: genesis_window_def window_inv_def advance_spec_def)

text \<open>
  C20: The window is always a contiguous, hash-linked chain of at most \<open>capacity\<close> headers: every
  \<open>advance\<close>, successful or not, keeps it one, and seeding from a linked chain gives its newest
  \<open>capacity\<close> headers. In particular the second walk-back of the source (a block right above the tip
  with another parent) never finds an ancestor.
\<close>

theorem window_stays_linked:
  assumes "window_inv w"
  shows "window_inv (snd (advance w inc)) \<and>
    (linked hs \<longrightarrow> window_inv (seed w hs) \<and> buffer (seed w hs) = drop (length hs - capacity w) hs) \<and>
    (buffer w \<noteq> [] \<and> number inc = number (last (buffer w)) + 1 \<and> number (hd (buffer w)) < number inc \<and>
      parent_hash inc \<noteq> hash (last (buffer w)) \<longrightarrow>
      advance w inc = (Inl (OrphanedParent (number inc)), w))"
proof -
  have cap: "0 < capacity w" using assms by (simp add: window_inv_def)
  have "window_inv (seed w hs) \<and> buffer (seed w hs) = drop (length hs - capacity w) hs" if "linked hs"
    using seed_linked [of "window_clear w" hs] that cap by (simp add: seed_def window_clear_def)
  moreover have "advance w inc = (Inl (OrphanedParent (number inc)), w)"
    if h: "buffer w \<noteq> []" "number inc = number (last (buffer w)) + 1" "number (hd (buffer w)) < number inc"
      "parent_hash inc \<noteq> hash (last (buffer w))"
  proof -
    have lk: "linked (buffer w)" using assms by (simp add: window_inv_def)
    have n: "unat (number inc) = Suc (unat (number (last (buffer w))))"
      using h(2,3) succ_number [of "number inc" "number (last (buffer w))"] by (simp add: word_less_nat_alt)
    then have "below (buffer w) inc = buffer w"
      using below_linked [OF lk h(1)] linked_last [OF lk h(1)] h(3) by (simp add: word_less_nat_alt)
    then show ?thesis using h n
      by (simp add: advance_eq_spec [OF assms] advance_spec_def not_le Let_def)
  qed
  moreover have "window_inv (snd (advance w inc))"
    using advance_spec_inv [OF assms, of inc] advance_eq_spec [OF assms, of inc] by simp
  ultimately show ?thesis by blast
qed

theorem window_stays_linked_witness:
  "window_inv (snd (advance genesis_window \<lparr>number = 8, hash = [2], parent_hash = [1]\<rparr>))"
  using window_stays_linked [of genesis_window "\<lparr>number = 8, hash = [2], parent_hash = [1]\<rparr>"]
  by (simp add: genesis_window_def window_inv_def)

end
