(* ===== verification/Drr.thy ===== *)
theory Drr
  imports BTree_Map
begin

text \<open>
  The fair scheduler of the host, \<open>src/runtime/knomosis-host/src/fair/drr.rs\<close>: the generic
  round-robin \<open>Tier\<close> over routing keys, the leaf FIFO, and \<open>DrrState\<close>, a tier of connections whose
  flows are tiers of signer hints.

  The trait \<open>FlowStore\<close> is passed as its two operations. A request is never inspected by the
  scheduler: it is a type parameter. Where the source calls \<open>expect\<close>, subtracts from a counter or
  asserts in debug builds, the model returns \<open>Panic\<close>.
\<close>

section \<open>Constants and caps\<close>

definition HARD_MAX_QUEUE_DEPTH :: usize where
  "HARD_MAX_QUEUE_DEPTH = 65536"

definition HARD_MAX_FLOWS :: usize where
  "HARD_MAX_FLOWS = 65536"

definition DEFAULT_MAX_SIGNERS_PER_CONN :: usize where
  "DEFAULT_MAX_SIGNERS_PER_CONN = 256"

definition HARD_MAX_SIGNERS_PER_CONN :: usize where
  "HARD_MAX_SIGNERS_PER_CONN = 65536"

definition QUANTUM :: u64 where
  "QUANTUM = 1"

definition COST :: u64 where
  "COST = 1"

record Caps =
  per_flow :: usize
  max_flows :: usize
  max_signers :: usize
  max_conn_backlog :: usize
  global :: usize

definition caps_new :: "usize \<Rightarrow> usize \<Rightarrow> usize \<Rightarrow> Caps" where
  "caps_new pf mf gl =
     (let g = min gl HARD_MAX_QUEUE_DEPTH in
      \<lparr>per_flow = pf, max_flows = min mf HARD_MAX_FLOWS, max_signers = DEFAULT_MAX_SIGNERS_PER_CONN,
       max_conn_backlog = min pf g, global = g\<rparr>)"

definition with_max_signers :: "Caps \<Rightarrow> usize \<Rightarrow> Caps" where
  "with_max_signers c n = c\<lparr>max_signers := min n HARD_MAX_SIGNERS_PER_CONN\<rparr>"

definition with_max_conn_backlog :: "Caps \<Rightarrow> usize \<Rightarrow> Caps" where
  "with_max_conn_backlog c n = c\<lparr>max_conn_backlog := min n HARD_MAX_QUEUE_DEPTH\<rparr>"

section \<open>Flows and tiers\<close>

datatype RejectReason = MaxFlows | MaxSigners | ConnBacklog | PerFlow

datatype 'r Rejected = Rejected RejectReason 'r

record 'r RequestFifo =
  deque :: "'r list"

definition fifo_new :: "'r RequestFifo" where
  "fifo_new = \<lparr>deque = []\<rparr>"

definition fifo_push :: "'r RequestFifo \<Rightarrow> 'r \<Rightarrow> usize \<Rightarrow> ('r Rejected + unit) \<times> 'r RequestFifo" where
  "fifo_push f req cap =
     (if cap \<le> length (deque f) then (Inl (Rejected PerFlow req), f)
      else (Inr (), f\<lparr>deque := deque f @ [req]\<rparr>))"

definition fifo_serve :: "'r RequestFifo \<Rightarrow> ('r option \<times> 'r RequestFifo) rust" where
  "fifo_serve f =
     (case deque f of [] \<Rightarrow> Val (None, f) | r # rs \<Rightarrow> Val (Some r, f\<lparr>deque := rs\<rparr>))"

definition fifo_depth :: "'r RequestFifo \<Rightarrow> usize" where
  "fifo_depth f = length (deque f)"

record 's FlowEntry =
  store :: 's
  deficit :: u64
  quantum :: u64

definition entry_new :: "'s \<Rightarrow> 's FlowEntry" where
  "entry_new s = \<lparr>store = s, deficit = 0, quantum = QUANTUM\<rparr>"

record ('k, 's) Tier =
  flows :: "('k, 's FlowEntry) btree"
  active :: "'k list"
  total_depth :: usize

definition tier_new :: "('k, 's) Tier" where
  "tier_new = \<lparr>flows = [], active = [], total_depth = 0\<rparr>"

definition enqueue_routed ::
    "('k::linorder, 's) Tier \<Rightarrow> 'k \<Rightarrow> usize \<Rightarrow> RejectReason \<Rightarrow> 'r \<Rightarrow> 's \<Rightarrow>
     ('s \<Rightarrow> 'r \<Rightarrow> ('r Rejected + unit) \<times> 's) \<Rightarrow> ('r Rejected + unit) \<times> ('k, 's) Tier" where
  "enqueue_routed t key max_keys max_keys_reason req mk push =
     (case bt_get (flows t) key of
        Some occ \<Rightarrow>
          (case push (store occ) req of
             (Inl rej, s) \<Rightarrow> (Inl rej, t\<lparr>flows := bt_insert key (occ\<lparr>store := s\<rparr>) (flows t)\<rparr>)
           | (Inr _, s) \<Rightarrow>
               (Inr (), t\<lparr>flows := bt_insert key (occ\<lparr>store := s\<rparr>) (flows t),
                         total_depth := total_depth t + 1\<rparr>))
      | None \<Rightarrow>
          if max_keys \<le> length (flows t) then (Inl (Rejected max_keys_reason req), t)
          else
          (case push mk req of
             (Inl rej, s) \<Rightarrow> (Inl rej, t)
           | (Inr _, s) \<Rightarrow>
               (Inr (), t\<lparr>flows := bt_insert key (entry_new s) (flows t),
                         active := active t @ [key],
                         total_depth := total_depth t + 1\<rparr>)))"

definition tier_pick ::
    "('s \<Rightarrow> ('r option \<times> 's) rust) \<Rightarrow> ('s \<Rightarrow> usize) \<Rightarrow> ('k::linorder, 's) Tier \<Rightarrow>
     ('r option \<times> ('k, 's) Tier) rust" where
  "tier_pick serve depth t =
     (case active t of
        [] \<Rightarrow> Val (None, t)
      | key # rest \<Rightarrow>
     (case bt_get (flows t) key of
        None \<Rightarrow> Panic
      | Some entry \<Rightarrow>
          let credit = wsat_add (deficit entry) (quantum entry) in
          if credit < COST then Panic
          else
     (case serve (store entry) of
        Panic \<Rightarrow> Panic
      | Val (None, s) \<Rightarrow> Panic
      | Val (Some req, s) \<Rightarrow>
          if total_depth t = 0 then Panic
          else if depth s = 0
          then Val (Some req, t\<lparr>flows := bt_remove key (flows t), active := rest,
                                total_depth := total_depth t - 1\<rparr>)
          else Val (Some req,
                 t\<lparr>flows := bt_insert key (entry\<lparr>store := s, deficit := credit - COST\<rparr>) (flows t),
                   active := rest @ [key], total_depth := total_depth t - 1\<rparr>))))"

definition enqueue_leaf ::
    "('k::linorder, 'r RequestFifo) Tier \<Rightarrow> 'k \<Rightarrow> 'r \<Rightarrow> usize \<Rightarrow> usize \<Rightarrow> RejectReason \<Rightarrow>
     ('r Rejected + unit) \<times> ('k, 'r RequestFifo) Tier" where
  "enqueue_leaf t key req pf max_keys max_keys_reason =
     enqueue_routed t key max_keys max_keys_reason req fifo_new (\<lambda>fifo req. fifo_push fifo req pf)"

type_synonym ConnId = u64
type_synonym SignerHint = u64
type_synonym 'r ConnBucket = "(SignerHint, 'r RequestFifo) Tier"

definition enqueue_signer ::
    "'r ConnBucket \<Rightarrow> SignerHint \<Rightarrow> 'r \<Rightarrow> usize \<Rightarrow> usize \<Rightarrow> usize \<Rightarrow> ('r Rejected + unit) \<times> 'r ConnBucket" where
  "enqueue_signer b signer req pf ms mcb =
     (if (case bt_get (flows b) signer of Some entry \<Rightarrow> pf \<le> fifo_depth (store entry) | None \<Rightarrow> False)
      then (Inl (Rejected PerFlow req), b)
      else if mcb \<le> total_depth b then (Inl (Rejected ConnBacklog req), b)
      else enqueue_leaf b signer req pf ms MaxSigners)"

section \<open>The scheduler\<close>

record 'r DrrState =
  outer :: "(ConnId, 'r ConnBucket) Tier"
  caps :: Caps
  dispatched :: u64
  rejected_per_flow :: u64
  rejected_max_flows :: u64
  rejected_max_signers :: u64
  rejected_conn_backlog :: u64
  rejected_global :: u64
  closed :: bool

definition drr_new :: "Caps \<Rightarrow> 'r DrrState" where
  "drr_new c =
     (let c' = with_max_conn_backlog (with_max_signers
            (caps_new (per_flow c) (max_flows c) (global c)) (max_signers c)) (max_conn_backlog c)
      in \<lparr>outer = tier_new, caps = c', dispatched = 0, rejected_per_flow = 0, rejected_max_flows = 0,
          rejected_max_signers = 0, rejected_conn_backlog = 0, rejected_global = 0, closed = False\<rparr>)"

fun count_rejection :: "RejectReason \<Rightarrow> 'r DrrState \<Rightarrow> 'r DrrState" where
  "count_rejection MaxFlows s = s\<lparr>rejected_max_flows := wsat_add (rejected_max_flows s) 1\<rparr>"
| "count_rejection MaxSigners s = s\<lparr>rejected_max_signers := wsat_add (rejected_max_signers s) 1\<rparr>"
| "count_rejection ConnBacklog s = s\<lparr>rejected_conn_backlog := wsat_add (rejected_conn_backlog s) 1\<rparr>"
| "count_rejection PerFlow s = s\<lparr>rejected_per_flow := wsat_add (rejected_per_flow s) 1\<rparr>"

definition drr_enqueue :: "'r DrrState \<Rightarrow> ConnId \<Rightarrow> SignerHint \<Rightarrow> 'r \<Rightarrow> ('r + unit) \<times> 'r DrrState" where
  "drr_enqueue s conn signer req =
     (if global (caps s) \<le> total_depth (outer s)
      then (Inl req, s\<lparr>rejected_global := wsat_add (rejected_global s) 1\<rparr>)
      else
        (case enqueue_routed (outer s) conn (max_flows (caps s)) MaxFlows req tier_new
            (\<lambda>bucket req. enqueue_signer bucket signer req (per_flow (caps s)) (max_signers (caps s))
               (max_conn_backlog (caps s))) of
           (Inr _, o') \<Rightarrow> (Inr (), s\<lparr>outer := o'\<rparr>)
         | (Inl (Rejected reason req'), o') \<Rightarrow> (Inl req', count_rejection reason (s\<lparr>outer := o'\<rparr>))))"

definition bucket_pick :: "'r ConnBucket \<Rightarrow> ('r option \<times> 'r ConnBucket) rust" where
  "bucket_pick b = tier_pick fifo_serve fifo_depth b"

definition drr_pick :: "'r DrrState \<Rightarrow> ('r option \<times> 'r DrrState) rust" where
  "drr_pick s =
     (case tier_pick bucket_pick total_depth (outer s) of
        Panic \<Rightarrow> Panic
      | Val (None, o') \<Rightarrow> Val (None, s\<lparr>outer := o'\<rparr>)
      | Val (Some req, o') \<Rightarrow> Val (Some req, s\<lparr>outer := o', dispatched := wsat_add (dispatched s) 1\<rparr>))"

definition drr_len :: "'r DrrState \<Rightarrow> usize" where
  "drr_len s = total_depth (outer s)"

definition active_signers :: "'r DrrState \<Rightarrow> usize" where
  "active_signers s = bt_sum (\<lambda>entry. length (active (store entry))) (flows (outer s))"

definition set_closed :: "'r DrrState \<Rightarrow> 'r DrrState" where
  "set_closed s = s\<lparr>closed := True\<rparr>"

section \<open>The contract of a flow store\<close>

text \<open>
  What a tier relies on in its stores, and itself promises: \<open>serve\<close> on a non-empty store hands out
  the head of exactly one of its queues, the depth counts what is stored. \<open>view\<close> names the queues of
  a store: a FIFO has one, a tier has those of its flows, addressed by key and sub-address.
\<close>

locale flow_store =
  fixes serve :: "'s \<Rightarrow> ('r option \<times> 's) rust" and depth :: "'s \<Rightarrow> usize"
    and ok :: "'s \<Rightarrow> bool" and view :: "'s \<Rightarrow> 'v \<Rightarrow> 'r list"
  assumes serve_empty: "ok s \<Longrightarrow> depth s = 0 \<Longrightarrow> serve s = Val (None, s)"
    and serve_some: "ok s \<Longrightarrow> 0 < depth s \<Longrightarrow> \<exists>r s' v. serve s = Val (Some r, s') \<and> ok s' \<and>
      depth s = Suc (depth s') \<and> view s v = r # view s' v \<and> (\<forall>w. w \<noteq> v \<longrightarrow> view s' w = view s w)"
    and depth_view: "ok s \<Longrightarrow> depth s = 0 \<Longrightarrow> view s v = []"

text \<open>
  The three invariants the module documents: the depth counter is the sum of the flows' depths, the
  round-robin list holds each flow's key exactly once and every flow is non-empty, and no flow carries
  a deficit between turns.
\<close>

definition tier_inv :: "('s \<Rightarrow> bool) \<Rightarrow> ('s \<Rightarrow> usize) \<Rightarrow> ('k::linorder, 's) Tier \<Rightarrow> bool" where
  "tier_inv ok depth t \<longleftrightarrow> bt_wf (flows t) \<and> distinct (active t) \<and> set (active t) = bt_keys (flows t) \<and>
     (\<forall>k e. bt_get (flows t) k = Some e \<longrightarrow>
        ok (store e) \<and> 0 < depth (store e) \<and> deficit e = 0 \<and> quantum e = QUANTUM) \<and>
     total_depth t = bt_sum (depth \<circ> store) (flows t)"

fun tier_view :: "('s \<Rightarrow> 'v \<Rightarrow> 'r list) \<Rightarrow> ('k, 's) Tier \<Rightarrow> 'k \<times> 'v \<Rightarrow> 'r list" where
  "tier_view view t (k, v) = (case bt_get (flows t) k of None \<Rightarrow> [] | Some e \<Rightarrow> view (store e) v)"

lemma tier_inv_new: "tier_inv ok depth tier_new"
  by (simp add: tier_inv_def tier_new_def)

lemma tier_inv_active:
  assumes "tier_inv ok depth t" "k \<in> set (active t)"
  shows "\<exists>e. bt_get (flows t) k = Some e \<and> ok (store e) \<and> 0 < depth (store e) \<and> deficit e = 0 \<and>
    quantum e = QUANTUM \<and> depth (store e) \<le> total_depth t"
  using assms bt_key_get [of k "flows t"] bt_sum_ge [of "flows t" k _ "depth \<circ> store"]
  by (fastforce simp: tier_inv_def)

lemma tier_empty_active: "tier_inv ok depth t \<Longrightarrow> total_depth t = 0 \<longleftrightarrow> active t = []"
proof (cases "active t")
  case Nil
  assume "tier_inv ok depth t"
  then show ?thesis using Nil by (simp add: tier_inv_def bt_keys_def)
next
  case (Cons k ks)
  assume "tier_inv ok depth t"
  then show ?thesis using Cons tier_inv_active [of ok depth t k] by auto
qed

context flow_store
begin

lemma tier_pick_serves:
  assumes ti: "tier_inv ok depth t" and act: "active t = k # ks"
  shows "\<exists>r t' v. tier_pick serve depth t = Val (Some r, t') \<and> tier_inv ok depth t' \<and>
    total_depth t = Suc (total_depth t') \<and> tier_view view t (k, v) = r # tier_view view t' (k, v) \<and>
    (\<forall>w. w \<noteq> (k, v) \<longrightarrow> tier_view view t' w = tier_view view t w) \<and>
    active t' = (if k \<in> bt_keys (flows t') then ks @ [k] else ks)"
proof -
  obtain e where e: "bt_get (flows t) k = Some e" "ok (store e)" "0 < depth (store e)"
    "deficit e = 0" "quantum e = QUANTUM" "depth (store e) \<le> total_depth t"
    using tier_inv_active [OF ti, of k] act by auto
  obtain r s' v where s: "serve (store e) = Val (Some r, s')" "ok s'" "depth (store e) = Suc (depth s')"
    "view (store e) v = r # view s' v" "\<forall>w. w \<noteq> v \<longrightarrow> view s' w = view (store e) w"
    using serve_some [OF e(2,3)] by blast
  have credit: "wsat_add (deficit e) (quantum e) = 1"
    by (simp add: e QUANTUM_def wsat_add_def wchecked_add_def)
  have wf: "bt_wf (flows t)" "distinct (k # ks)" "set (k # ks) = bt_keys (flows t)"
    "total_depth t = bt_sum (depth \<circ> store) (flows t)"
    using ti act by (simp_all add: tier_inv_def)
  let ?e = "e\<lparr>store := s', deficit := 0\<rparr>"
  show ?thesis
  proof (cases "depth s' = 0")
    case True
    let ?t = "t\<lparr>flows := bt_remove k (flows t), active := ks, total_depth := total_depth t - 1\<rparr>"
    have "tier_pick serve depth t = Val (Some r, ?t)"
      using act e s True credit by (simp add: tier_pick_def COST_def)
    moreover have "tier_inv ok depth ?t"
      using ti act wf e s True bt_sum_remove [OF wf(1) e(1), of "depth \<circ> store"]
      by (auto simp: tier_inv_def bt_keys_remove bt_get_remove)
    moreover have "view s' w = []" for w using depth_view [OF s(2) True] .
    ultimately show ?thesis using e s wf(1)
      by (intro exI [of _ r] exI [of _ ?t] exI [of _ v])
        (auto simp: bt_get_remove bt_keys_remove)
  next
    case False
    let ?t = "t\<lparr>flows := bt_insert k ?e (flows t), active := ks @ [k], total_depth := total_depth t - 1\<rparr>"
    have "tier_pick serve depth t = Val (Some r, ?t)"
      using act e s False credit by (simp add: tier_pick_def COST_def)
    moreover have "tier_inv ok depth ?t"
      using ti act wf e s False bt_sum_insert [OF wf(1), of "depth \<circ> store" k ?e]
      by (auto simp: tier_inv_def)
    ultimately show ?thesis using e s
      by (intro exI [of _ r] exI [of _ ?t] exI [of _ v]) auto
  qed
qed

lemma tier_flow_store:
  "flow_store (tier_pick serve depth) total_depth (tier_inv ok depth)
     (tier_view view :: ('k::linorder, 's) Tier \<Rightarrow> 'k \<times> 'v \<Rightarrow> 'r list)"
proof
  fix t :: "('k, 's) Tier" assume t: "tier_inv ok depth t"
  { assume "total_depth t = 0"
    then have "active t = []" using tier_empty_active [OF t] by simp
    then show "tier_pick serve depth t = Val (None, t)" "tier_view view t v = []" for v
      using t by (cases v; auto simp: tier_pick_def tier_inv_def bt_get_None_iff [THEN iffD2])+ }
  assume "0 < total_depth t"
  then obtain k ks where "active t = k # ks"
    using tier_empty_active [OF t] by (cases "active t") auto
  then show "\<exists>r t' v. tier_pick serve depth t = Val (Some r, t') \<and> tier_inv ok depth t' \<and>
      total_depth t = Suc (total_depth t') \<and> tier_view view t v = r # tier_view view t' v \<and>
      (\<forall>w. w \<noteq> v \<longrightarrow> tier_view view t' w = tier_view view t w)"
    using tier_pick_serves [OF t] by blast
qed

end

text \<open>
  The enqueue side: \<open>push\<close> either appends the request to the queue named by \<open>path\<close>, or hands back
  exactly the request it was given and changes nothing; \<open>fresh\<close> is an empty store.
\<close>

locale flow_push = flow_store serve depth ok view
  for serve :: "'s \<Rightarrow> ('r option \<times> 's) rust" and depth :: "'s \<Rightarrow> usize"
    and ok :: "'s \<Rightarrow> bool" and view :: "'s \<Rightarrow> 'v \<Rightarrow> 'r list" +
  fixes push :: "'s \<Rightarrow> 'r \<Rightarrow> ('r Rejected + unit) \<times> 's" and fresh :: 's and path :: 'v
  assumes push_ok: "ok s \<Longrightarrow> push s r = (Inr u, s') \<Longrightarrow> ok s' \<and> depth s' = Suc (depth s) \<and>
      view s' path = view s path @ [r] \<and> (\<forall>w. w \<noteq> path \<longrightarrow> view s' w = view s w)"
    and push_err: "ok s \<Longrightarrow> push s r = (Inl rej, s') \<Longrightarrow> s' = s \<and> (\<exists>x. rej = Rejected x r)"
    and fresh_ok: "ok fresh" "depth fresh = 0"
begin

lemma enqueue_routed_ok:
  assumes ti: "tier_inv ok depth t" and enq: "enqueue_routed t key mx rs r fresh push = (Inr u, t')"
  shows "tier_inv ok depth t' \<and> total_depth t' = Suc (total_depth t) \<and>
    tier_view view t' (key, path) = tier_view view t (key, path) @ [r] \<and>
    (\<forall>w. w \<noteq> (key, path) \<longrightarrow> tier_view view t' w = tier_view view t w) \<and>
    active t' = (if key \<in> set (active t) then active t else active t @ [key])"
proof (cases "bt_get (flows t) key")
  case None
  then have nk: "key \<notin> bt_keys (flows t)" by (simp add: bt_get_None_iff)
  then obtain s where s: "push fresh r = (Inr (), s)" and t': "t' = t\<lparr>flows := bt_insert key (entry_new s) (flows t),
      active := active t @ [key], total_depth := total_depth t + 1\<rparr>"
    using enq None by (auto simp: enqueue_routed_def split: if_splits prod.splits sum.splits)
  note p = push_ok [OF fresh_ok(1) s] and e = depth_view [OF fresh_ok]
  have "total_depth t + 1 = bt_sum (depth \<circ> store) (bt_insert key (entry_new s) (flows t))"
    using bt_sum_insert [of "flows t" "depth \<circ> store" key "entry_new s"] ti None p fresh_ok
    by (simp add: tier_inv_def entry_new_def)
  then have "tier_inv ok depth t'"
    using ti nk p fresh_ok by (auto simp: tier_inv_def t' entry_new_def)
  then show ?thesis using p e None ti nk by (auto simp: t' entry_new_def tier_inv_def)
next
  case (Some e)
  then have k: "key \<in> bt_keys (flows t)" by (rule bt_get_Some_key)
  obtain s where s: "push (store e) r = (Inr (), s)" and t': "t' = t\<lparr>
      flows := bt_insert key (e\<lparr>store := s\<rparr>) (flows t), total_depth := total_depth t + 1\<rparr>"
    using enq Some by (auto simp: enqueue_routed_def split: prod.splits sum.splits)
  have "ok (store e)" using ti Some by (simp add: tier_inv_def)
  note p = push_ok [OF this s]
  have "total_depth t + 1 = bt_sum (depth \<circ> store) (bt_insert key (e\<lparr>store := s\<rparr>) (flows t))"
    using bt_sum_insert [of "flows t" "depth \<circ> store" key "e\<lparr>store := s\<rparr>"] ti Some p
    by (simp add: tier_inv_def)
  then have "tier_inv ok depth t'"
    using ti k p Some by (auto simp: tier_inv_def t')
  then show ?thesis using p Some ti k by (auto simp: t' tier_inv_def)
qed

lemma enqueue_routed_err:
  assumes ti: "tier_inv ok depth t" and enq: "enqueue_routed t key mx rs r fresh push = (Inl rej, t')"
  shows "t' = t \<and> (\<exists>x. rej = Rejected x r)"
proof (cases "bt_get (flows t) key")
  case None
  then show ?thesis using enq push_err [OF fresh_ok(1), of r rej]
    by (auto simp: enqueue_routed_def split: if_splits prod.splits sum.splits)
next
  case (Some e)
  then obtain s where s: "push (store e) r = (Inl rej, s)"
      and t': "t' = t\<lparr>flows := bt_insert key (e\<lparr>store := s\<rparr>) (flows t)\<rparr>"
    using enq by (auto simp: enqueue_routed_def split: prod.splits sum.splits)
  have "ok (store e)" "bt_wf (flows t)" using ti Some by (auto simp: tier_inv_def)
  then show ?thesis using push_err [OF _ s] bt_insert_same [OF _ Some] t' by simp
qed

end

text \<open>
  Waiting: \<open>wait s v p\<close> bounds how often a store is served before the request at position \<open>p\<close> of its queue
  \<open>v\<close> is.  Every serve hands that request out or lowers the bound, and a push leaves it as it is.
\<close>

locale flow_wait = flow_push serve depth ok view push fresh path
  for serve :: "'s \<Rightarrow> ('r option \<times> 's) rust" and depth :: "'s \<Rightarrow> usize" and ok :: "'s \<Rightarrow> bool"
    and view :: "'s \<Rightarrow> 'v \<Rightarrow> 'r list" and push :: "'s \<Rightarrow> 'r \<Rightarrow> ('r Rejected + unit) \<times> 's" and fresh :: 's and path :: 'v +
  fixes fits :: "'s \<Rightarrow> bool" and wait :: "'s \<Rightarrow> 'v \<Rightarrow> nat \<Rightarrow> nat"
  assumes serve_wait: "ok s \<Longrightarrow> fits s \<Longrightarrow> serve s = Val (Some r, s') \<Longrightarrow> view s v = us @ x # vs \<Longrightarrow>
      us = [] \<and> r = x \<and> view s' v = vs \<or>
      (\<exists>us'. view s' v = us' @ x # vs \<and> wait s' v (length us') < wait s v (length us))"
    and push_wait: "ok s \<Longrightarrow> push s r = (q, s') \<Longrightarrow> view s v = us @ x # vs \<Longrightarrow>
      wait s' v (length us) = wait s v (length us)"

definition place :: "'k list \<Rightarrow> 'k \<Rightarrow> nat" where
  "place ks k = length (takeWhile (\<lambda>x. x \<noteq> k) ks)"

lemma place_simps:
  "place (k # ks) k = 0" "x \<noteq> k \<Longrightarrow> place (x # ks) k = Suc (place ks k)" "k \<in> set ks \<Longrightarrow> place (ks @ zs) k = place ks k"
  "k \<notin> set ks \<Longrightarrow> place (ks @ [k]) k = length ks"
proof -
  show "k \<notin> set ks \<Longrightarrow> place (ks @ [k]) k = length ks" by (induction ks) (auto simp: place_def)
qed (auto simp: place_def)

lemma place_less: "k \<in> set ks \<Longrightarrow> place ks k < length ks"
  by (induction ks) (auto simp: place_def)

text \<open>In a tier of at most \<open>n\<close> flows each turn of a flow costs at most \<open>n\<close> picks.\<close>

fun tier_wait :: "nat \<Rightarrow> ('s \<Rightarrow> 'v \<Rightarrow> nat \<Rightarrow> nat) \<Rightarrow> ('k, 's) Tier \<Rightarrow> 'k \<times> 'v \<Rightarrow> nat \<Rightarrow> nat" where
  "tier_wait n w t (k, v) p = place (active t) k +
     n * (case bt_get (flows t) k of None \<Rightarrow> 0 | Some e \<Rightarrow> w (store e) v p)"

context flow_wait
begin

lemma tier_serve_wait:
  assumes ti: "tier_inv ok depth t" and n: "length (active t) \<le> n"
    and f: "\<And>k e. bt_get (flows t) k = Some e \<Longrightarrow> fits (store e)"
    and p: "tier_pick serve depth t = Val (Some r, t')" and q: "tier_view view t (k, v) = us @ x # vs"
  shows "us = [] \<and> r = x \<and> tier_view view t' (k, v) = vs \<or>
    (\<exists>us'. tier_view view t' (k, v) = us' @ x # vs \<and>
      tier_wait n wait t' (k, v) (length us') < tier_wait n wait t (k, v) (length us))"
proof -
  obtain a as where act: "active t = a # as" using p by (cases "active t") (auto simp: tier_pick_def)
  obtain e where e: "bt_get (flows t) a = Some e" "ok (store e)" "deficit e = 0" "quantum e = QUANTUM"
    using tier_inv_active [OF ti, of a] act by auto
  have credit: "wsat_add (deficit e) (quantum e) = 1" by (simp add: e QUANTUM_def wsat_add_def wchecked_add_def)
  have wf: "bt_wf (flows t)" "distinct (a # as)" "set (a # as) = bt_keys (flows t)" using ti act by (simp_all add: tier_inv_def)
  obtain s' where s: "serve (store e) = Val (Some r, s')"
      "flows t' = (if depth s' = 0 then bt_remove a (flows t) else bt_insert a (e\<lparr>store := s', deficit := 0\<rparr>) (flows t))"
      "active t' = (if depth s' = 0 then as else as @ [a])"
    using p act e credit by (auto simp: tier_pick_def COST_def Let_def split: rust.splits option.splits if_splits)
  have "0 < depth (store e)" using ti e(1) by (simp add: tier_inv_def)
  then have ok': "ok s'" using serve_some [OF e(2)] s(1) by auto
  obtain ek where ek: "bt_get (flows t) k = Some ek" "view (store ek) v = us @ x # vs"
    using q by (cases "bt_get (flows t) k") auto
  have kin: "k \<in> set (a # as)" using wf(3) bt_get_Some_key [OF ek(1)] by simp
  show ?thesis
  proof (cases "k = a")
    case False
    then have g: "bt_get (flows t') k = Some ek" using s(2) ek(1) wf(1) by (simp add: bt_get_remove)
    have "k \<in> set as" using kin False by simp
    then have "place (active t') k = place as k" using s(3) by (simp add: place_simps)
    moreover have "place (active t) k = Suc (place as k)" using act False by (simp add: place_simps)
    ultimately show ?thesis using g ek by (intro disjI2 exI [of _ us]) simp
  next
    case True
    then have "ek = e" using ek(1) e(1) by simp
    with serve_wait [OF e(2) f [OF e(1)] s(1), of v us x vs] ek(2)
    consider "us = []" "r = x" "view s' v = vs"
      | us' where "view s' v = us' @ x # vs" "wait s' v (length us') < wait (store e) v (length us)" by auto
    then show ?thesis
    proof cases
      case 1
      then show ?thesis using s(2) True wf(1) depth_view [OF ok', of v] by (auto simp: bt_get_remove)
    next
      case 2
      then have d: "depth s' \<noteq> 0" using depth_view [OF ok', of v] by auto
      then have v': "tier_view view t' (k, v) = us' @ x # vs" using s(2) True 2 by simp
      have "n * Suc (wait s' v (length us')) \<le> n * wait (store e) v (length us)" using 2(2) by (intro mult_le_mono2) simp
      moreover have "place (as @ [a]) a = length as" "length as < n" using wf(2) n act by (simp_all add: place_simps)
      ultimately have "tier_wait n wait t' (k, v) (length us') < tier_wait n wait t (k, v) (length us)"
        using s(2,3) d True e(1) act by (simp add: place_simps)
      then show ?thesis using v' by blast
    qed
  qed
qed

lemma tier_push_wait:
  assumes ti: "tier_inv ok depth t" and enq: "enqueue_routed t key mx rs r fresh push = (q, t')"
    and v: "tier_view view t (k, v) = us @ x # vs"
  shows "tier_wait n wait t' (k, v) (length us) = tier_wait n wait t (k, v) (length us)"
proof -
  obtain ek where ek: "bt_get (flows t) k = Some ek" "view (store ek) v = us @ x # vs"
    using v by (cases "bt_get (flows t) k") auto
  have o: "ok (store ek)" "k \<in> set (active t)" using ti ek(1) bt_get_Some_key [OF ek(1)] by (auto simp: tier_inv_def)
  show ?thesis
  proof (cases q)
    case (Inl rej)
    then show ?thesis using enqueue_routed_err [OF ti enq [unfolded Inl]] by simp
  next
    case (Inr u)
    note e = enq [unfolded Inr]
    have "active t' = (if key \<in> set (active t) then active t else active t @ [key])" using enqueue_routed_ok [OF ti e] by simp
    then have a: "place (active t') k = place (active t) k" using o(2) by (simp add: place_simps)
    have "\<exists>s. bt_get (flows t') k = Some s \<and> wait (store s) v (length us) = wait (store ek) v (length us)"
    proof (cases "k = key")
      case True
      then obtain s' where "push (store ek) r = (Inr (), s')" "flows t' = bt_insert key (ek\<lparr>store := s'\<rparr>) (flows t)"
        using e ek(1) by (auto simp: enqueue_routed_def split: prod.splits sum.splits)
      then show ?thesis using push_wait [OF o(1) _ ek(2)] True by simp
    next
      case False
      then show ?thesis using e ek(1)
        by (auto simp: enqueue_routed_def split: option.splits if_splits prod.splits sum.splits)
    qed
    then show ?thesis using a ek(1) by auto
  qed
qed

end

section \<open>The scheduler's stores meet the contract\<close>

fun fifo_view :: "'r RequestFifo \<Rightarrow> unit \<Rightarrow> 'r list" where
  "fifo_view f u = deque f"

definition bucket_ok :: "'r ConnBucket \<Rightarrow> bool" where
  "bucket_ok b = tier_inv (\<lambda>_. True) fifo_depth b"

definition bucket_view :: "'r ConnBucket \<Rightarrow> SignerHint \<times> unit \<Rightarrow> 'r list" where
  "bucket_view b = tier_view fifo_view b"

definition drr_inv :: "'r DrrState \<Rightarrow> bool" where
  "drr_inv s = tier_inv bucket_ok total_depth (outer s)"

definition leaf :: "'r DrrState \<Rightarrow> ConnId \<Rightarrow> SignerHint \<Rightarrow> 'r list" where
  "leaf s c h = tier_view bucket_view (outer s) (c, (h, ()))"

interpretation fifo: flow_push fifo_serve fifo_depth "\<lambda>_. True" fifo_view "\<lambda>f r. fifo_push f r n"
    fifo_new "()" for n
  by unfold_locales (auto simp: fifo_serve_def fifo_depth_def fifo_push_def fifo_new_def
      split: list.splits if_splits)

interpretation bucket: flow_store bucket_pick total_depth bucket_ok bucket_view
  unfolding bucket_pick_def [abs_def] bucket_ok_def [abs_def] bucket_view_def [abs_def]
  by (rule fifo.tier_flow_store)

lemma enqueue_signer_leaf:
  "fst (enqueue_signer b h r pf ms mcb) = Inr u \<Longrightarrow>
     enqueue_signer b h r pf ms mcb = enqueue_routed b h ms MaxSigners r fifo_new (\<lambda>f r. fifo_push f r pf)"
  by (auto simp: enqueue_signer_def enqueue_leaf_def split: if_splits)

interpretation bucket: flow_push bucket_pick total_depth bucket_ok bucket_view
    "\<lambda>b r. enqueue_signer b h r pf ms mcb" tier_new "(h, ())" for h pf ms mcb
proof
  fix s s' :: "'a ConnBucket" and r u
  assume "bucket_ok s" "enqueue_signer s h r pf ms mcb = (Inr u, s')"
  then show "bucket_ok s' \<and> total_depth s' = Suc (total_depth s) \<and>
      bucket_view s' (h, ()) = bucket_view s (h, ()) @ [r] \<and>
      (\<forall>w. w \<noteq> (h, ()) \<longrightarrow> bucket_view s' w = bucket_view s w)"
    using enqueue_signer_leaf [of s h r pf ms mcb u]
      fifo.enqueue_routed_ok [of s h ms MaxSigners r pf u s']
    unfolding bucket_ok_def bucket_view_def by auto
next
  fix s s' :: "'a ConnBucket" and r rej
  assume "bucket_ok s" "enqueue_signer s h r pf ms mcb = (Inl rej, s')"
  then show "s' = s \<and> (\<exists>x. rej = Rejected x r)"
    using fifo.enqueue_routed_err [of s h ms MaxSigners r pf rej s']
    by (auto simp: enqueue_signer_def enqueue_leaf_def bucket_ok_def split: if_splits)
qed (simp_all add: bucket_ok_def tier_inv_new, simp add: tier_new_def)

interpretation fifo: flow_wait fifo_serve fifo_depth "\<lambda>_. True" fifo_view "\<lambda>f r. fifo_push f r n" fifo_new "()"
    "\<lambda>_. True" "\<lambda>f u p. p" for n
proof
  fix s s' :: "'a RequestFifo" and r v us x vs
  assume "fifo_serve s = Val (Some r, s')" "fifo_view s v = us @ x # vs"
  then show "us = [] \<and> r = x \<and> fifo_view s' v = vs \<or> (\<exists>us'. fifo_view s' v = us' @ x # vs \<and> length us' < length us)"
    by (cases us) (auto simp: fifo_serve_def)
qed simp

abbreviation bucket_wait :: "nat \<Rightarrow> 'r ConnBucket \<Rightarrow> SignerHint \<times> unit \<Rightarrow> nat \<Rightarrow> nat" where
  "bucket_wait n \<equiv> tier_wait n (\<lambda>f u p. p)"

interpretation bucket: flow_wait bucket_pick total_depth bucket_ok bucket_view
    "\<lambda>b r. enqueue_signer b h r pf ms mcb" tier_new "(h, ())" "\<lambda>b. length (active b) \<le> n" "bucket_wait n" for h pf ms mcb n
proof
  fix s s' :: "'a ConnBucket" and r v us x vs
  assume "bucket_ok s" "length (active s) \<le> n" "bucket_pick s = Val (Some r, s')" "bucket_view s v = us @ x # vs"
  then show "us = [] \<and> r = x \<and> bucket_view s' v = vs \<or>
      (\<exists>us'. bucket_view s' v = us' @ x # vs \<and> bucket_wait n s' v (length us') < bucket_wait n s v (length us))"
    using fifo.tier_serve_wait [of s n r s' "fst v" "snd v" us x vs]
    unfolding bucket_ok_def bucket_view_def bucket_pick_def by (cases v) (simp del: tier_view.simps tier_wait.simps)
next
  fix s s' :: "'a ConnBucket" and r q v us x vs
  assume s: "bucket_ok s" and e: "enqueue_signer s h r pf ms mcb = (q, s')" and v: "bucket_view s v = us @ x # vs"
  show "bucket_wait n s' v (length us) = bucket_wait n s v (length us)"
  proof (cases "s' = s")
    case False
    then have "enqueue_routed s h ms MaxSigners r fifo_new (\<lambda>f r. fifo_push f r pf) = (q, s')"
      using e by (auto simp: enqueue_signer_def enqueue_leaf_def split: if_splits)
    then show ?thesis using fifo.tier_push_wait [of s h ms MaxSigners r pf q s' "fst v" "snd v" us x vs n] s v
      unfolding bucket_ok_def bucket_view_def by (cases v) (simp del: tier_view.simps tier_wait.simps)
  qed simp
qed

section \<open>Operations of the scheduler\<close>

lemma drr_inv_new: "drr_inv (drr_new c)"
  by (simp add: drr_inv_def drr_new_def tier_inv_new Let_def)

lemma outer_count_rejection [simp]: "outer (count_rejection x s) = outer s" "caps (count_rejection x s) = caps s"
  by (cases x; simp)+

lemma drr_enqueue_ok:
  assumes inv: "drr_inv s" and enq: "drr_enqueue s c h r = (Inr u, s')"
  shows "drr_inv s'" "drr_len s' = Suc (drr_len s)" "caps s' = caps s"
    "leaf s' c' h' = (if c' = c \<and> h' = h then leaf s c h @ [r] else leaf s c' h')"
    "active (outer s') = (if c \<in> set (active (outer s)) then active (outer s) else active (outer s) @ [c])"
proof -
  let ?push = "\<lambda>b r. enqueue_signer b h r (per_flow (caps s)) (max_signers (caps s)) (max_conn_backlog (caps s))"
  obtain o' where o': "enqueue_routed (outer s) c (max_flows (caps s)) MaxFlows r tier_new ?push = (Inr (), o')"
      "s' = s\<lparr>outer := o'\<rparr>"
    using enq by (auto simp: drr_enqueue_def split: if_splits prod.splits sum.splits Rejected.splits)
  note e = bucket.enqueue_routed_ok [OF inv [unfolded drr_inv_def] o'(1)]
  show "drr_inv s'" "drr_len s' = Suc (drr_len s)" "caps s' = caps s"
    "active (outer s') = (if c \<in> set (active (outer s)) then active (outer s) else active (outer s) @ [c])"
    using e o'(2) by (simp_all add: drr_inv_def drr_len_def)
  show "leaf s' c' h' = (if c' = c \<and> h' = h then leaf s c h @ [r] else leaf s c' h')"
    using e o'(2) by (auto simp: leaf_def simp del: tier_view.simps)
qed

lemma drr_enqueue_err:
  assumes inv: "drr_inv s" and enq: "drr_enqueue s c h r = (Inl r', s')"
  shows "r' = r \<and> outer s' = outer s \<and> caps s' = caps s"
proof (cases "global (caps s) \<le> total_depth (outer s)")
  case False
  let ?push = "\<lambda>b r. enqueue_signer b h r (per_flow (caps s)) (max_signers (caps s)) (max_conn_backlog (caps s))"
  obtain x o' where o': "enqueue_routed (outer s) c (max_flows (caps s)) MaxFlows r tier_new ?push = (Inl (Rejected x r'), o')"
      "s' = count_rejection x (s\<lparr>outer := o'\<rparr>)"
    using enq False by (auto simp: drr_enqueue_def split: prod.splits sum.splits Rejected.splits)
  then show ?thesis using bucket.enqueue_routed_err [OF inv [unfolded drr_inv_def] o'(1)] by simp
qed (use enq in \<open>auto simp: drr_enqueue_def\<close>)

lemma drr_pick_empty: "drr_inv s \<Longrightarrow> active (outer s) = [] \<Longrightarrow> drr_pick s = Val (None, s)"
  by (simp add: drr_pick_def tier_pick_def)

lemma drr_pick_some:
  assumes inv: "drr_inv s" and act: "active (outer s) = c # cs"
  shows "\<exists>r s' h. drr_pick s = Val (Some r, s') \<and> drr_inv s' \<and> drr_len s = Suc (drr_len s') \<and>
    leaf s c h = r # leaf s' c h \<and> (\<forall>c' h'. (c', h') \<noteq> (c, h) \<longrightarrow> leaf s' c' h' = leaf s c' h') \<and>
    (active (outer s') = cs @ [c] \<or> active (outer s') = cs)"
proof -
  obtain r o' v where p: "tier_pick bucket_pick total_depth (outer s) = Val (Some r, o')"
      "tier_inv bucket_ok total_depth o'" "total_depth (outer s) = Suc (total_depth o')"
      "tier_view bucket_view (outer s) (c, v) = r # tier_view bucket_view o' (c, v)"
      "\<forall>w. w \<noteq> (c, v) \<longrightarrow> tier_view bucket_view o' w = tier_view bucket_view (outer s) w"
      "active o' = (if c \<in> bt_keys (flows o') then cs @ [c] else cs)"
    using bucket.tier_pick_serves [OF inv [unfolded drr_inv_def] act] by blast
  obtain h where v: "v = (h, ())" by (cases v) auto
  show ?thesis using p unfolding v
    by (intro exI [of _ r] exI [of _ "s\<lparr>outer := o', dispatched := wsat_add (dispatched s) 1\<rparr>"] exI [of _ h])
      (auto simp: drr_pick_def drr_inv_def drr_len_def leaf_def simp del: tier_view.simps)
qed

section \<open>Sequences of operations\<close>

datatype 'r drr_op = OEnqueue ConnId SignerHint 'r | OPick

fun drr_step :: "'r DrrState \<Rightarrow> 'r drr_op \<Rightarrow> 'r DrrState rust" where
  "drr_step s (OEnqueue c h r) = Val (snd (drr_enqueue s c h r))"
| "drr_step s OPick = (case drr_pick s of Panic \<Rightarrow> Panic | Val (_, s') \<Rightarrow> Val s')"

fun drr_run :: "'r DrrState \<Rightarrow> 'r drr_op list \<Rightarrow> 'r DrrState rust" where
  "drr_run s [] = Val s"
| "drr_run s (op # ops) = (case drr_step s op of Panic \<Rightarrow> Panic | Val s' \<Rightarrow> drr_run s' ops)"

lemma drr_enqueue_active:
  assumes "drr_inv s"
  shows "drr_inv (snd (drr_enqueue s c h r)) \<and>
    (\<exists>zs. active (outer (snd (drr_enqueue s c h r))) = active (outer s) @ zs)"
proof (cases "drr_enqueue s c h r")
  case (Pair x s')
  then show ?thesis using assms drr_enqueue_ok [OF assms] drr_enqueue_err [OF assms]
    by (cases x) (auto simp: drr_inv_def)
qed

lemma drr_step_inv: "drr_inv s \<Longrightarrow> \<exists>s'. drr_step s op = Val s' \<and> drr_inv s'"
proof (cases op)
  case OPick
  assume "drr_inv s"
  then show ?thesis using OPick drr_pick_empty [of s] drr_pick_some [of s]
    by (cases "active (outer s)") fastforce+
qed (auto dest: drr_enqueue_active)

lemma drr_run_inv: "drr_inv s \<Longrightarrow> \<exists>s'. drr_run s ops = Val s' \<and> drr_inv s'"
proof (induction ops arbitrary: s)
  case (Cons op ops)
  then show ?case using drr_step_inv [of s op] by fastforce
qed simp

section \<open>Caps\<close>

lemma tier_pick_flows:
  assumes "tier_pick serve depth t = Val (Some r, t')" "bt_wf (flows t)"
  shows "\<exists>k ks e s'. active t = k # ks \<and> bt_get (flows t) k = Some e \<and> serve (store e) = Val (Some r, s') \<and>
    Suc (total_depth t') = total_depth t \<and> length (active t') \<le> length (active t) \<and>
    (\<forall>k' e'. bt_get (flows t') k' = Some e' \<longrightarrow>
      (k' = k \<and> store e' = s' \<or> bt_get (flows t) k' = Some e'))"
  using assms
  by (auto simp: tier_pick_def Let_def bt_get_remove split: list.splits option.splits if_splits rust.splits)

lemma enqueue_routed_flows:
  assumes "enqueue_routed t key mx rs r fresh push = (Inr u, t')"
  shows "\<exists>s s'. push s r = (Inr (), s') \<and> total_depth t' = Suc (total_depth t) \<and>
    (s = fresh \<and> length (flows t) < mx \<and> active t' = active t @ [key] \<or>
      (\<exists>e. bt_get (flows t) key = Some e \<and> s = store e \<and> active t' = active t)) \<and>
    (\<forall>k' e'. bt_get (flows t') k' = Some e' \<longrightarrow>
      (k' = key \<and> store e' = s' \<or> bt_get (flows t) k' = Some e'))"
  using assms
  by (fastforce simp: enqueue_routed_def entry_new_def split: option.splits if_splits prod.splits sum.splits)

lemma tier_active_length: "tier_inv ok depth t \<Longrightarrow> length (active t) = length (flows t)"
  by (metis bt_len_card distinct_card tier_inv_def)

definition bucket_within :: "Caps \<Rightarrow> 'r ConnBucket \<Rightarrow> bool" where
  "bucket_within c b \<longleftrightarrow> total_depth b \<le> max_conn_backlog c \<and> length (active b) \<le> max_signers c \<and>
     (\<forall>h f. bt_get (flows b) h = Some f \<longrightarrow> length (deque (store f)) \<le> per_flow c)"

definition within_caps :: "'r DrrState \<Rightarrow> bool" where
  "within_caps s \<longleftrightarrow> drr_len s \<le> global (caps s) \<and> length (active (outer s)) \<le> max_flows (caps s) \<and>
     (\<forall>c e. bt_get (flows (outer s)) c = Some e \<longrightarrow> bucket_within (caps s) (store e))"

lemma bucket_within_pick:
  assumes "bucket_pick b = Val (Some r, b')" "bucket_ok b" "bucket_within c b"
  shows "bucket_within c b'"
proof -
  obtain k ks e s' where k: "active b = k # ks" "bt_get (flows b) k = Some e"
      "fifo_serve (store e) = Val (Some r, s')" "Suc (total_depth b') = total_depth b"
      "length (active b') \<le> length (active b)"
      "\<forall>k' e'. bt_get (flows b') k' = Some e' \<longrightarrow>
        (k' = k \<and> store e' = s' \<or> bt_get (flows b) k' = Some e')"
    using tier_pick_flows [OF assms(1) [unfolded bucket_pick_def]] assms(2)
    by (auto simp: bucket_ok_def tier_inv_def)
  have "length (deque s') \<le> length (deque (store e))"
    using k(3) by (auto simp: fifo_serve_def split: list.splits)
  moreover have "length (deque (store e)) \<le> per_flow c"
    using k(2) assms(3) by (simp add: bucket_within_def)
  ultimately have "length (deque (store f)) \<le> per_flow c" if "bt_get (flows b') h = Some f" for h f
    using k(6) [rule_format, OF that] assms(3) by (auto simp: bucket_within_def)
  then show ?thesis using k(4,5) assms(3) by (simp add: bucket_within_def)
qed

lemma bucket_within_push:
  assumes "enqueue_signer b h r (per_flow c) (max_signers c) (max_conn_backlog c) = (Inr u, b')"
    and "bucket_ok b" "bucket_within c b"
  shows "bucket_within c b'"
proof -
  have d: "total_depth b < max_conn_backlog c"
    and enq: "enqueue_routed b h (max_signers c) MaxSigners r fifo_new (\<lambda>f r. fifo_push f r (per_flow c)) = (Inr u, b')"
    using assms(1) by (auto simp: enqueue_signer_def enqueue_leaf_def split: if_splits)
  obtain s s' where k: "fifo_push s r (per_flow c) = (Inr (), s')" "total_depth b' = Suc (total_depth b)"
      "s = fifo_new \<and> length (flows b) < max_signers c \<and> active b' = active b @ [h] \<or>
        (\<exists>e. bt_get (flows b) h = Some e \<and> s = store e \<and> active b' = active b)"
      "\<forall>k' e'. bt_get (flows b') k' = Some e' \<longrightarrow>
        (k' = h \<and> store e' = s' \<or> bt_get (flows b) k' = Some e')"
    using enqueue_routed_flows [OF enq] by blast
  have "length (deque s') \<le> per_flow c" using k(1) by (auto simp: fifo_push_def split: if_splits)
  moreover have "length (active b') \<le> max_signers c"
    using k(3) assms(2,3) tier_active_length [of "\<lambda>_. True" fifo_depth b]
    by (auto simp: bucket_ok_def bucket_within_def)
  ultimately show ?thesis using k(2,4) d assms(3) unfolding bucket_within_def by fastforce
qed

lemma within_caps_enqueue:
  assumes "drr_inv s" "within_caps s"
  shows "within_caps (snd (drr_enqueue s c h r))"
proof (cases "drr_enqueue s c h r")
  case (Pair x s')
  show ?thesis
  proof (cases x)
    case (Inl r')
    then show ?thesis using Pair drr_enqueue_err [OF assms(1)] assms(2)
      by (simp add: within_caps_def drr_len_def)
  next
    case (Inr u)
    let ?push = "\<lambda>b r. enqueue_signer b h r (per_flow (caps s)) (max_signers (caps s)) (max_conn_backlog (caps s))"
    obtain o' where g: "total_depth (outer s) < global (caps s)" "s' = s\<lparr>outer := o'\<rparr>"
        and o': "enqueue_routed (outer s) c (max_flows (caps s)) MaxFlows r tier_new ?push = (Inr (), o')"
      using Pair Inr by (auto simp: drr_enqueue_def split: if_splits prod.splits sum.splits Rejected.splits)
    obtain b b' where k: "?push b r = (Inr (), b')" "total_depth o' = Suc (total_depth (outer s))"
        "b = tier_new \<and> length (flows (outer s)) < max_flows (caps s) \<and> active o' = active (outer s) @ [c] \<or>
          (\<exists>e. bt_get (flows (outer s)) c = Some e \<and> b = store e \<and> active o' = active (outer s))"
        "\<forall>k' e'. bt_get (flows o') k' = Some e' \<longrightarrow>
          (k' = c \<and> store e' = b' \<or> bt_get (flows (outer s)) k' = Some e')"
      using enqueue_routed_flows [OF o'] by blast
    have "bucket_ok b \<and> bucket_within (caps s) b"
      using k(3) assms tier_inv_new [of "\<lambda>_. True" fifo_depth]
      by (auto simp: drr_inv_def tier_inv_def within_caps_def bucket_ok_def bucket_within_def tier_new_def)
    then have "bucket_within (caps s) b'" using bucket_within_push [OF k(1)] by blast
    moreover have "length (active o') \<le> max_flows (caps s)"
      using k(3) assms tier_active_length [of bucket_ok total_depth "outer s"]
      by (auto simp: drr_inv_def within_caps_def)
    ultimately show ?thesis using Pair k(2,4) g assms(2) by (auto simp: within_caps_def drr_len_def)
  qed
qed

lemma within_caps_pick:
  assumes "drr_inv s" "within_caps s" "drr_pick s = Val (x, s')"
  shows "within_caps s'"
proof (cases x)
  case None
  then show ?thesis using assms drr_pick_some [OF assms(1)] drr_pick_empty [OF assms(1)]
    by (cases "active (outer s)") auto
next
  case (Some r)
  then obtain o' where o': "tier_pick bucket_pick total_depth (outer s) = Val (Some r, o')"
      "outer s' = o'" "caps s' = caps s"
    using assms(3) by (auto simp: drr_pick_def split: rust.splits option.splits)
  have ti: "tier_inv bucket_ok total_depth (outer s)" using assms(1) by (simp add: drr_inv_def)
  obtain k ks e b' where k: "bt_get (flows (outer s)) k = Some e" "bucket_pick (store e) = Val (Some r, b')"
      "Suc (total_depth o') = total_depth (outer s)" "length (active o') \<le> length (active (outer s))"
      "\<forall>k' e'. bt_get (flows o') k' = Some e' \<longrightarrow>
        (k' = k \<and> store e' = b' \<or> bt_get (flows (outer s)) k' = Some e')"
    using tier_pick_flows [OF o'(1)] ti by (auto simp: tier_inv_def)
  have "bucket_within (caps s) b'"
    using bucket_within_pick [OF k(2)] ti assms(2) k(1) by (auto simp: tier_inv_def within_caps_def)
  then show ?thesis using k(3-5) o'(2,3) assms(2) by (auto simp: within_caps_def drr_len_def)
qed

lemma drr_run_within:
  assumes "drr_inv s" "within_caps s" "drr_run s ops = Val s'"
  shows "within_caps s' \<and> drr_inv s'"
  using assms
proof (induction ops arbitrary: s)
  case (Cons op ops)
  obtain s1 where s1: "drr_step s op = Val s1" "drr_inv s1" using drr_step_inv [OF Cons.prems(1)] by blast
  have "within_caps s1"
  proof (cases op)
    case (OEnqueue c h r)
    then show ?thesis using s1(1) within_caps_enqueue [OF Cons.prems(1,2), of c h r] by simp
  next
    case OPick
    then obtain x where "drr_pick s = Val (x, s1)"
      using s1(1) by (auto split: rust.splits prod.splits)
    then show ?thesis using within_caps_pick Cons.prems(1,2) by blast
  qed
  then show ?case using Cons s1 by simp
qed simp

lemma drr_enqueue_fifo:
  assumes "drr_inv s"
  shows "case drr_enqueue s c h r of
      (Inr _, s') \<Rightarrow> drr_inv s' \<and> leaf s' c h = leaf s c h @ [r] \<and>
        (\<forall>c' h'. (c', h') \<noteq> (c, h) \<longrightarrow> leaf s' c' h' = leaf s c' h')
    | (Inl r', s') \<Rightarrow> drr_inv s' \<and> r' = r \<and> (\<forall>c' h'. leaf s' c' h' = leaf s c' h')"
proof (cases "drr_enqueue s c h r")
  case (Pair x s')
  show ?thesis
  proof (cases x)
    case (Inl r')
    then show ?thesis using Pair assms drr_enqueue_err [OF assms, of c h r r' s']
      by (simp add: leaf_def drr_inv_def)
  next
    case (Inr u)
    then show ?thesis using Pair drr_enqueue_ok [OF assms, of c h r u s'] by auto
  qed
qed

lemma drr_pick_fifo:
  assumes "drr_inv s"
  shows "(\<exists>r s' c h. drr_pick s = Val (Some r, s') \<and> drr_inv s' \<and> leaf s c h = r # leaf s' c h \<and>
      (\<forall>c' h'. (c', h') \<noteq> (c, h) \<longrightarrow> leaf s' c' h' = leaf s c' h')) \<or>
    drr_pick s = Val (None, s) \<and> (\<forall>c h. leaf s c h = [])"
proof (cases "active (outer s)")
  case Nil
  then have "flows (outer s) = []"
    using assms by (simp add: drr_inv_def tier_inv_def bt_keys_def)
  then show ?thesis using drr_pick_empty [OF assms Nil] by (simp add: leaf_def)
next
  case (Cons k ks)
  then show ?thesis using drr_pick_some [OF assms Cons] by blast
qed

section \<open>Properties\<close>

text \<open>
  C6: From a fresh scheduler, no sequence of enqueues and picks ever panics, and in every state
  reached the scheduler's documented invariants hold (counters match, the round-robin list is exactly
  the set of non-empty flows, no deficit is banked) and every cap holds: the global depth, the number
  of connections, each connection's backlog and number of signers, and each leaf's backlog.
\<close>

theorem drr_safe:
  "\<exists>s'. drr_run (drr_new c) ops = Val s' \<and> drr_inv s' \<and> within_caps s'"
proof -
  have "within_caps (drr_new c)"
    by (simp add: within_caps_def drr_new_def tier_new_def drr_len_def Let_def)
  then show ?thesis
    using drr_run_inv [OF drr_inv_new, of c ops] drr_run_within [OF drr_inv_new, of c ops] by blast
qed

text \<open>
  C7: Requests are neither lost, duplicated nor reordered within a flow: an accepted enqueue appends
  the request to the queue of its (connection, signer) pair and touches no other queue, a refused one
  hands the same request back and touches none, and a pick removes the oldest request of exactly one
  queue, or finds every queue empty.
\<close>

theorem drr_fifo:
  assumes "drr_inv s"
  shows "(case drr_enqueue s c h r of
      (Inr _, s') \<Rightarrow> drr_inv s' \<and> leaf s' c h = leaf s c h @ [r] \<and>
        (\<forall>c' h'. (c', h') \<noteq> (c, h) \<longrightarrow> leaf s' c' h' = leaf s c' h')
    | (Inl r', s') \<Rightarrow> drr_inv s' \<and> r' = r \<and> (\<forall>c' h'. leaf s' c' h' = leaf s c' h')) \<and>
    ((\<exists>r s' c h. drr_pick s = Val (Some r, s') \<and> drr_inv s' \<and> leaf s c h = r # leaf s' c h \<and>
        (\<forall>c' h'. (c', h') \<noteq> (c, h) \<longrightarrow> leaf s' c' h' = leaf s c' h')) \<or>
      drr_pick s = Val (None, s) \<and> (\<forall>c h. leaf s c h = []))"
  by (rule conjI [OF drr_enqueue_fifo [OF assms] drr_pick_fifo [OF assms]])

theorem drr_fifo_witness:
  "\<exists>s. drr_inv (s :: nat DrrState) \<and> (case drr_enqueue s 7 0 10 of
     (Inr _, s') \<Rightarrow> leaf s' 7 0 = leaf s 7 0 @ [10] | (Inl r', s') \<Rightarrow> r' = 10)"
  using drr_fifo [OF drr_inv_new [of "caps_new 1 1 1"], where c = 7 and h = 0 and r = "10 :: nat"] drr_inv_new
  by (intro exI [of _ "drr_new (caps_new 1 1 1)"]) (auto split: prod.splits sum.splits)

text \<open>The waiting bound of the request at position \<open>p\<close> of a leaf.\<close>

abbreviation drr_wait :: "'r DrrState \<Rightarrow> ConnId \<Rightarrow> SignerHint \<Rightarrow> nat \<Rightarrow> nat" where
  "drr_wait s c h \<equiv> tier_wait (max_flows (caps s)) (bucket_wait (max_signers (caps s))) (outer s) (c, (h, ()))"

lemma drr_wait_pick:
  assumes "drr_inv s" "within_caps s" "drr_pick s = Val (Some r, s')" "leaf s c h = us @ x # vs"
  shows "us = [] \<and> r = x \<and> leaf s' c h = vs \<or> (\<exists>us'. leaf s' c h = us' @ x # vs \<and> drr_wait s' c h (length us') < drr_wait s c h (length us))"
proof -
  have p: "tier_pick bucket_pick total_depth (outer s) = Val (Some r, outer s')" "caps s' = caps s"
    using assms(3) by (auto simp: drr_pick_def split: rust.splits prod.splits option.splits)
  have f: "length (active (store e)) \<le> max_signers (caps s)" if "bt_get (flows (outer s)) k = Some e" for k e
    using that assms(2) by (auto simp: within_caps_def bucket_within_def)
  show ?thesis
    using bucket.tier_serve_wait [OF assms(1) [unfolded drr_inv_def] _ f p(1), where n = "max_flows (caps s)" and k = c and v = "(h, ())" and us = us and x = x and vs = vs] assms(2,4) p(2)
    by (simp add: leaf_def within_caps_def del: tier_view.simps tier_wait.simps)
qed

lemma drr_wait_enqueue:
  assumes "drr_inv s" "leaf s c h = us @ x # vs"
  shows "\<exists>zs. leaf (snd (drr_enqueue s c' h' r)) c h = us @ x # vs @ zs \<and>
    drr_wait (snd (drr_enqueue s c' h' r)) c h (length us) = drr_wait s c h (length us)"
proof (cases "drr_enqueue s c' h' r")
  case (Pair q s')
  show ?thesis
  proof (cases q)
    case (Inl r')
    then show ?thesis using drr_enqueue_err [OF assms(1) Pair [unfolded Inl]] Pair assms(2)
      by (auto simp: leaf_def simp del: tier_view.simps tier_wait.simps)
  next
    case (Inr u)
    note ok = drr_enqueue_ok [OF assms(1) Pair [unfolded Inr]]
    obtain o' where "enqueue_routed (outer s) c' (max_flows (caps s)) MaxFlows r tier_new
        (\<lambda>b r. enqueue_signer b h' r (per_flow (caps s)) (max_signers (caps s)) (max_conn_backlog (caps s))) = (Inr (), o')"
        "s' = s\<lparr>outer := o'\<rparr>"
      using Pair Inr by (auto simp: drr_enqueue_def split: if_splits prod.splits sum.splits Rejected.splits)
    from bucket.tier_push_wait [OF assms(1) [unfolded drr_inv_def] this(1)] this(2) assms(2)
    have "drr_wait s' c h (length us) = drr_wait s c h (length us)"
      by (simp add: leaf_def del: tier_view.simps tier_wait.simps)
    then show ?thesis using ok(4) [of c h] assms(2) Pair by auto
  qed
qed

lemma drr_served:
  assumes "drr_inv s" "within_caps s" "leaf s c h = us @ x # vs" "drr_wait s c h (length us) < count_list ops OPick"
  shows "\<exists>ops1 ops2 s' s'' zs. ops = ops1 @ OPick # ops2 \<and> drr_run s ops1 = Val s' \<and> leaf s' c h = x # vs @ zs \<and>
    drr_pick s' = Val (Some x, s'') \<and> leaf s'' c h = vs @ zs"
  using assms
proof (induction ops arbitrary: s us vs)
  case (Cons op ops)
  show ?case
  proof (cases op)
    case (OEnqueue c' h' r)
    let ?s = "snd (drr_enqueue s c' h' r)"
    obtain zs where z: "leaf ?s c h = us @ x # vs @ zs" "drr_wait ?s c h (length us) = drr_wait s c h (length us)"
      using drr_wait_enqueue [OF Cons.prems(1,3)] by blast
    have "drr_wait ?s c h (length us) < count_list ops OPick" using z(2) Cons.prems(4) OEnqueue by simp
    from Cons.IH [OF _ within_caps_enqueue [OF Cons.prems(1,2)] z(1) this] drr_enqueue_active [OF Cons.prems(1), of c' h' r]
    obtain ops1 ops2 s' s'' zs' where i: "ops = ops1 @ OPick # ops2" "drr_run ?s ops1 = Val s'" "leaf s' c h = x # (vs @ zs) @ zs'"
      "drr_pick s' = Val (Some x, s'')" "leaf s'' c h = (vs @ zs) @ zs'" by blast
    then show ?thesis using OEnqueue
      by (intro exI [of _ "op # ops1"] exI [of _ ops2] exI [of _ s'] exI [of _ s''] exI [of _ "zs @ zs'"]) simp
  next
    case OPick
    obtain r s1 where p: "drr_pick s = Val (Some r, s1)" "drr_inv s1"
      using drr_pick_fifo [OF Cons.prems(1)] Cons.prems(3) by fastforce
    from drr_wait_pick [OF Cons.prems(1,2) p(1) Cons.prems(3)]
    consider "us = []" "r = x" "leaf s1 c h = vs"
      | us' where "leaf s1 c h = us' @ x # vs" "drr_wait s1 c h (length us') < drr_wait s c h (length us)" by blast
    then show ?thesis
    proof cases
      case 1
      then show ?thesis using OPick p Cons.prems(3)
        by (intro exI [of _ "[]"] exI [of _ ops] exI [of _ s] exI [of _ s1] exI [of _ "[]"]) simp
    next
      case 2
      have "drr_wait s1 c h (length us') < count_list ops OPick" using 2(2) Cons.prems(4) OPick by simp
      from Cons.IH [OF p(2) within_caps_pick [OF Cons.prems(1,2) p(1)] 2(1) this]
      obtain ops1 ops2 s' s'' zs where "ops = ops1 @ OPick # ops2" "drr_run s1 ops1 = Val s'" "leaf s' c h = x # vs @ zs"
        "drr_pick s' = Val (Some x, s'')" "leaf s'' c h = vs @ zs" by blast
      then show ?thesis using OPick p(1)
        by (intro exI [of _ "op # ops1"] exI [of _ ops2] exI [of _ s'] exI [of _ s''] exI [of _ zs]) simp
    qed
  qed
qed simp

lemma tier_wait_bound:
  assumes "tier_inv ok depth t" "bt_get (flows t) k = Some e" "length (active t) \<le> n" "w (store e) v p < m"
  shows "tier_wait n w t (k, v) p < n * m"
proof -
  have "k \<in> set (active t)" using assms(1) bt_get_Some_key [OF assms(2)] by (simp add: tier_inv_def)
  then have "place (active t) k < n" using place_less [of k "active t"] assms(3) by simp
  moreover have "n * Suc (w (store e) v p) \<le> n * m" using assms(4) by (intro mult_le_mono2) simp
  ultimately show ?thesis using assms(2) by simp
qed

lemma drr_wait_bound:
  assumes "drr_inv s" "within_caps s" "leaf s c h = us @ x # vs"
  shows "drr_wait s c h (length us) < max_flows (caps s) * (max_signers (caps s) * Suc (length us))"
proof -
  obtain e where e: "bt_get (flows (outer s)) c = Some e" "bucket_view (store e) (h, ()) = us @ x # vs"
    using assms(3) by (cases "bt_get (flows (outer s)) c") (auto simp: leaf_def)
  obtain f where f: "bt_get (flows (store e)) h = Some f"
    using e(2) by (cases "bt_get (flows (store e)) h") (auto simp: bucket_view_def)
  have b: "bucket_ok (store e)" "length (active (store e)) \<le> max_signers (caps s)" "length (active (outer s)) \<le> max_flows (caps s)"
    using assms(1,2) e(1) by (auto simp: drr_inv_def tier_inv_def within_caps_def bucket_within_def)
  have "bucket_wait (max_signers (caps s)) (store e) (h, ()) (length us) < max_signers (caps s) * Suc (length us)"
    by (rule tier_wait_bound [OF b(1) [unfolded bucket_ok_def] f b(2)]) simp
  then show ?thesis by (rule tier_wait_bound [OF assms(1) [unfolded drr_inv_def] e(1) b(3)])
qed

text \<open>
  C5: No request starves, whatever else is sent.  Take any request in the scheduler, with \<open>length us\<close>
  requests before it in the queue of its connection and signer hint.  In every continuation with
  \<open>max_flows * max_signers * (length us + 1)\<close> picks, and any enqueues between them, one of these picks
  serves that request, when it is at the head of its queue with the same requests behind it as before
  and possibly later ones.
\<close>

theorem drr_no_starvation:
  assumes "drr_inv s" "within_caps s" "leaf s c h = us @ x # vs"
    and "max_flows (caps s) * (max_signers (caps s) * Suc (length us)) \<le> count_list ops OPick"
  shows "\<exists>ops1 ops2 s' s'' zs. ops = ops1 @ OPick # ops2 \<and> drr_run s ops1 = Val s' \<and> leaf s' c h = x # vs @ zs \<and>
    drr_pick s' = Val (Some x, s'') \<and> leaf s'' c h = vs @ zs"
  using drr_served [OF assms(1-3)] drr_wait_bound [OF assms(1-3)] assms(4) by (meson order.strict_trans2)

definition one_request :: "'r \<Rightarrow> 'r ConnBucket FlowEntry" where
  "one_request r = entry_new \<lparr>flows = [(0, entry_new \<lparr>deque = [r]\<rparr>)], active = [0], total_depth = 1\<rparr>"

definition two_connections :: "nat DrrState" where
  "two_connections = (drr_new (caps_new 4 4 4))\<lparr>outer :=
     \<lparr>flows = [(7, one_request 10), (8, one_request 11)], active = [7, 8], total_depth = 2\<rparr>\<rparr>"

theorem drr_no_starvation_witness:
  "\<exists>ops1 ops2 s' s'' zs. OEnqueue 7 0 12 # replicate 1024 OPick = ops1 @ OPick # ops2 \<and>
     drr_run two_connections ops1 = Val s' \<and> leaf s' 8 0 = 11 # zs \<and> drr_pick s' = Val (Some 11, s'') \<and> leaf s'' 8 0 = zs"
proof -
  have "bucket_ok (store (one_request r))" for r :: nat
    by (simp add: one_request_def entry_new_def bucket_ok_def tier_inv_def fifo_depth_def)
  then have inv: "drr_inv two_connections"
    by (auto simp: two_connections_def drr_inv_def tier_inv_def one_request_def entry_new_def
        split: if_splits)
  have c: "caps two_connections = \<lparr>per_flow = 4, max_flows = 4, max_signers = 256, max_conn_backlog = 4, global = 4\<rparr>"
    by (simp add: two_connections_def drr_new_def caps_new_def with_max_signers_def with_max_conn_backlog_def Let_def
        HARD_MAX_QUEUE_DEPTH_def HARD_MAX_FLOWS_def DEFAULT_MAX_SIGNERS_PER_CONN_def HARD_MAX_SIGNERS_PER_CONN_def)
  have w: "within_caps two_connections" unfolding within_caps_def c
    by (auto simp: two_connections_def drr_len_def one_request_def entry_new_def bucket_within_def split: if_splits)
  have l: "leaf two_connections 8 0 = [] @ 11 # []"
    by (simp add: leaf_def two_connections_def bucket_view_def one_request_def entry_new_def)
  have "count_list (replicate k (OPick :: nat drr_op)) OPick = k" for k by (induction k) simp_all
  then have n: "max_flows (caps two_connections) * (max_signers (caps two_connections) * Suc (length [])) \<le>
      count_list (OEnqueue 7 0 (12 :: nat) # replicate 1024 OPick) OPick" by (simp add: c)
  show ?thesis using drr_no_starvation [OF inv w l n] by auto
qed

end
