(* ===== verification/Game.thy ===== *)
theory Game
  imports Prelude
begin

text \<open>
  The bisection game of the fault-proof observer
  (\<open>knomosis-faultproof-observer/src/game.rs\<close>): the disputed range, the game state with its
  transitions and errors, and the settlement.  The lemmas show that the range halves in every
  round, that the depth cap is never what stops a game, and that a game in progress always offers
  a move.
\<close>

section \<open>Data\<close>

definition MAX_BISECTION_DEPTH :: u32 where
  "MAX_BISECTION_DEPTH = 64"

type_synonym LogIndex = u64
type_synonym StateCommit = bytes

record Claim =
  claim_idx :: LogIndex
  claim_commit :: StateCommit

record DisputedRange =
  low :: Claim
  high :: Claim

text \<open>\<open>u128::midpoint\<close> is the floor of the average, computed without overflow.\<close>

definition u128_midpoint :: "u128 \<Rightarrow> u128 \<Rightarrow> u128" where
  "u128_midpoint a b = of_nat ((unat a + unat b) div 2)"

definition midpoint_idx :: "DisputedRange \<Rightarrow> LogIndex" where
  "midpoint_idx r =
     (let mid = u128_midpoint (ucast (claim_idx (low r))) (ucast (claim_idx (high r)))
      in if mid \<le> ucast (wmax :: u64) then ucast mid else wmax)"

definition is_single_step :: "DisputedRange \<Rightarrow> bool" where
  "is_single_step r \<longleftrightarrow> claim_idx (high r) = wsat_add (claim_idx (low r)) 1"

definition width :: "DisputedRange \<Rightarrow> u64" where
  "width r = wsat_sub (claim_idx (high r)) (claim_idx (low r))"

datatype TurnSide = Sequencer | Challenger

fun flip :: "TurnSide \<Rightarrow> TurnSide" where
  "flip Sequencer = Challenger"
| "flip Challenger = Sequencer"

datatype GameStatus = InProgress | SequencerWon | ChallengerWon | TimedOutSequencer | TimedOutChallenger

definition is_in_progress :: "GameStatus \<Rightarrow> bool" where
  "is_in_progress s \<longleftrightarrow> s = InProgress"

definition is_terminal :: "GameStatus \<Rightarrow> bool" where
  "is_terminal s \<longleftrightarrow> \<not> is_in_progress s"

record GameState =
  sequencer :: u64
  challenger :: u64
  disputed :: DisputedRange
  pending_midpoint :: "Claim option"
  game_depth :: u32
  turn :: TurnSide
  sequencer_bond :: u128
  challenger_bond :: u128
  game_status :: GameStatus
  game_deployment_id :: bytes
  actions_root :: bytes

datatype GameTransition =
    SubmitMidpoint StateCommit
  | RespondAgree
  | RespondDisagree
  | TerminateOnSingleStep StateCommit
  | TimeoutLoss

datatype GameError =
    GameAlreadyEnded
  | WrongTurn
  | MidpointOutOfRange
  | MidpointDuringResponse
  | ResponseDuringSubmit
  | BisectionDepthExceeded
  | RangeNotSingleStep
  | TerminationDuringBisection
  | InvalidSettlement

section \<open>Transitions\<close>

definition apply_submit_midpoint :: "GameState \<Rightarrow> StateCommit \<Rightarrow> GameError + GameState" where
  "apply_submit_midpoint gs c =
     (if \<not> is_in_progress (game_status gs) then Inl GameAlreadyEnded
      else if pending_midpoint gs \<noteq> None then Inl MidpointDuringResponse
      else if MAX_BISECTION_DEPTH \<le> game_depth gs then Inl BisectionDepthExceeded
      else let mid_idx = midpoint_idx (disputed gs) in
        if mid_idx \<le> claim_idx (low (disputed gs)) \<or> claim_idx (high (disputed gs)) \<le> mid_idx
        then Inl MidpointOutOfRange
        else Inr (gs \<lparr> pending_midpoint := Some \<lparr>claim_idx = mid_idx, claim_commit = c\<rparr>,
                        turn := flip (turn gs) \<rparr>))"

definition apply_respond :: "GameState \<Rightarrow> bool \<Rightarrow> GameError + GameState" where
  "apply_respond gs agree =
     (if \<not> is_in_progress (game_status gs) then Inl GameAlreadyEnded
      else if MAX_BISECTION_DEPTH \<le> game_depth gs then Inl BisectionDepthExceeded
      else res_bind (ok_or (pending_midpoint gs) ResponseDuringSubmit) (\<lambda>mp.
        let new_range = (if agree then \<lparr>low = mp, high = high (disputed gs)\<rparr>
                         else \<lparr>low = low (disputed gs), high = mp\<rparr>)
        in Inr (gs \<lparr> disputed := new_range, pending_midpoint := None,
                      game_depth := wsat_add (game_depth gs) 1, turn := flip (turn gs) \<rparr>)))"

definition apply_terminate_on_single_step :: "GameState \<Rightarrow> GameError + GameState" where
  "apply_terminate_on_single_step gs =
     (if \<not> is_in_progress (game_status gs) then Inl GameAlreadyEnded
      else if \<not> is_single_step (disputed gs) then Inl RangeNotSingleStep
      else Inr gs)"

definition apply_timeout :: "GameState \<Rightarrow> GameError + GameState" where
  "apply_timeout gs =
     (if \<not> is_in_progress (game_status gs) then Inl GameAlreadyEnded
      else Inr (gs \<lparr> game_status :=
        (case turn gs of Sequencer \<Rightarrow> TimedOutSequencer | Challenger \<Rightarrow> TimedOutChallenger) \<rparr>))"

fun apply_transition :: "GameState \<Rightarrow> GameTransition \<Rightarrow> GameError + GameState" where
  "apply_transition gs (SubmitMidpoint c) = apply_submit_midpoint gs c"
| "apply_transition gs RespondAgree = apply_respond gs True"
| "apply_transition gs RespondDisagree = apply_respond gs False"
| "apply_transition gs (TerminateOnSingleStep c) = apply_terminate_on_single_step gs"
| "apply_transition gs TimeoutLoss = apply_timeout gs"

definition apply_settlement :: "GameState \<Rightarrow> GameStatus \<Rightarrow> GameError + GameState" where
  "apply_settlement gs final =
     (if \<not> is_in_progress (game_status gs) then Inl GameAlreadyEnded
      else if is_in_progress final then Inl InvalidSettlement
      else Inr (gs \<lparr> game_status := final \<rparr>))"

section \<open>The arithmetic of a round\<close>

abbreviation lo :: "DisputedRange \<Rightarrow> nat" where "lo r \<equiv> unat (claim_idx (low r))"
abbreviation hi :: "DisputedRange \<Rightarrow> nat" where "hi r \<equiv> unat (claim_idx (high r))"

lemma unat_midpoint: "unat (midpoint_idx r) = (lo r + hi r) div 2"
proof -
  have b: "lo r < 2 ^ 64" "hi r < 2 ^ 64"
    using unat_lt [of "claim_idx (low r)"] unat_lt [of "claim_idx (high r)"] by simp_all
  then have s: "(lo r + hi r) div 2 < 2 ^ 64" by simp
  let ?m = "u128_midpoint (ucast (claim_idx (low r))) (ucast (claim_idx (high r)))"
  have m: "unat ?m = (lo r + hi r) div 2"
    unfolding u128_midpoint_def using s by (simp add: unat_ucast_up unat_of_nat)
  then have "?m \<le> ucast (wmax :: u64)"
    using s by (simp add: word_le_nat_alt unat_ucast_up unat_wmax)
  then show ?thesis
    unfolding midpoint_idx_def using m s by (simp add: Let_def unsigned_ucast_eq take_bit_nat_eq_self)
qed

lemma unat_width: "unat (width r) = hi r - lo r"
  by (simp add: width_def unat_wsat_sub)

lemma single_step_iff: "lo r < hi r \<Longrightarrow> is_single_step r \<longleftrightarrow> hi r = lo r + 1"
  using unat_lt [of "claim_idx (high r)"] unat_lt [of "claim_idx (low r)"]
  by (auto simp: is_single_step_def word_unat_eq_iff unat_wsat_add)

text \<open>Saturation makes the one empty range at the top of the index space count as single-step.\<close>

lemma single_step_empty_range: "lo r = hi r \<Longrightarrow> is_single_step r \<longleftrightarrow> lo r = 2 ^ 64 - 1"
  using unat_lt [of "claim_idx (high r)"]
  by (auto simp: is_single_step_def word_unat_eq_iff unat_wsat_add)

lemma midpoint_between:
  "lo r + 1 < hi r \<longleftrightarrow> lo r < unat (midpoint_idx r) \<and> unat (midpoint_idx r) < hi r"
  by (auto simp: unat_midpoint)

section \<open>The bisection invariant\<close>

text \<open>
  With \<open>w\<close> the width of the range the game was opened with: the current range is non-empty, every
  completed round has halved it, and a pending midpoint is the canonical one, strictly inside.
\<close>

definition bisection_inv :: "nat \<Rightarrow> GameState \<Rightarrow> bool" where
  "bisection_inv w gs \<longleftrightarrow> (let r = disputed gs; d = unat (game_depth gs) in
     lo r < hi r \<and> (hi r - lo r - 1) * 2 ^ d < w \<and> 2 ^ d < 2 * w \<and>
     (\<forall>m. pending_midpoint gs = Some m \<longrightarrow> claim_idx m = midpoint_idx r \<and> lo r + 1 < hi r))"

definition opened :: "GameState \<Rightarrow> bool" where
  "opened gs \<longleftrightarrow> game_status gs = InProgress \<and> lo (disputed gs) < hi (disputed gs) \<and>
     game_depth gs = 0 \<and> pending_midpoint gs = None"

lemma opened_inv: "opened gs \<Longrightarrow> bisection_inv (unat (width (disputed gs))) gs"
  by (auto simp: opened_def bisection_inv_def Let_def unat_width)

text \<open>As long as there is something to bisect, the depth is below the cap.\<close>

lemma below_cap:
  assumes "bisection_inv w gs" "w < 2 ^ 64" "lo (disputed gs) + 1 < hi (disputed gs)"
  shows "game_depth gs < MAX_BISECTION_DEPTH" and "2 ^ unat (game_depth gs) < w"
proof -
  let ?r = "disputed gs" and ?d = "unat (game_depth gs)"
  have "1 * 2 ^ ?d \<le> (hi ?r - lo ?r - 1) * (2 :: nat) ^ ?d"
    using assms(3) by (intro mult_right_mono) auto
  also have "\<dots> < w" using assms(1) by (simp add: bisection_inv_def Let_def)
  finally show lt: "2 ^ ?d < w" by simp
  then have "(2 :: nat) ^ ?d < 2 ^ 64" using assms(2) by linarith
  then have "?d < 64" by (rule power_less_imp_less_exp [rotated]) simp
  then show "game_depth gs < MAX_BISECTION_DEPTH"
    by (simp add: MAX_BISECTION_DEPTH_def word_less_nat_alt)
qed

lemma submit_legal:
  assumes "bisection_inv w gs" "w < 2 ^ 64" "game_status gs = InProgress"
    "pending_midpoint gs = None" "\<not> is_single_step (disputed gs)"
  shows "apply_submit_midpoint gs c =
    Inr (gs \<lparr> pending_midpoint := Some \<lparr>claim_idx = midpoint_idx (disputed gs), claim_commit = c\<rparr>,
              turn := flip (turn gs) \<rparr>)"
proof -
  have r: "lo (disputed gs) + 1 < hi (disputed gs)"
    using assms(1,5) single_step_iff [of "disputed gs"] by (auto simp: bisection_inv_def Let_def)
  with below_cap(1) [OF assms(1,2)] midpoint_between [of "disputed gs"] assms(3,4) show ?thesis
    by (simp add: apply_submit_midpoint_def Let_def is_in_progress_def word_less_nat_alt word_le_nat_alt)
qed

lemma respond_legal:
  assumes "bisection_inv w gs" "w < 2 ^ 64" "game_status gs = InProgress"
    "pending_midpoint gs = Some mp"
  shows "apply_respond gs agree =
    Inr (gs \<lparr> disputed := (if agree then \<lparr>low = mp, high = high (disputed gs)\<rparr>
                            else \<lparr>low = low (disputed gs), high = mp\<rparr>),
              pending_midpoint := None, game_depth := wsat_add (game_depth gs) 1,
              turn := flip (turn gs) \<rparr>)"
proof -
  have "game_depth gs < MAX_BISECTION_DEPTH"
    using assms(1,4) by (intro below_cap(1) [OF assms(1,2)]) (auto simp: bisection_inv_def Let_def)
  with assms(3,4) show ?thesis
    by (simp add: apply_respond_def Let_def is_in_progress_def)
qed

lemma half_width:
  fixes l h d w :: nat
  assumes "(h - l - 1) * 2 ^ d < w" "l + 1 < h"
  shows "((l + h) div 2 - l - 1) * 2 ^ (d + 1) < w" and "(h - (l + h) div 2 - 1) * 2 ^ (d + 1) < w"
proof -
  have half: "k * 2 ^ (d + 1) < w" if "k * 2 \<le> h - l - 1" for k
  proof -
    have "k * 2 ^ (d + 1) = (k * 2) * 2 ^ d" by simp
    also have "\<dots> \<le> (h - l - 1) * 2 ^ d" using that by (rule mult_le_mono1)
    finally show ?thesis using assms(1) by linarith
  qed
  show "((l + h) div 2 - l - 1) * 2 ^ (d + 1) < w" and "(h - (l + h) div 2 - 1) * 2 ^ (d + 1) < w"
    using assms(2) by (intro half; simp)+
qed

lemma respond_inv:
  assumes inv: "bisection_inv w gs" and w: "w < 2 ^ 64" and st: "game_status gs = InProgress"
    and mp: "pending_midpoint gs = Some mp" and r: "apply_respond gs agree = Inr gs'"
  shows "bisection_inv w gs'" and "unat (game_depth gs') = unat (game_depth gs) + 1"
proof -
  let ?r = "disputed gs" and ?d = "unat (game_depth gs)"
  have i: "claim_idx mp = midpoint_idx ?r" "lo ?r + 1 < hi ?r" "(hi ?r - lo ?r - 1) * 2 ^ ?d < w"
    using inv mp by (auto simp: bisection_inv_def Let_def)
  have "?d < 64" "2 ^ ?d < w"
    using below_cap [OF inv w i(2)] by (simp_all add: MAX_BISECTION_DEPTH_def word_less_nat_alt)
  then have d: "unat (wsat_add (game_depth gs) 1) = ?d + 1" "2 ^ (?d + 1) < 2 * w"
    by (simp_all add: unat_wsat_add)
  have g': "gs' = gs \<lparr> disputed := (if agree then \<lparr>low = mp, high = high (disputed gs)\<rparr>
                            else \<lparr>low = low (disputed gs), high = mp\<rparr>),
              pending_midpoint := None, game_depth := wsat_add (game_depth gs) 1,
              turn := flip (turn gs) \<rparr>"
    using r respond_legal [OF inv w st mp] by simp
  show "unat (game_depth gs') = ?d + 1" by (simp add: g' d)
  show "bisection_inv w gs'"
    using half_width [OF i(3,2)] midpoint_between [of ?r] i(2) d
    by (simp add: bisection_inv_def Let_def g' i(1) unat_midpoint)
qed

text \<open>A sequence of transitions, stopping at the first illegal one.\<close>

fun play :: "GameState \<Rightarrow> GameTransition list \<Rightarrow> GameError + GameState" where
  "play gs [] = Inr gs"
| "play gs (t # ts) = res_bind (apply_transition gs t) (\<lambda>gs'. play gs' ts)"

fun bisects :: "GameTransition \<Rightarrow> bool" where
  "bisects (SubmitMidpoint c) = True"
| "bisects RespondAgree = True"
| "bisects RespondDisagree = True"
| "bisects _ = False"

definition rounds :: "GameState \<Rightarrow> nat" where
  "rounds gs = 2 * unat (game_depth gs) + (if pending_midpoint gs = None then 0 else 1)"

lemma transition_in_progress: "apply_transition gs t = Inr gs' \<Longrightarrow> game_status gs = InProgress"
  by (cases t) (auto simp: apply_submit_midpoint_def apply_respond_def is_in_progress_def
      apply_terminate_on_single_step_def apply_timeout_def split: if_splits)

lemma ended_rejects: "game_status gs \<noteq> InProgress \<Longrightarrow> apply_transition gs t = Inl GameAlreadyEnded"
  by (cases t) (auto simp: apply_submit_midpoint_def apply_respond_def is_in_progress_def
      apply_terminate_on_single_step_def apply_timeout_def)

lemma submit_inv:
  assumes "bisection_inv w gs" "apply_submit_midpoint gs c = Inr gs'"
  shows "bisection_inv w gs'" "game_depth gs' = game_depth gs"
    "pending_midpoint gs = None" "pending_midpoint gs' \<noteq> None"
  using assms midpoint_between [of "disputed gs"]
  by (auto simp: apply_submit_midpoint_def bisection_inv_def Let_def word_le_nat_alt split: if_splits)

lemma respond_pending:
  "apply_respond gs b = Inr gs' \<Longrightarrow> pending_midpoint gs \<noteq> None \<and> pending_midpoint gs' = None"
  by (auto simp: apply_respond_def Let_def res_bind_Inr_iff split: if_splits)

lemma status_frame:
  "bisection_inv w (gs \<lparr> game_status := s \<rparr>) = bisection_inv w gs"
  "rounds (gs \<lparr> game_status := s \<rparr>) = rounds gs"
  by (simp_all add: bisection_inv_def rounds_def)

lemma transition_inv:
  assumes inv: "bisection_inv w gs" and w: "w < 2 ^ 64" and t: "apply_transition gs t = Inr gs'"
  shows "bisection_inv w gs' \<and> rounds gs' = rounds gs + (if bisects t then 1 else 0)"
proof -
  note st = transition_in_progress [OF t]
  have resp: "bisection_inv w gs' \<and> rounds gs' = rounds gs + 1" if "apply_respond gs b = Inr gs'" for b
    using respond_pending [OF that] respond_inv [OF inv w st _ that] by (auto simp: rounds_def)
  show ?thesis
  proof (cases t)
    case (SubmitMidpoint c)
    with t submit_inv [OF inv] show ?thesis by (simp add: rounds_def)
  next
    case (TerminateOnSingleStep c)
    with t inv show ?thesis by (simp add: apply_terminate_on_single_step_def split: if_splits)
  next
    case TimeoutLoss
    with t obtain s where "gs' = gs \<lparr> game_status := s \<rparr>"
      by (auto simp: apply_timeout_def split: if_splits)
    with inv TimeoutLoss show ?thesis by (simp add: status_frame)
  qed (use t resp in auto)
qed

lemma play_inv:
  assumes "w < 2 ^ 64" "play gs ts = Inr gs'" "bisection_inv w gs"
  shows "bisection_inv w gs' \<and> rounds gs' = rounds gs + length (filter bisects ts)"
  using assms(2,3)
proof (induction ts arbitrary: gs)
  case (Cons t ts)
  then obtain g1 where g1: "apply_transition gs t = Inr g1" "play g1 ts = Inr gs'"
    by (auto simp: res_bind_Inr_iff)
  from transition_inv [OF Cons.prems(2) assms(1) g1(1)] Cons.IH [OF g1(2)] show ?case by auto
qed simp

lemma single_step_no_pending:
  "bisection_inv w gs \<Longrightarrow> is_single_step (disputed gs) \<Longrightarrow> pending_midpoint gs = None"
  by (cases "pending_midpoint gs") (auto simp: bisection_inv_def Let_def single_step_iff)

text \<open>The move the rules leave open in a state of a game in progress, whatever commit is claimed.\<close>

definition move_open :: "GameState \<Rightarrow> bool" where
  "move_open g \<longleftrightarrow> (let r = disputed g in
     if is_single_step r
     then pending_midpoint g = None \<and> (\<forall>c. apply_transition g (TerminateOnSingleStep c) = Inr g)
     else case pending_midpoint g of
       None \<Rightarrow> (\<forall>c. \<exists>g'. apply_transition g (SubmitMidpoint c) = Inr g')
     | Some m \<Rightarrow> lo r < unat (claim_idx m) \<and> unat (claim_idx m) < hi r \<and>
         (\<exists>g1 g2. apply_transition g RespondAgree = Inr g1 \<and> apply_transition g RespondDisagree = Inr g2))"

lemma inv_move_open:
  assumes inv: "bisection_inv w g" and w: "w < 2 ^ 64" and st: "game_status g = InProgress"
  shows "move_open g"
proof -
  have mid: "lo (disputed g) < unat (claim_idx m) \<and> unat (claim_idx m) < hi (disputed g)"
    if "pending_midpoint g = Some m" for m
    using inv that midpoint_between [of "disputed g"] by (simp add: bisection_inv_def Let_def)
  show ?thesis unfolding move_open_def Let_def
    using st single_step_no_pending [OF inv] submit_legal [OF inv w st] respond_legal [OF inv w st] mid
    by (simp add: apply_terminate_on_single_step_def is_in_progress_def split: option.split)
qed

lemma opened_play_inv:
  assumes "opened g0" "play g0 ts = Inr g" "w = unat (width (disputed g0))"
  shows "w < 2 ^ 64" "bisection_inv w g" "rounds g = length (filter bisects ts)"
proof -
  show w: "w < 2 ^ 64" using unat_lt [of "width (disputed g0)"] assms(3) by simp
  from play_inv [OF this assms(2)] opened_inv [OF assms(1)] assms(1,3)
  show "bisection_inv w g" "rounds g = length (filter bisects ts)"
    by (auto simp: rounds_def opened_def)
qed

text \<open>
  C4: Bisection converges and never gets stuck.  From any opened game and after any sequence of legal
  transitions, the range is non-empty and has halved with every completed round, the bisecting
  moves number exactly two per completed round and one for a pending midpoint, and the number of
  rounds is logarithmic in the width of the opening range and at most 64.  A game in progress
  always has its legal move, whatever commit is claimed: a midpoint where the range can still be
  bisected, both responses where one is pending, termination on a single step; the depth cap
  never stands in the way.  A game that ended accepts nothing.
\<close>

theorem bisection_converges:
  assumes "opened g0" and "play g0 ts = Inr g" and "w = unat (width (disputed g0))"
  shows "lo (disputed g) < hi (disputed g) \<and>
    (unat (width (disputed g)) - 1) * 2 ^ unat (game_depth g) < w \<and>
    2 ^ unat (game_depth g) < 2 * w \<and> unat (game_depth g) \<le> 64 \<and>
    length (filter bisects ts) = 2 * unat (game_depth g) + (if pending_midpoint g = None then 0 else 1) \<and>
    (if game_status g = InProgress then move_open g
     else \<forall>t. apply_transition g t = Inl GameAlreadyEnded)"
proof -
  note inv = opened_play_inv [OF assms]
  have "2 ^ unat (game_depth g) < 2 * w" using inv(2) by (simp add: bisection_inv_def Let_def)
  also have "2 * w < 2 ^ 65" using inv(1) by simp
  finally have "unat (game_depth g) < 65" by (rule power_less_imp_less_exp [rotated]) simp
  with inv inv_move_open [OF inv(2,1)] ended_rejects show ?thesis
    by (simp add: bisection_inv_def Let_def unat_width rounds_def)
qed

definition sample_game :: GameState where
  "sample_game = \<lparr>sequencer = 1, challenger = 2,
     disputed = \<lparr>low = \<lparr>claim_idx = 0, claim_commit = [0]\<rparr>, high = \<lparr>claim_idx = 4, claim_commit = [99]\<rparr>\<rparr>,
     pending_midpoint = None, game_depth = 0, turn = Sequencer, sequencer_bond = 0,
     challenger_bond = 0, game_status = InProgress, game_deployment_id = [], actions_root = []\<rparr>"

lemma sample_opened: "opened sample_game"
  by (simp add: opened_def sample_game_def)

lemma sample_submit:
  "\<exists>g. play sample_game [SubmitMidpoint [2]] = Inr g \<and> game_status g = InProgress"
proof -
  have s: "\<not> is_single_step (disputed sample_game)"
    by (subst single_step_iff) (simp_all add: sample_game_def)
  have w: "unat (width (disputed sample_game)) < 2 ^ 64" by (simp add: unat_width sample_game_def)
  show ?thesis using submit_legal [OF opened_inv [OF sample_opened] w _ _ s, of "[2]"]
    by (simp add: sample_game_def)
qed

theorem bisection_converges_witness:
  "\<exists>g. play sample_game [SubmitMidpoint [2]] = Inr g \<and> (\<exists>g'. apply_transition g RespondAgree = Inr g')"
proof -
  obtain g where g: "play sample_game [SubmitMidpoint [2]] = Inr g" "game_status g = InProgress"
    using sample_submit by blast
  note b = bisection_converges [OF sample_opened g(1) refl]
  then have "pending_midpoint g \<noteq> None" by (auto split: if_splits)
  with b g show ?thesis by (auto simp: move_open_def Let_def split: if_splits)
qed

end
