(* ===== verification/Strategy.thy ===== *)
theory Strategy
  imports Game BTree_Map
begin

text \<open>
  The honest strategy of the fault-proof observer
  (\<open>knomosis-faultproof-observer/src/strategy.rs\<close>): the truth oracle interface with the in-memory
  oracle, and the computation of the next move.  The replay of the kernel that answers in
  production is a subprocess; it enters as an oracle satisfying the interface.  The lemmas show
  that the honest side keeps the disputed range on the point of disagreement until a single step
  is left, and always has a move the rules accept.
\<close>

section \<open>Truth oracles\<close>

record MemoryTruthOracle =
  oracle_map :: "(LogIndex, StateCommit) btree"

definition oracle_new :: MemoryTruthOracle where
  "oracle_new = \<lparr>oracle_map = []\<rparr>"

definition oracle_insert :: "MemoryTruthOracle \<Rightarrow> LogIndex \<Rightarrow> StateCommit \<Rightarrow> MemoryTruthOracle" where
  "oracle_insert orc i c = orc \<lparr> oracle_map := bt_insert i c (oracle_map orc) \<rparr>"

definition oracle_len :: "MemoryTruthOracle \<Rightarrow> usize" where
  "oracle_len orc = length (oracle_map orc)"

definition oracle_is_empty :: "MemoryTruthOracle \<Rightarrow> bool" where
  "oracle_is_empty orc \<longleftrightarrow> oracle_map orc = []"

definition memory_commit_at :: "MemoryTruthOracle \<Rightarrow> LogIndex \<Rightarrow> StateCommit option" where
  "memory_commit_at orc i = bt_get (oracle_map orc) i"

section \<open>The honest move\<close>

datatype HonestMoveError = TruthOracleMissed LogIndex

datatype HonestMove =
    NoMove
  | Submit Claim
  | RespondAgree
  | RespondDisagree
  | TerminateOnSingleStep StateCommit

fun to_transition :: "HonestMove \<Rightarrow> GameTransition option" where
  "to_transition NoMove = None"
| "to_transition (Submit c) = Some (GameTransition.SubmitMidpoint (claim_commit c))"
| "to_transition HonestMove.RespondAgree = Some GameTransition.RespondAgree"
| "to_transition HonestMove.RespondDisagree = Some GameTransition.RespondDisagree"
| "to_transition (HonestMove.TerminateOnSingleStep c) = Some (GameTransition.TerminateOnSingleStep c)"

definition compute_next_move ::
  "(LogIndex \<Rightarrow> StateCommit option) \<Rightarrow> GameState \<Rightarrow> TurnSide \<Rightarrow> HonestMoveError + HonestMove" where
  "compute_next_move commit_at gs me =
     (if \<not> is_in_progress (game_status gs) then Inr NoMove
      else if turn gs \<noteq> me then Inr NoMove
      else case pending_midpoint gs of
        None \<Rightarrow>
          if is_single_step (disputed gs) then
            let i = claim_idx (high (disputed gs)) in
            res_bind (ok_or (commit_at i) (TruthOracleMissed i)) (\<lambda>truth_high.
              Inr (HonestMove.TerminateOnSingleStep truth_high))
          else
            let mid_idx = midpoint_idx (disputed gs) in
            if mid_idx \<le> claim_idx (low (disputed gs)) \<or> claim_idx (high (disputed gs)) \<le> mid_idx
            then Inr NoMove
            else res_bind (ok_or (commit_at mid_idx) (TruthOracleMissed mid_idx)) (\<lambda>truth_mid.
              Inr (Submit \<lparr>claim_idx = mid_idx, claim_commit = truth_mid\<rparr>))
      | Some mp \<Rightarrow>
          res_bind (ok_or (commit_at (claim_idx mp)) (TruthOracleMissed (claim_idx mp))) (\<lambda>truth_mid.
            if claim_commit mp = truth_mid then Inr HonestMove.RespondAgree
            else Inr HonestMove.RespondDisagree))"

section \<open>Honest play against an arbitrary opponent\<close>

text \<open>
  One step of a game in which \<open>me\<close> plays the computed move whenever it is its turn and the
  opponent takes any legal transition on its own turn, a timeout included.
\<close>

inductive honest_step :: "(LogIndex \<Rightarrow> StateCommit option) \<Rightarrow> TurnSide \<Rightarrow> GameState \<Rightarrow> GameState \<Rightarrow> bool"
  for commit_at me where
  own: "turn gs = me \<Longrightarrow> compute_next_move commit_at gs me = Inr mv \<Longrightarrow> to_transition mv = Some t \<Longrightarrow>
    apply_transition gs t = Inr gs' \<Longrightarrow> honest_step commit_at me gs gs'"
| opponent: "turn gs \<noteq> me \<Longrightarrow> apply_transition gs t = Inr gs' \<Longrightarrow> honest_step commit_at me gs gs'"

inductive honest_play :: "(LogIndex \<Rightarrow> StateCommit option) \<Rightarrow> TurnSide \<Rightarrow> GameState \<Rightarrow> GameState \<Rightarrow> bool"
  for commit_at me g0 where
  start: "honest_play commit_at me g0 g0"
| step: "honest_play commit_at me g0 g \<Longrightarrow> honest_step commit_at me g g' \<Longrightarrow>
    honest_play commit_at me g0 g'"

text \<open>
  What honest play keeps: the lower claim is true, the upper claim is true exactly when the honest
  side is the sequencer, the sequencer submits and the challenger responds, and a midpoint an
  honest sequencer submitted is true.
\<close>

definition dispute_inv :: "(LogIndex \<Rightarrow> StateCommit) \<Rightarrow> TurnSide \<Rightarrow> GameState \<Rightarrow> bool" where
  "dispute_inv truth me gs \<longleftrightarrow> (let r = disputed gs in
     claim_commit (low r) = truth (claim_idx (low r)) \<and>
     (claim_commit (high r) = truth (claim_idx (high r)) \<longleftrightarrow> me = Sequencer) \<and>
     (turn gs = Challenger \<longleftrightarrow> pending_midpoint gs \<noteq> None) \<and>
     (\<forall>m. me = Sequencer \<longrightarrow> pending_midpoint gs = Some m \<longrightarrow> claim_commit m = truth (claim_idx m)) \<and>
     game_status gs \<in> {InProgress, case me of Sequencer \<Rightarrow> TimedOutChallenger | Challenger \<Rightarrow> TimedOutSequencer})"

definition spans :: "GameState \<Rightarrow> LogIndex set" where
  "spans gs = {i. lo (disputed gs) \<le> unat i \<and> unat i \<le> hi (disputed gs)}"

lemma submit_Inr:
  assumes "apply_submit_midpoint gs c = Inr gs'"
  shows "pending_midpoint gs = None" and "gs' = gs \<lparr> pending_midpoint :=
      Some \<lparr>claim_idx = midpoint_idx (disputed gs), claim_commit = c\<rparr>, turn := flip (turn gs) \<rparr>"
  using assms by (simp_all add: apply_submit_midpoint_def Let_def split: if_splits)

lemma respond_Inr:
  assumes "apply_respond gs agree = Inr gs'"
  shows "\<exists>mp. pending_midpoint gs = Some mp \<and>
    gs' = gs \<lparr> disputed := (if agree then \<lparr>low = mp, high = high (disputed gs)\<rparr>
                            else \<lparr>low = low (disputed gs), high = mp\<rparr>),
              pending_midpoint := None, game_depth := wsat_add (game_depth gs) 1,
              turn := flip (turn gs) \<rparr>"
  using assms by (auto simp: apply_respond_def Let_def res_bind_Inr_iff split: if_splits)

lemma terminate_Inr: "apply_terminate_on_single_step gs = Inr gs' \<Longrightarrow> gs' = gs"
  by (simp add: apply_terminate_on_single_step_def split: if_splits)

lemma timeout_Inr: "apply_timeout gs = Inr gs' \<Longrightarrow> gs' = gs \<lparr> game_status :=
    (case turn gs of Sequencer \<Rightarrow> TimedOutSequencer | Challenger \<Rightarrow> TimedOutChallenger) \<rparr>"
  by (simp add: apply_timeout_def split: if_splits)

lemma flip_iff [simp]: "flip s = Challenger \<longleftrightarrow> s = Sequencer" "flip s = Sequencer \<longleftrightarrow> s = Challenger"
  by (cases s; simp)+

lemma side_neq: "s \<noteq> Challenger \<longleftrightarrow> s = Sequencer" "s \<noteq> Sequencer \<longleftrightarrow> s = Challenger"
  by (cases s; simp)+

text \<open>Every index of the next range is an index of the current one.\<close>

lemma spans_step:
  assumes inv: "bisection_inv w gs" and t: "apply_transition gs t = Inr gs'"
  shows "spans gs' \<subseteq> spans gs"
proof -
  have mid: "lo (disputed gs) < unat (claim_idx m) \<and> unat (claim_idx m) < hi (disputed gs)"
    if "pending_midpoint gs = Some m" for m
    using inv that midpoint_between [of "disputed gs"] by (simp add: bisection_inv_def Let_def)
  have "spans gs' \<subseteq> spans gs" if "apply_respond gs b = Inr gs'" for b
    using respond_Inr [OF that] mid by (fastforce simp: spans_def split: if_splits)
  with t show ?thesis
    by (cases t) (auto dest!: submit_Inr(2) terminate_Inr timeout_Inr simp: spans_def)
qed

lemma move_without_pending [consumes 3, case_names submit terminate]:
  assumes "compute_next_move commit_at gs me = Inr mv" "pending_midpoint gs = None"
    "to_transition mv = Some t"
  obtains c where "mv = Submit c" "claim_idx c = midpoint_idx (disputed gs)"
  | c where "mv = HonestMove.TerminateOnSingleStep c"
  using assms by (auto simp: compute_next_move_def Let_def res_bind_Inr_iff split: if_splits)

section \<open>The oracle interface and what the honest side gets from it\<close>

locale truth_oracle =
  fixes commit_at :: "LogIndex \<Rightarrow> StateCommit option"
    and truth :: "LogIndex \<Rightarrow> StateCommit"
    and known :: "LogIndex set"
  assumes commit_at_known: "i \<in> known \<Longrightarrow> commit_at i = Some (truth i)"
begin

lemma respond_truthfully:
  assumes "compute_next_move commit_at gs me = Inr mv" "pending_midpoint gs = Some mp"
    "game_status gs = InProgress" "turn gs = me" "claim_idx mp \<in> known"
  shows "mv = (if claim_commit mp = truth (claim_idx mp) then HonestMove.RespondAgree
               else HonestMove.RespondDisagree)"
  using assms by (simp add: compute_next_move_def is_in_progress_def commit_at_known split: if_splits)

lemma submit_truthfully:
  assumes "compute_next_move commit_at gs me = Inr (Submit c)" "claim_idx c \<in> known"
  shows "claim_commit c = truth (claim_idx c)"
  using assms by (auto simp: compute_next_move_def Let_def res_bind_Inr_iff commit_at_known
      split: if_splits option.splits)

lemma has_move:
  assumes inv: "bisection_inv w gs" "w < 2 ^ 64" and st: "game_status gs = InProgress"
    and me: "turn gs = me" and k: "spans gs \<subseteq> known"
  shows "\<exists>mv t gs'. compute_next_move commit_at gs me = Inr mv \<and> to_transition mv = Some t \<and>
    apply_transition gs t = Inr gs'"
proof (cases "pending_midpoint gs")
  case (Some mp)
  with inv(1) midpoint_between [of "disputed gs"] k have "claim_idx mp \<in> known"
    by (auto simp: bisection_inv_def Let_def spans_def)
  with st me Some respond_legal [OF inv st Some] show ?thesis
    by (auto simp: compute_next_move_def is_in_progress_def commit_at_known)
next
  case None
  show ?thesis
  proof (cases "is_single_step (disputed gs)")
    case True
    have "claim_idx (high (disputed gs)) \<in> known"
      using k inv(1) by (auto simp: spans_def bisection_inv_def Let_def)
    with True None st me show ?thesis
      by (auto simp: compute_next_move_def is_in_progress_def commit_at_known
          apply_terminate_on_single_step_def)
  next
    case False
    with inv(1) have "lo (disputed gs) + 1 < hi (disputed gs)"
      using single_step_iff [of "disputed gs"] by (auto simp: bisection_inv_def Let_def)
    then have mid: "lo (disputed gs) < unat (midpoint_idx (disputed gs))"
      "unat (midpoint_idx (disputed gs)) < hi (disputed gs)"
      using midpoint_between by simp_all
    then have "midpoint_idx (disputed gs) \<in> known" using k by (auto simp: spans_def)
    with False None st me mid submit_legal [OF inv st None False] show ?thesis
      by (simp add: compute_next_move_def is_in_progress_def commit_at_known Let_def
          word_le_nat_alt)
  qed
qed

lemma own_step_dispute:
  assumes inv: "bisection_inv w gs" and d: "dispute_inv truth me gs" and k: "spans gs \<subseteq> known"
    and me: "turn gs = me" and mv: "compute_next_move commit_at gs me = Inr mv"
    and t: "to_transition mv = Some t" and s: "apply_transition gs t = Inr gs'"
  shows "dispute_inv truth me gs'"
proof (cases "pending_midpoint gs")
  case (Some mp)
  have side: "me = Challenger" using d me Some by (simp add: dispute_inv_def Let_def)
  have i: "claim_idx mp \<in> known"
    using inv Some midpoint_between [of "disputed gs"] k
    by (auto simp: bisection_inv_def Let_def spans_def)
  note m = respond_truthfully [OF mv Some transition_in_progress [OF s] me i]
  show ?thesis
  proof (cases "claim_commit mp = truth (claim_idx mp)")
    case True
    with m t s have "apply_respond gs True = Inr gs'" by auto
    from respond_Inr [OF this] Some d me side True show ?thesis by (simp add: dispute_inv_def Let_def)
  next
    case False
    with m t s have "apply_respond gs False = Inr gs'" by auto
    from respond_Inr [OF this] Some d me side False show ?thesis by (simp add: dispute_inv_def Let_def)
  qed
next
  case None
  have side: "me = Sequencer" using d me None by (auto simp: dispute_inv_def Let_def side_neq)
  from mv None t show ?thesis
  proof (cases rule: move_without_pending)
    case (submit c)
    with t s have a: "apply_submit_midpoint gs (claim_commit c) = Inr gs'" by auto
    have "claim_idx c \<in> known"
      using inv k submit(2) by (auto simp: unat_midpoint bisection_inv_def Let_def spans_def)
    from submit_truthfully [OF mv [unfolded submit(1)] this] submit(2) submit_Inr(2) [OF a] d me side None
    show ?thesis by (simp add: dispute_inv_def Let_def)
  next
    case (terminate c)
    with t s d show ?thesis by (auto dest: terminate_Inr)
  qed
qed

lemma opponent_step_dispute:
  assumes d: "dispute_inv truth me gs" and me: "turn gs \<noteq> me" and s: "apply_transition gs t = Inr gs'"
  shows "dispute_inv truth me gs'"
proof -
  have resp: "dispute_inv truth me gs'" if r: "apply_respond gs b = Inr gs'" for b
    using respond_Inr [OF r] d me by (cases me) (auto simp: dispute_inv_def Let_def side_neq)
  show ?thesis
  proof (cases t)
    case (SubmitMidpoint c)
    with s have "apply_submit_midpoint gs c = Inr gs'" by simp
    from submit_Inr [OF this] d me show ?thesis
      by (cases me) (auto simp: dispute_inv_def Let_def side_neq)
  next
    case TimeoutLoss
    with s have "gs' = gs \<lparr> game_status :=
        (case turn gs of Sequencer \<Rightarrow> TimedOutSequencer | Challenger \<Rightarrow> TimedOutChallenger) \<rparr>"
      using timeout_Inr by simp
    with d me show ?thesis
      by (cases me; cases "turn gs") (auto simp: dispute_inv_def Let_def)
  qed (use s d resp terminate_Inr in auto)
qed

lemma honest_play_inv:
  assumes p: "honest_play commit_at me g0 g" and w: "w < 2 ^ 64"
    and g0: "bisection_inv w g0" "dispute_inv truth me g0" "spans g0 \<subseteq> known"
  shows "bisection_inv w g \<and> dispute_inv truth me g \<and> spans g \<subseteq> known"
  using p
proof (induction rule: honest_play.induct)
  case start
  then show ?case using g0 by simp
next
  case (step g g')
  from step.hyps(2) obtain t where t: "apply_transition g t = Inr g'" by (cases rule: honest_step.cases) auto
  have "dispute_inv truth me g'"
    using step.hyps(2) step.IH own_step_dispute opponent_step_dispute
    by (cases rule: honest_step.cases) blast+
  with transition_inv [OF _ w t] spans_step [OF _ t] step.IH show ?case by blast
qed

end

text \<open>The in-memory oracle, filled with the true commits of a list of indices.\<close>

definition memory_oracle :: "(LogIndex \<Rightarrow> StateCommit) \<Rightarrow> LogIndex list \<Rightarrow> MemoryTruthOracle" where
  "memory_oracle truth is = foldl (\<lambda>orc i. oracle_insert orc i (truth i)) oracle_new is"

lemma memory_oracle_get:
  "memory_commit_at (memory_oracle truth is) i = (if i \<in> set is then Some (truth i) else None)"
  by (induction "is" rule: rev_induct)
    (auto simp: memory_oracle_def memory_commit_at_def oracle_insert_def oracle_new_def)

interpretation memory: truth_oracle "memory_commit_at (memory_oracle truth is)" truth "set is"
  for truth "is"
  by unfold_locales (simp add: memory_oracle_get)

text \<open>
  C3: Honest play decides the dispute.  In a game opened on a true lower claim, in which the upper
  claim is true exactly when the honest side is the sequencer, and with an oracle that knows the
  true commits of the range: whatever the opponent does, in every state reached the lower claim is
  still true and the upper claim still true exactly for an honest sequencer; the honest side never
  times out and on its turn always has a move that the rules accept.  Once a single step is left,
  running that step from the lower claim reproduces the upper claim exactly when the honest side is
  the sequencer, which is the comparison the settlement is decided by.
\<close>

theorem honest_play_decides:
  assumes "truth_oracle commit_at truth known" and "\<And>i. truth (i + 1) = step_vm i (truth i)"
    and "opened g0" and "turn g0 = Sequencer" and "spans g0 \<subseteq> known"
    and "claim_commit (low (disputed g0)) = truth (claim_idx (low (disputed g0)))"
    and "claim_commit (high (disputed g0)) = truth (claim_idx (high (disputed g0))) \<longleftrightarrow> me = Sequencer"
    and "honest_play commit_at me g0 g"
  shows "claim_commit (low (disputed g)) = truth (claim_idx (low (disputed g))) \<and>
    (claim_commit (high (disputed g)) = truth (claim_idx (high (disputed g))) \<longleftrightarrow> me = Sequencer) \<and>
    game_status g \<in> {InProgress, case me of Sequencer \<Rightarrow> TimedOutChallenger | Challenger \<Rightarrow> TimedOutSequencer} \<and>
    (game_status g = InProgress \<and> turn g = me \<longrightarrow>
      (\<exists>mv t g'. compute_next_move commit_at g me = Inr mv \<and> to_transition mv = Some t \<and>
        apply_transition g t = Inr g')) \<and>
    (is_single_step (disputed g) \<longrightarrow>
      (step_vm (claim_idx (low (disputed g))) (claim_commit (low (disputed g))) =
        claim_commit (high (disputed g)) \<longleftrightarrow> me = Sequencer))"
proof -
  let ?w = "unat (width (disputed g0))"
  have w: "?w < 2 ^ 64" using unat_lt [of "width (disputed g0)"] by simp
  have "dispute_inv truth me g0"
    using assms(3-7) by (auto simp: dispute_inv_def opened_def Let_def)
  from truth_oracle.honest_play_inv [OF assms(1,8) w opened_inv [OF assms(3)] this assms(5)]
  have inv: "bisection_inv ?w g" and d: "dispute_inv truth me g" and k: "spans g \<subseteq> known" by auto
  have "claim_idx (high (disputed g)) = claim_idx (low (disputed g)) + 1" if "is_single_step (disputed g)"
    using that single_step_iff [of "disputed g"] inv unat_lt [of "claim_idx (high (disputed g))"]
    by (auto simp: bisection_inv_def Let_def word_unat_eq_iff unat_add_nowrap)
  with d truth_oracle.has_move [OF assms(1) inv w _ _ k] assms(2) show ?thesis
    by (auto simp: dispute_inv_def Let_def)
qed

theorem honest_play_decides_witness:
  "\<exists>g mv t g'. honest_play (memory_commit_at (memory_oracle (\<lambda>i. [ucast i]) [0, 1, 2, 3, 4])) Challenger sample_game g \<and>
     game_status g = InProgress \<and> compute_next_move (memory_commit_at (memory_oracle (\<lambda>i. [ucast i]) [0, 1, 2, 3, 4])) g Challenger = Inr mv \<and>
     to_transition mv = Some t \<and> apply_transition g t = Inr g'"
proof -
  let ?truth = "\<lambda>i :: u64. [ucast i :: u8]" and ?is = "[0, 1, 2, 3, 4] :: u64 list"
  let ?orc = "memory_commit_at (memory_oracle ?truth ?is)"
  obtain g where g: "apply_transition sample_game (GameTransition.SubmitMidpoint [2]) = Inr g"
      "game_status g = InProgress"
    using sample_submit by (auto simp: res_bind_Inr_iff)
  have tn: "turn g = Challenger" using submit_Inr(2) g(1) by (force simp: sample_game_def)
  have "honest_step ?orc Challenger sample_game g"
    by (rule honest_step.opponent [OF _ g(1)]) (simp add: sample_game_def)
  then have p: "honest_play ?orc Challenger sample_game g"
    by (rule honest_play.step [OF honest_play.start])
  have sp: "spans sample_game \<subseteq> set ?is"
  proof
    fix i assume "i \<in> spans sample_game"
    then have "unat i \<in> {0, 1, 2, 3, 4}" by (auto simp: spans_def sample_game_def)
    then show "i \<in> set ?is" by (auto simp: word_unat_eq_iff)
  qed
  note d = honest_play_decides [OF memory.truth_oracle_axioms _ sample_opened _ sp _ _ p,
      of "\<lambda>i c. ?truth (i + 1)"]
  have "\<exists>mv t g'. compute_next_move ?orc g Challenger = Inr mv \<and> to_transition mv = Some t \<and>
      apply_transition g t = Inr g'"
    using d g(2) tn by (simp add: sample_game_def)
  with p g(2) show ?thesis by blast
qed

end
