(* ===== verification/Gateway_Ring.thy ===== *)
theory Gateway_Ring
  imports Prelude
begin

text \<open>
  The fan-out ring of the gateway (\<open>knomosis-gateway/src/events/fanout/ring.rs\<close>), the parsing and
  classification of resume requests (\<open>resume.rs\<close>) and the loop that serves one client
  (\<open>dispatch.rs\<close>, \<open>run_stream\<close>).  A turn of the loop is one definition; the time since
  the last write enters it as the flag \<open>idle\<close>, and the socket as the number \<open>w\<close> of writes it
  still accepts.  Text is a list of Unicode code points, as Rust's \<open>str\<close> is.
\<close>

section \<open>Cursors\<close>

datatype Cursor = Cursor (cseq: u64) (cindex: u32)

instantiation Cursor :: linorder
begin

definition less_eq_Cursor :: "Cursor \<Rightarrow> Cursor \<Rightarrow> bool" where
  "less_eq_Cursor a b \<longleftrightarrow> cseq a < cseq b \<or> cseq a = cseq b \<and> cindex a \<le> cindex b"

definition less_Cursor :: "Cursor \<Rightarrow> Cursor \<Rightarrow> bool" where
  "less_Cursor a b \<longleftrightarrow> cseq a < cseq b \<or> cseq a = cseq b \<and> cindex a < cindex b"

instance
  by standard (auto simp: less_eq_Cursor_def less_Cursor_def Cursor.expand)

end

definition ORIGIN :: Cursor where
  "ORIGIN = Cursor 0 0"

definition is_immediately_before :: "Cursor \<Rightarrow> Cursor \<Rightarrow> bool" where
  "is_immediately_before c next =
     (if cseq c = cseq next then cindex c \<noteq> wmax \<and> cindex c + 1 = cindex next
      else cindex c = wmax \<and> cindex next = 0 \<and> wchecked_add (cseq c) 1 = Some (cseq next))"

section \<open>The ring\<close>

record EventRecord =
  rec_seq :: u64
  rec_index :: u32
  event_type :: ustr
  rec_data :: ustr

definition rec_cursor :: "EventRecord \<Rightarrow> Cursor" where
  "rec_cursor r = Cursor (rec_seq r) (rec_index r)"

datatype CursorPosition = AtTail | InWindow | is_Behind: Behind (oldest_hint: u64)

record EventRing =
  ring_capacity :: usize
  ring_buf :: "EventRecord list"
  ring_last :: "Cursor option"
  ring_last_evicted :: "Cursor option"
  ring_watermark :: "u64 option"

definition ring_new :: "usize \<Rightarrow> EventRing" where
  "ring_new cap = \<lparr>ring_capacity = max cap 1, ring_buf = [], ring_last = None, ring_last_evicted = None,
     ring_watermark = None\<rparr>"

definition ring_oldest :: "EventRing \<Rightarrow> Cursor option" where
  "ring_oldest r = (case ring_buf r of [] \<Rightarrow> None | x # _ \<Rightarrow> Some (rec_cursor x))"

definition ring_oldest_seq :: "EventRing \<Rightarrow> u64 option" where
  "ring_oldest_seq r = (case ring_buf r of [] \<Rightarrow> None | x # _ \<Rightarrow> Some (rec_seq x))"

definition ring_newest :: "EventRing \<Rightarrow> Cursor option" where
  "ring_newest r = (if ring_buf r = [] then None else Some (rec_cursor (last (ring_buf r))))"

definition note_gap :: "u64 \<Rightarrow> EventRing \<Rightarrow> EventRing" where
  "note_gap oldest_available_seq r = r \<lparr> ring_buf := [], ring_watermark := None, ring_last := None,
     ring_last_evicted := Some (Cursor oldest_available_seq 0) \<rparr>"

text \<open>The eviction loop of \<open>push\<close>: from the front while the ring is over its capacity.\<close>

fun ring_evict :: "usize \<Rightarrow> EventRecord list \<Rightarrow> Cursor option \<Rightarrow> EventRecord list \<times> Cursor option" where
  "ring_evict cap [] ev = ([], ev)"
| "ring_evict cap (x # xs) ev =
     (if cap < length (x # xs) then ring_evict cap xs (Some (rec_cursor x)) else (x # xs, ev))"

definition ring_push :: "EventRecord \<Rightarrow> EventRing \<Rightarrow> bool \<times> EventRing" where
  "ring_push rcd r =
     (let cursor = rec_cursor rcd in
      if (case ring_last r of Some lst \<Rightarrow> cursor \<le> lst | None \<Rightarrow> False) then (False, r)
      else
        let wm = (case ring_last r of
                    Some lst \<Rightarrow> if cseq lst < cseq cursor then Some (cseq lst) else ring_watermark r
                  | None \<Rightarrow> ring_watermark r);
            (buf, ev) = ring_evict (ring_capacity r) (ring_buf r @ [rcd]) (ring_last_evicted r)
        in (True, r \<lparr> ring_watermark := wm, ring_last := Some cursor, ring_buf := buf, ring_last_evicted := ev \<rparr>))"

definition records_after :: "EventRing \<Rightarrow> Cursor \<Rightarrow> EventRecord list" where
  "records_after r c = filter (\<lambda>x. c < rec_cursor x) (ring_buf r)"

definition ring_position :: "EventRing \<Rightarrow> Cursor \<Rightarrow> CursorPosition" where
  "ring_position r c = (case ring_newest r of
     None \<Rightarrow> AtTail
   | Some newest \<Rightarrow>
       if newest \<le> c then AtTail
       else if (case ring_last_evicted r of
                  Some ev \<Rightarrow> ev \<le> c
                | None \<Rightarrow> (case ring_oldest r of
                    None \<Rightarrow> False | Some oldest \<Rightarrow> oldest \<le> c \<or> is_immediately_before c oldest))
       then InWindow
       else Behind (case ring_oldest_seq r of None \<Rightarrow> 0 | Some q \<Rightarrow> q))"

section \<open>Resume requests\<close>

datatype ResumePoint = LiveTail | After Cursor

datatype ResumeAction = Stream Cursor | LiveTail | Behind u64 | Truncated









section \<open>Serving one client\<close>

datatype StreamEnd = Disconnected | Evicted | Fault | ShuttingDown

datatype StreamStart = After Cursor | LiveTail

datatype SseItem = SseRecord EventRecord | SseHeartbeat | SseError ustr "u64 option"

definition ascii :: "string \<Rightarrow> ustr" where
  "ascii s = map of_char s"

fun dec_digits :: "nat \<Rightarrow> ustr" where
  "dec_digits n = (if n < 10 then [48 + n] else dec_digits (n div 10) @ [48 + n mod 10])"

declare dec_digits.simps [simp del]

definition event_id :: "EventRecord \<Rightarrow> ustr" where
  "event_id r = dec_digits (unat (rec_seq r)) @ 46 # dec_digits (unat (rec_index r))"

definition write_record :: "EventRecord \<Rightarrow> ustr" where
  "write_record r = ascii ''id: '' @ event_id r @ 10 # ascii ''event: '' @ event_type r @
     10 # ascii ''data: '' @ rec_data r @ [10, 10]"

definition write_heartbeat :: ustr where
  "write_heartbeat = [58, 10]"

definition write_stream_error :: "ustr \<Rightarrow> u64 option \<Rightarrow> ustr" where
  "write_stream_error code oldest_seq = ascii ''event: error'' @ 10 # ascii ''data: '' @
     (case oldest_seq of
        Some q \<Rightarrow> [123, 34] @ ascii ''error'' @ [34, 58, 34] @ code @ [34, 44, 34] @ ascii ''oldestSeq'' @
                  [34, 58, 34] @ dec_digits (unat q) @ [34, 125]
      | None \<Rightarrow> [123, 34] @ ascii ''error'' @ [34, 58, 34] @ code @ [34, 125]) @ [10, 10]"

fun sse_text :: "SseItem \<Rightarrow> ustr" where
  "sse_text (SseRecord r) = write_record r"
| "sse_text SseHeartbeat = write_heartbeat"
| "sse_text (SseError code oldest) = write_stream_error code oldest"

record Client =
  at_cursor :: "Cursor option"
  sink :: "SseItem list"
  stream_end :: "StreamEnd option"

definition client_new :: "StreamStart \<Rightarrow> Client" where
  "client_new start = \<lparr>at_cursor = (case start of StreamStart.After c \<Rightarrow> Some c | StreamStart.LiveTail \<Rightarrow> None),
     sink = [], stream_end = None\<rparr>"

definition stream_close :: "nat \<Rightarrow> string \<Rightarrow> StreamEnd \<Rightarrow> Client \<Rightarrow> Client" where
  "stream_close w code why c = c \<lparr> sink := sink c @ (if w = 0 then [] else [SseError (ascii code) None]),
     stream_end := Some why \<rparr>"

definition heartbeat_if :: "bool \<Rightarrow> nat \<Rightarrow> Client \<Rightarrow> Client" where
  "heartbeat_if idle w c =
     (if \<not> idle then c
      else if w = 0 then c \<lparr> stream_end := Some Disconnected \<rparr>
      else c \<lparr> sink := sink c @ [SseHeartbeat] \<rparr>)"

definition type_match :: "ustr list \<Rightarrow> EventRecord \<Rightarrow> bool" where
  "type_match types r \<longleftrightarrow> types = [] \<or> event_type r \<in> set types"

fun send_records :: "ustr list \<Rightarrow> nat \<Rightarrow> EventRecord list \<Rightarrow> Client \<Rightarrow> Client" where
  "send_records types w [] c = c"
| "send_records types w (r # rs) c =
     (if type_match types r then
        (if w = 0 then c \<lparr> stream_end := Some Disconnected \<rparr>
         else send_records types (w - 1) rs (c \<lparr> sink := sink c @ [SseRecord r], at_cursor := Some (rec_cursor r) \<rparr>))
      else send_records types w rs (c \<lparr> at_cursor := Some (rec_cursor r) \<rparr>))"

definition stream_turn ::
    "usize \<Rightarrow> ustr list \<Rightarrow> EventRing \<Rightarrow> bool \<Rightarrow> bool \<Rightarrow> bool \<Rightarrow> nat \<Rightarrow> Client \<Rightarrow> Client" where
  "stream_turn max_client_lag types ring faulted shutdown idle w c =
     (if stream_end c \<noteq> None then c
      else if shutdown then stream_close w ''server_shutdown'' ShuttingDown c
      else if faulted then stream_close w ''decode_error'' Fault c
      else case at_cursor c of
        None \<Rightarrow> (case ring_newest ring of
            None \<Rightarrow> heartbeat_if idle w c
          | Some newest \<Rightarrow> c \<lparr> at_cursor := Some newest \<rparr>)
      | Some active \<Rightarrow>
          let records = records_after ring active;
              behind = is_Behind (ring_position ring active)
          in if behind \<or> max_client_lag < length records then stream_close w ''lag_exceeded'' Evicted c
             else if records = [] then heartbeat_if idle w c
             else send_records types w records c)"



section \<open>Order of cursors\<close>

lemma cursor_less_iff: "Cursor a i < Cursor b j \<longleftrightarrow> a < b \<or> a = b \<and> i < j"
  by (simp add: less_Cursor_def)

lemma cursor_le_seq: "c \<le> d \<Longrightarrow> cseq c \<le> cseq d"
  by (auto simp: less_eq_Cursor_def)

lemma cursor_same_seq: "c < d \<Longrightarrow> cseq d = cseq c \<Longrightarrow> cindex c < cindex d"
  by (auto simp: less_Cursor_def)

lemma word_max_greatest: "\<not> (wmax :: 'a::len word) < x"
  using unat_lt [of x] by (simp only: word_less_nat_alt unat_wmax)

lemma immediately_before_none_between:
  assumes "is_immediately_before c d" "c < x" "x < d"
  shows False
proof (cases "cseq c = cseq d")
  case True
  have i: "cindex c < cindex x" "cindex x < cindex d" "cindex d = cindex c + 1" "cindex c \<noteq> wmax"
    using assms True by (auto simp: is_immediately_before_def less_Cursor_def)
  have "Suc (unat (cindex c)) < 2 ^ 32"
    using i(4) unat_lt [of "cindex c"] by (auto simp: word_unat_eq_iff unat_wmax)
  then have "unat (cindex d) = Suc (unat (cindex c))"
    using i(3) by (simp add: unat_word_ariths)
  then show False using i by (simp add: word_less_nat_alt)
next
  case False
  have d: "cindex c = wmax" "cindex d = 0" "unat (cseq d) = Suc (unat (cseq c))"
    using assms(1) False by (auto simp: is_immediately_before_def wchecked_add_Some)
  have "cseq c < cseq x" using assms(2) d(1) word_max_greatest by (auto simp: less_Cursor_def)
  moreover have "cseq x < cseq d" using assms(3) d(2) by (auto simp: less_Cursor_def)
  ultimately show False using d(3) by (simp add: word_less_nat_alt)
qed

section \<open>The ring is a window of the history\<close>

definition between :: "EventRecord list \<Rightarrow> Cursor \<Rightarrow> Cursor \<Rightarrow> EventRecord list" where
  "between L a b = filter (\<lambda>x. a < rec_cursor x \<and> rec_cursor x \<le> b) L"

definition hist_ok :: "EventRecord list \<Rightarrow> bool" where
  "hist_ok L \<longleftrightarrow> sorted_wrt (<) (map rec_cursor L)"

text \<open>
  What lies below the ring was seen by every client at or above the floor, up to the records of the
  sequence number at which the last gap ends.
\<close>

definition floor_ok :: "EventRecord list \<Rightarrow> Cursor option \<Rightarrow> u64 option \<Rightarrow> bool" where
  "floor_ok A ev gap = (case ev of None \<Rightarrow> True
     | Some e \<Rightarrow> \<forall>x \<in> set A. rec_cursor x \<le> e \<or> gap = Some (rec_seq x) \<and> rec_seq x \<le> cseq e)"

definition window :: "EventRecord list \<Rightarrow> u64 option \<Rightarrow> EventRing \<Rightarrow> bool" where
  "window L gap r \<longleftrightarrow> 0 < ring_capacity r \<and> (case ring_last r of
     None \<Rightarrow> ring_buf r = [] \<and> ring_watermark r = None
   | Some c \<Rightarrow> ring_buf r \<noteq> [] \<and> rec_cursor (last (ring_buf r)) = c \<and>
       (\<forall>w. ring_watermark r = Some w \<longrightarrow> w < cseq c) \<and>
       (\<exists>A C. L = A @ ring_buf r @ C \<and> floor_ok A (ring_last_evicted r) gap))"

lemma hist_split:
  assumes "hist_ok (A @ B @ C)" "B \<noteq> []"
  shows "\<forall>x \<in> set A. rec_cursor x < rec_cursor (hd B)" "\<forall>x \<in> set B. rec_cursor x \<le> rec_cursor (last B)"
    "\<forall>x \<in> set C. rec_cursor (last B) < rec_cursor x"
proof -
  have o: "\<And>x y. x \<in> set A \<Longrightarrow> y \<in> set B \<Longrightarrow> rec_cursor x < rec_cursor y"
    "\<And>x y. x \<in> set B \<Longrightarrow> y \<in> set C \<Longrightarrow> rec_cursor x < rec_cursor y" and B: "sorted_wrt (<) (map rec_cursor B)"
    using assms(1) by (auto simp: hist_ok_def sorted_wrt_append)
  show "\<forall>x \<in> set A. rec_cursor x < rec_cursor (hd B)" "\<forall>x \<in> set C. rec_cursor (last B) < rec_cursor x"
    using o assms(2) by auto
  have "sorted_wrt (<) (map rec_cursor (butlast B @ [last B]))" using B assms(2) by simp
  then have "\<forall>x \<in> set (butlast B). rec_cursor x < rec_cursor (last B)"
    by (simp add: sorted_wrt_append del: append_butlast_last_id)
  then show "\<forall>x \<in> set B. rec_cursor x \<le> rec_cursor (last B)"
    using assms(2) by (metis append_butlast_last_id in_set_butlastD order.strict_implies_order order_refl
      rotate1.simps(2) set_ConsD set_rotate1)
qed

lemma filter_none: "(\<And>x. x \<in> set xs \<Longrightarrow> \<not> P x) \<Longrightarrow> filter P xs = []"
  by (simp add: filter_empty_conv)

text \<open>A client that is not behind gets exactly the history between its cursor and the newest record.\<close>

lemma window_exact:
  assumes L: "hist_ok L" and w: "window L gap r" and p: "\<not> is_Behind (ring_position r c)"
    and safe: "gap \<noteq> Some (cseq c) \<or> cindex c = wmax"
  shows "records_after r c = (case ring_last r of None \<Rightarrow> [] | Some l \<Rightarrow> between L c l)"
proof (cases "ring_last r")
  case None
  then show ?thesis using w by (simp add: window_def records_after_def)
next
  case (Some l)
  obtain A C where B: "ring_buf r \<noteq> []" "rec_cursor (last (ring_buf r)) = l" "L = A @ ring_buf r @ C"
    "floor_ok A (ring_last_evicted r) gap"
    using w Some by (auto simp: window_def)
  note h = hist_split [OF L [unfolded B(3)] B(1), unfolded B(2)]
  have A: "\<not> (c < rec_cursor x \<and> rec_cursor x \<le> l)" if x: "x \<in> set A" for x
  proof
    assume cx: "c < rec_cursor x \<and> rec_cursor x \<le> l"
    have xo: "rec_cursor x < rec_cursor (hd (ring_buf r))" using h(1) x by blast
    have "\<not> l \<le> c" using cx by (meson leD le_less_trans)
    with p B(1,2) consider e where "ring_last_evicted r = Some e" "e \<le> c"
      | "rec_cursor (hd (ring_buf r)) \<le> c \<or> is_immediately_before c (rec_cursor (hd (ring_buf r)))"
      by (cases "ring_buf r"; cases "ring_last_evicted r")
        (auto simp: ring_position_def ring_newest_def ring_oldest_def split: if_splits)
    then show False
    proof cases
      case 1
      then have "gap = Some (rec_seq x)" "rec_seq x \<le> cseq e"
        using B(4) x cx by (auto simp: floor_ok_def)
      moreover have "cseq c \<le> rec_seq x" "cseq e \<le> cseq c"
        using cursor_le_seq [of c "rec_cursor x"] cursor_le_seq [OF 1(2)] cx by (auto simp: rec_cursor_def)
      ultimately have e: "gap = Some (cseq c)" "rec_seq x = cseq c" by auto
      then have "cindex c < cindex (rec_cursor x)" using cx cursor_same_seq [of c "rec_cursor x"] by (simp add: rec_cursor_def)
      then show False using safe e(1) word_max_greatest by auto
    next
      case 2
      then show False using xo cx immediately_before_none_between [of c _ "rec_cursor x"] by (auto dest: leD)
    qed
  qed
  have C: "\<not> (c < rec_cursor x \<and> rec_cursor x \<le> l)" if "x \<in> set C" for x
    using h(3) that by (auto dest: leD)
  have "between L c l = filter (\<lambda>x. c < rec_cursor x \<and> rec_cursor x \<le> l) (ring_buf r)"
    unfolding between_def B(3) using A C by (simp add: filter_none)
  also have "\<dots> = records_after r c"
    unfolding records_after_def using h(2) by (intro filter_cong) auto
  finally show ?thesis using Some by simp
qed


lemma ring_evict_split:
  assumes "0 < cap" "xs \<noteq> []"
  shows "\<exists>ys. xs = ys @ fst (ring_evict cap xs ev) \<and> fst (ring_evict cap xs ev) \<noteq> [] \<and>
    snd (ring_evict cap xs ev) = (if ys = [] then ev else Some (rec_cursor (last ys)))"
  using assms(2)
proof (induction xs arbitrary: ev)
  case (Cons x xs)
  show ?case
  proof (cases "cap < length (x # xs)")
    case True
    then have "xs \<noteq> []" using assms(1) by auto
    from Cons.IH [OF this, of "Some (rec_cursor x)"] True
    obtain ys where "xs = ys @ fst (ring_evict cap xs (Some (rec_cursor x)))"
      "fst (ring_evict cap xs (Some (rec_cursor x))) \<noteq> []"
      "snd (ring_evict cap xs (Some (rec_cursor x))) = (if ys = [] then Some (rec_cursor x) else Some (rec_cursor (last ys)))"
      by blast
    with True show ?thesis by (intro exI [of _ "x # ys"]) auto
  qed auto
qed simp

lemma hist_prefix_unique:
  assumes "hist_ok (P @ x # S)" "P @ x # S = Q @ C" "Q \<noteq> []" "\<forall>p \<in> set P. rec_cursor p \<le> rec_cursor (last Q)"
    "rec_cursor (last Q) < rec_cursor x"
  shows "P = Q \<and> C = x # S"
proof -
  let ?l = "rec_cursor (last Q)" and ?p = "\<lambda>y. rec_cursor y \<le> rec_cursor (last Q)"
  have q: "\<forall>y \<in> set Q. ?p y" "\<forall>y \<in> set C. ?l < rec_cursor y"
    using hist_split [of "[]" Q C] assms(1,2,3) by auto
  have "filter ?p (P @ x # S) = P @ filter ?p S" using assms(4,5) by (auto simp: filter_id_conv)
  moreover have "filter ?p S = []"
    using assms(1,5) by (intro filter_none) (auto simp: hist_ok_def sorted_wrt_append dest: leD less_trans)
  moreover have "filter ?p (Q @ C) = Q" using q by (auto simp: filter_id_conv filter_empty_conv dest: leD)
  ultimately have "P = Q" using assms(2) by simp
  then show ?thesis using assms(2) by simp
qed

text \<open>
  Pushing the record that follows the newest one, or any record to an empty ring whose floor admits
  it, keeps the ring a window; a record already seen changes nothing.
\<close>

lemma push_window:
  assumes L: "hist_ok L" "L = P @ x # S" and w: "window L gap r"
    and fst: "ring_last r = None \<Longrightarrow> floor_ok P (ring_last_evicted r) gap"
    and nxt: "\<And>l. ring_last r = Some l \<Longrightarrow> l < rec_cursor x \<Longrightarrow> \<forall>p \<in> set P. rec_cursor p \<le> l"
  shows "window L gap (snd (ring_push x r)) \<and>
    ring_last (snd (ring_push x r)) = Some (max (rec_cursor x) (case ring_last r of None \<Rightarrow> rec_cursor x | Some l \<Rightarrow> l))"
proof (cases "\<exists>l. ring_last r = Some l \<and> rec_cursor x \<le> l")
  case True
  then show ?thesis using w by (auto simp: ring_push_def Let_def max_def)
next
  case False
  obtain buf ev where e: "ring_evict (ring_capacity r) (ring_buf r @ [x]) (ring_last_evicted r) = (buf, ev)"
    by (rule prod.exhaust)
  have cap: "0 < ring_capacity r" using w by (simp add: window_def)
  obtain ys where ys: "ring_buf r @ [x] = ys @ buf" "buf \<noteq> []"
    "ev = (if ys = [] then ring_last_evicted r else Some (rec_cursor (last ys)))"
    using ring_evict_split [OF cap, of "ring_buf r @ [x]" "ring_last_evicted r", unfolded e] by auto
  have lst: "last (buf) = x" using ys(1,2) by (metis last_appendR last_snoc)
  have A: "\<exists>A. L = A @ (ring_buf r @ [x]) @ S \<and> floor_ok A (ring_last_evicted r) gap"
  proof (cases "ring_last r")
    case None
    then show ?thesis using fst L(2) w by (intro exI [of _ P]) (simp add: window_def)
  next
    case (Some l)
    then obtain A C where B: "ring_buf r \<noteq> []" "rec_cursor (last (ring_buf r)) = l" "L = A @ ring_buf r @ C"
      "floor_ok A (ring_last_evicted r) gap" using w by (auto simp: window_def)
    have lx: "l < rec_cursor x" using False Some by auto
    have "P @ x # S = (A @ ring_buf r) @ C" using B(3) unfolding L(2) by simp
    from hist_prefix_unique [OF L(1) [unfolded L(2)] this] B(1,2) nxt [OF Some lx] lx
    have "P = A @ ring_buf r \<and> C = x # S" by simp
    then show ?thesis using B(3,4) by (intro exI [of _ A]) simp
  qed
  then obtain A where A: "L = (A @ ys) @ buf @ S" "floor_ok A (ring_last_evicted r) gap"
    unfolding ys(1) by auto
  have flr: "floor_ok (A @ ys) (ev) gap"
  proof (cases "ys = []")
    case False
    have "\<forall>p \<in> set (A @ ys). rec_cursor p \<le> rec_cursor (last ys)"
      using hist_split(2) [of "[]" "A @ ys" "buf @ S"] L(1) A(1) False by simp
    then show ?thesis using False ys(3) by (simp add: floor_ok_def)
  qed (use A ys in simp)
  define wm where "wm = (case ring_last r of
      Some lst \<Rightarrow> if cseq lst < cseq (rec_cursor x) then Some (cseq lst) else ring_watermark r
    | None \<Rightarrow> ring_watermark r)"
  have push: "snd (ring_push x r) = r \<lparr> ring_watermark := wm, ring_last := Some (rec_cursor x),
      ring_buf := buf, ring_last_evicted := ev \<rparr>"
    using False by (cases "ring_last r") (simp_all add: ring_push_def Let_def e wm_def)
  have "\<forall>v. wm = Some v \<longrightarrow> v < cseq (rec_cursor x)"
    using w False by (cases "ring_last r") (auto simp: window_def wm_def less_eq_Cursor_def)
  moreover have "\<exists>A' C. L = A' @ buf @ C \<and> floor_ok A' ev gap"
    using A(1) flr by (intro exI [of _ "A @ ys"] exI [of _ S]) simp
  ultimately have "window L gap (snd (ring_push x r))"
    unfolding push window_def using cap ys(2) lst by simp
  moreover have "max (rec_cursor x) (case ring_last r of None \<Rightarrow> rec_cursor x | Some l \<Rightarrow> l) = rec_cursor x"
    using False by (cases "ring_last r") (auto simp: max_def)
  ultimately show ?thesis by (simp add: push)
qed

lemma window_new: "window L gap (ring_new cap)"
  by (simp add: window_def ring_new_def)

lemma window_note_gap: "window L g r \<Longrightarrow> window L gap (note_gap q r)"
  by (simp add: window_def note_gap_def)


section \<open>What a client is sent\<close>

fun sent :: "SseItem list \<Rightarrow> EventRecord list" where
  "sent [] = []"
| "sent (SseRecord r # xs) = r # sent xs"
| "sent (x # xs) = sent xs"

lemma sent_append [simp]: "sent (xs @ ys) = sent xs @ sent ys"
  by (induction xs rule: sent.induct) auto

lemma between_Cons:
  assumes "hist_ok L" "between L b l = x # rs"
  shows "b < rec_cursor x \<and> rs = between L (rec_cursor x) l \<and>
    (\<forall>a \<le> b. between L a (rec_cursor x) = between L a b @ [x])"
  using assms
proof (induction L)
  case (Cons y L)
  have y: "hist_ok L" "\<And>z. z \<in> set L \<Longrightarrow> rec_cursor y < rec_cursor z"
    using Cons.prems(1) by (auto simp: hist_ok_def)
  show ?case
  proof (cases "b < rec_cursor y \<and> rec_cursor y \<le> l")
    case True
    then have "x = y" "rs = between L b l" using Cons.prems(2) by (auto simp: between_def)
    moreover have "between L b l = between L (rec_cursor y) l"
      unfolding between_def using y(2) True by (intro filter_cong) (auto intro: less_trans)
    moreover have "between L a (rec_cursor y) = []" "between L a b = []" for a
      unfolding between_def using y(2) True by (auto simp: filter_empty_conv dest: leD less_trans)
    ultimately show ?thesis using True by (auto simp: between_def)
  next
    case False
    then have r: "between L b l = x # rs" using Cons.prems(2) by (auto simp: between_def)
    then have "x \<in> set L" "rec_cursor x \<le> l" by (auto simp: between_def filter_eq_Cons_iff)
    then have "rec_cursor y \<le> l" using y(2) [of x] by auto
    with False have "rec_cursor y \<le> b" by auto
    with Cons.IH [OF y(1) r] y(2) [OF \<open>x \<in> set L\<close>] show ?thesis by (auto simp: between_def)
  qed
qed (simp add: between_def)


lemma between_empty: "b \<le> a \<Longrightarrow> between L a b = []"
  by (auto simp: between_def filter_empty_conv)

definition client_at :: "EventRecord list \<Rightarrow> ustr list \<Rightarrow> Cursor \<Rightarrow> Cursor \<Rightarrow> Client \<Rightarrow> bool" where
  "client_at L types a b c \<longleftrightarrow> at_cursor c = Some b \<and> a \<le> b \<and>
     sent (sink c) = filter (type_match types) (between L a b)"

lemma send_records_at:
  assumes "hist_ok L" "client_at L types a b c" "rs = between L b l"
  shows "\<exists>b'. client_at L types a b' (send_records types w rs c)"
  using assms(2,3)
proof (induction types w rs c arbitrary: b rule: send_records.induct)
  case (2 types w r rs c)
  from between_Cons [OF assms(1) 2(4) [symmetric]] have r: "b < rec_cursor r" "rs = between L (rec_cursor r) l"
    "\<forall>a \<le> b. between L a (rec_cursor r) = between L a b @ [r]" by auto
  have ab: "a \<le> b" using "2.prems"(1) by (simp add: client_at_def)
  then have a: "a \<le> rec_cursor r" "between L a (rec_cursor r) = between L a b @ [r]" using r by auto
  show ?case
  proof (cases "type_match types r")
    case True
    have "client_at L types a (rec_cursor r) (c \<lparr> sink := sink c @ [SseRecord r], at_cursor := Some (rec_cursor r) \<rparr>)"
      using "2.prems"(1) True a by (simp add: client_at_def)
    with "2.IH"(1) [OF True] r(2) "2.prems"(1) True show ?thesis by (cases w) (auto simp: client_at_def)
  next
    case False
    have "client_at L types a (rec_cursor r) (c \<lparr> at_cursor := Some (rec_cursor r) \<rparr>)"
      using "2.prems"(1) False a by (simp add: client_at_def)
    with "2.IH"(2) [OF False] r(2) False show ?thesis by simp
  qed
qed auto


lemma client_at_frame:
  assumes "client_at L types a b c" "at_cursor c' = at_cursor c" "sent (sink c') = sent (sink c)"
  shows "client_at L types a b c'"
  using assms by (simp add: client_at_def)

lemma closing_frame [simp]:
  "at_cursor (stream_close w code why c) = at_cursor c" "sent (sink (stream_close w code why c)) = sent (sink c)"
  "at_cursor (heartbeat_if idle w c) = at_cursor c" "sent (sink (heartbeat_if idle w c)) = sent (sink c)"
  by (simp_all add: stream_close_def heartbeat_if_def)

definition off_gap :: "u64 option \<Rightarrow> Client \<Rightarrow> bool" where
  "off_gap gap c = (case at_cursor c of None \<Rightarrow> True | Some b \<Rightarrow> gap \<noteq> Some (cseq b) \<or> cindex b = wmax)"

lemma off_gap_None: "off_gap None c"
  by (simp add: off_gap_def split: option.split)

lemma turn_at:
  assumes L: "hist_ok L" and c: "client_at L types a b c" and r: "window L gap r" "off_gap gap c"
  shows "\<exists>b'. client_at L types a b' (stream_turn lag types r faulted shutdown idle w c)"
proof (cases "stream_end c \<noteq> None \<or> shutdown \<or> faulted \<or> is_Behind (ring_position r b) \<or>
    lag < length (records_after r b) \<or> records_after r b = []")
  case True
  have b: "at_cursor c = Some b" using c by (simp add: client_at_def)
  have "client_at L types a b (stream_turn lag types r faulted shutdown idle w c)"
    by (rule client_at_frame [OF c]) (use True b in \<open>auto simp: stream_turn_def Let_def\<close>)
  then show ?thesis by blast
next
  case False
  have b: "at_cursor c = Some b" using c by (simp add: client_at_def)
  have e: "records_after r b = (case ring_last r of None \<Rightarrow> [] | Some l \<Rightarrow> between L b l)"
    using window_exact [OF L r(1)] False r(2) b by (simp add: off_gap_def)
  then obtain l where "records_after r b = between L b l" using False by (cases "ring_last r") auto
  with send_records_at [OF L c, of "records_after r b"] False b show ?thesis
    by (simp add: stream_turn_def Let_def)
qed

text \<open>The turns of one client, against whatever state the shared ring has at each of them.\<close>

inductive streamed :: "EventRecord list \<Rightarrow> ustr list \<Rightarrow> Client \<Rightarrow> Client \<Rightarrow> bool" for L types c0 where
  opened: "streamed L types c0 c0"
| turn: "streamed L types c0 c \<Longrightarrow> window L gap r \<Longrightarrow> off_gap gap c \<Longrightarrow>
    streamed L types c0 (stream_turn lag types r faulted shutdown idle w c)"

lemma streamed_at:
  assumes "streamed L types c0 c" "hist_ok L" "client_at L types a b0 c0"
  shows "\<exists>b. client_at L types a b c"
  using assms
proof (induction rule: streamed.induct)
  case (turn c gap r lag faulted shutdown idle w)
  then obtain b where "client_at L types a b c" by blast
  from turn_at [OF turn.prems(1) this turn.hyps(2,3)] show ?case .
qed blast


text \<open>A live tail takes its place at the newest record of the ring when it finds one.\<close>

lemma streamed_live:
  assumes "streamed L types (client_new StreamStart.LiveTail) c" "hist_ok L"
  shows "at_cursor c = None \<and> sent (sink c) = [] \<or> (\<exists>a b. client_at L types a b c)"
  using assms
proof (induction rule: streamed.induct)
  case (turn c gap r lag faulted shutdown idle w)
  let ?c = "stream_turn lag types r faulted shutdown idle w c"
  show ?case
  proof (cases "at_cursor c")
    case None
    then have "sent (sink c) = []" using turn by (auto simp: client_at_def)
    with None have "at_cursor ?c = None \<and> sent (sink ?c) = [] \<or>
        (\<exists>n. at_cursor ?c = Some n \<and> sent (sink ?c) = [])"
      by (auto simp: stream_turn_def split: option.splits)
    then show ?thesis
    proof (elim disjE exE conjE)
      fix n
      assume "at_cursor ?c = Some n" "sent (sink ?c) = []"
      then have "client_at L types n n ?c" by (simp add: client_at_def between_empty)
      then show ?thesis by blast
    qed simp
  next
    case (Some b)
    then show ?thesis using turn turn_at [OF turn.prems _ turn.hyps(2,3)] by (metis option.distinct(1))
  qed
qed (simp add: client_new_def)

section \<open>Ids\<close>









section \<open>Exactness\<close>




definition sample_record :: "u64 \<Rightarrow> u32 \<Rightarrow> EventRecord" where
  "sample_record q i = \<lparr>rec_seq = q, rec_index = i, event_type = ascii ''e'', rec_data = []\<rparr>"

definition sample_ring :: EventRing where
  "sample_ring = snd (ring_push (sample_record 3 1) (snd (ring_push (sample_record 3 0) (ring_new 8))))"

lemma sample_ring_simps:
  "sample_ring = \<lparr>ring_capacity = 8, ring_buf = [sample_record 3 0, sample_record 3 1], ring_last = Some (Cursor 3 1),
     ring_last_evicted = None, ring_watermark = None\<rparr>"
  by (simp add: sample_ring_def ring_push_def ring_new_def rec_cursor_def sample_record_def less_eq_Cursor_def)

lemma sample_window: "window [sample_record 3 0, sample_record 3 1] None sample_ring"
  unfolding window_def sample_ring_simps
  by (auto simp: rec_cursor_def sample_record_def floor_ok_def intro!: exI [of _ "[]"])

lemma sample_hist: "hist_ok [sample_record 3 0, sample_record 3 1]"
  by (simp add: hist_ok_def rec_cursor_def sample_record_def less_Cursor_def)




lemma send_records_all:
  "length rs \<le> w \<Longrightarrow> send_records types w rs c =
     c \<lparr> sink := sink c @ map SseRecord (filter (type_match types) rs),
         at_cursor := (if rs = [] then at_cursor c else Some (rec_cursor (last rs))) \<rparr>"
  by (induction types w rs c rule: send_records.induct) auto

lemma window_last_in:
  assumes "hist_ok L" "window L gap r" "ring_last r = Some l" "b < l"
  shows "between L b l \<noteq> [] \<and> rec_cursor (last (between L b l)) = l"
proof -
  obtain A C where B: "ring_buf r \<noteq> []" "rec_cursor (last (ring_buf r)) = l" "L = A @ ring_buf r @ C"
    using assms(2,3) by (auto simp: window_def)
  let ?p = "\<lambda>x. b < rec_cursor x \<and> rec_cursor x \<le> l"
  have "filter ?p C = []" using hist_split(3) [of A "ring_buf r" C] assms(1) B by (auto simp: filter_empty_conv dest: leD)
  moreover have "L = (A @ butlast (ring_buf r)) @ [last (ring_buf r)] @ C" using B(1,3) by simp
  ultimately have "between L b l = filter ?p (A @ butlast (ring_buf r)) @ filter ?p [last (ring_buf r)]"
    unfolding between_def by (simp only: filter_append append_Nil2)
  also have "filter ?p [last (ring_buf r)] = [last (ring_buf r)]" using B(2) assms(4) by simp
  finally show ?thesis using B(2) by simp
qed

text \<open>
  C33: A client that keeps up is served completely.  One turn of an open stream whose backlog is within the
  lag bound and whose socket takes the writes brings the client to the newest record of the ring:
  everything of its types from where it started up to there has then been sent, and the stream
  stays open.
\<close>

theorem client_catches_up:
  assumes L: "hist_ok L" and c: "streamed L types (client_new (StreamStart.After a)) c" "stream_end c = None" "at_cursor c = Some b"
    and r: "window L gap r" "off_gap gap c" "ring_last r = Some l" "b \<le> l"
    and k: "\<not> is_Behind (ring_position r b)" "length (records_after r b) \<le> lag" "length (records_after r b) \<le> w"
  shows "at_cursor (stream_turn lag types r False False False w c) = Some l \<and>
    stream_end (stream_turn lag types r False False False w c) = None \<and>
    sent (sink (stream_turn lag types r False False False w c)) = filter (type_match types) (between L a l)"
proof -
  let ?c = "stream_turn lag types r False False False w c"
  have "client_at L types a a (client_new (StreamStart.After a))"
    by (simp add: client_at_def client_new_def between_empty)
  from streamed_at [OF c(1) L this] obtain b0 where "client_at L types a b0 c" by blast
  with c(3) have at: "client_at L types a b c" by (simp add: client_at_def)
  have e: "records_after r b = between L b l"
    using window_exact [OF L r(1) k(1)] r(2,3) c(3) by (simp add: off_gap_def)
  have "at_cursor ?c = Some l \<and> stream_end ?c = None"
  proof (cases "b = l")
    case True
    then have "records_after r b = []" using e by (simp add: between_empty)
    then show ?thesis using c(2,3) k(1) True by (simp add: stream_turn_def heartbeat_if_def)
  next
    case False
    then have bl: "b < l" using r(4) by simp
    have "?c = send_records types w (records_after r b) c"
      using c(2,3) k window_last_in [OF L r(1,3) bl] e by (simp add: stream_turn_def not_less)
    then show ?thesis using send_records_all [OF k(3), of types c] window_last_in [OF L r(1,3) bl] e c(2) by simp
  qed
  moreover obtain b' where "client_at L types a b' ?c" using turn_at [OF L at r(1,2)] by blast
  ultimately show ?thesis by (simp add: client_at_def)
qed

theorem client_catches_up_witness:
  "\<exists>c :: Client. at_cursor c = Some (Cursor 3 1) \<and> stream_end c = None \<and>
     sent (sink c) = filter (type_match []) (between [sample_record 3 0, sample_record 3 1] (Cursor 3 0) (Cursor 3 1))"
proof -
  have s: "ring_last sample_ring = Some (Cursor 3 1)" "records_after sample_ring (Cursor 3 0) = [sample_record 3 1]"
    "\<not> is_Behind (ring_position sample_ring (Cursor 3 0))"
    by (simp_all add: sample_ring_simps records_after_def ring_position_def ring_newest_def ring_oldest_def
        sample_record_def rec_cursor_def less_Cursor_def less_eq_Cursor_def)
  let ?c = "client_new (StreamStart.After (Cursor 3 0))"
  have "stream_end ?c = None" "at_cursor ?c = Some (Cursor 3 0)" "Cursor 3 0 \<le> Cursor 3 1"
    "length (records_after sample_ring (Cursor 3 0)) \<le> 9" "length (records_after sample_ring (Cursor 3 0)) \<le> 5"
    by (simp_all add: client_new_def less_eq_Cursor_def s)
  from client_catches_up [OF sample_hist streamed.opened this(1,2) sample_window off_gap_None s(1) this(3) s(3) this(4,5), where types = "[]"]
  show ?thesis by blast
qed


text \<open>
  A live tail opened on an empty ring: the record that arrives next, after the client connected, becomes its
  starting point and is never sent.
\<close>

lemma live_tail_skips_first:
  fixes types defines "step \<equiv> \<lambda>r. stream_turn 9 types r False False False 5"
    and "ring \<equiv> snd (ring_push (sample_record 1 0) (ring_new 8))"
  shows "step ring (step ring (step (ring_new 8) (client_new StreamStart.LiveTail))) =
    \<lparr>at_cursor = Some (Cursor 1 0), sink = [], stream_end = None\<rparr>"
  by (simp add: step_def ring_def stream_turn_def client_new_def heartbeat_if_def ring_newest_def ring_new_def
      ring_push_def sample_record_def rec_cursor_def records_after_def ring_position_def)

end
