(* ===== verification/Event_Cache.thy ===== *)
theory Event_Cache
  imports Prelude
begin

text \<open>
  The bounded history of the event subscription server
  (\<open>knomosis-event-subscribe/src/event_cache.rs\<close>): the cache of recent events and the decision what a
  subscriber that resumes can be given.  The abstract state is the full list of events ever
  pushed; the lemmas relate every answer of the cache to it.
\<close>

definition HARD_MAX_KEEP_HISTORY :: usize where
  "HARD_MAX_KEEP_HISTORY = 1000000"

definition FROM_OLDEST :: u64 where
  "FROM_OLDEST = wmax"

record CachedEvent =
  ev_seq :: u64
  ev_payload :: bytes

datatype RangeOutcome =
    InWindow "CachedEvent list"
  | OutOfWindow u64
  | AtLiveTail

record EventCache =
  buffer :: "CachedEvent list"
  cache_capacity :: usize
  last_pushed_seq :: u64
  last_evicted_seq :: "u64 option"

datatype PushError = OutOfOrder u64 u64

datatype NewCacheError = ZeroCapacity

definition cache_new :: "usize \<Rightarrow> NewCacheError + EventCache" where
  "cache_new cap =
     (if cap = 0 then Inl ZeroCapacity
      else Inr \<lparr>buffer = [], cache_capacity = min cap HARD_MAX_KEEP_HISTORY,
                last_pushed_seq = 0, last_evicted_seq = None\<rparr>)"

definition cache_len :: "EventCache \<Rightarrow> usize" where
  "cache_len c = length (buffer c)"

definition cache_oldest_seq :: "EventCache \<Rightarrow> u64 option" where
  "cache_oldest_seq c = (case buffer c of [] \<Rightarrow> None | e # _ \<Rightarrow> Some (ev_seq e))"

definition cache_newest_seq :: "EventCache \<Rightarrow> u64 option" where
  "cache_newest_seq c = (if buffer c = [] then None else Some (ev_seq (last (buffer c))))"

definition cache_push :: "EventCache \<Rightarrow> CachedEvent \<Rightarrow> (PushError + unit) \<times> EventCache" where
  "cache_push c event =
     (if ev_seq event = 0 \<or> ev_seq event < last_pushed_seq c
      then (Inl (OutOfOrder (ev_seq event) (last_pushed_seq c)), c)
      else
        let c1 = (if length (buffer c) = cache_capacity c
                  then (case buffer c of [] \<Rightarrow> c
                        | evicted # bs \<Rightarrow> c \<lparr> buffer := bs, last_evicted_seq := Some (ev_seq evicted) \<rparr>)
                  else c)
        in (Inr (), c1 \<lparr> last_pushed_seq := ev_seq event, buffer := buffer c1 @ [event] \<rparr>))"

definition has_partial_front :: "EventCache \<Rightarrow> bool" where
  "has_partial_front c = (case (last_evicted_seq c, buffer c) of
     (Some evicted, front # _) \<Rightarrow> evicted = ev_seq front | _ \<Rightarrow> False)"

definition cache_range :: "EventCache \<Rightarrow> u64 \<Rightarrow> RangeOutcome" where
  "cache_range c from_seq =
     (if buffer c = [] then AtLiveTail
      else
        let oldest = ev_seq (hd (buffer c)); newest = ev_seq (last (buffer c)) in
        if from_seq = FROM_OLDEST then
          let start_exclusive = (if has_partial_front c then oldest else wsat_sub oldest 1)
          in InWindow (filter (\<lambda>e. start_exclusive < ev_seq e) (buffer c))
        else if from_seq = 0 then AtLiveTail
        else if newest \<le> from_seq then AtLiveTail
        else if wsat_add from_seq 1 < oldest then OutOfWindow oldest
        else if has_partial_front c \<and> from_seq < oldest then OutOfWindow (wsat_add oldest 1)
        else InWindow (filter (\<lambda>e. from_seq < ev_seq e) (buffer c)))"

definition cache_get :: "EventCache \<Rightarrow> u64 \<Rightarrow> CachedEvent option" where
  "cache_get c seq = find (\<lambda>e. ev_seq e = seq) (buffer c)"

section \<open>The cache against the full history\<close>

inductive cached :: "EventCache \<Rightarrow> CachedEvent list \<Rightarrow> bool" where
  empty: "cache_new cap = Inr c \<Longrightarrow> cached c []"
| push: "cached c h \<Longrightarrow> cache_push c e = (Inr (), c') \<Longrightarrow> cached c' (h @ [e])"

text \<open>
  What the cache holds is the end of the history; the dropped part is remembered only by the
  sequence number of its last event.
\<close>

definition cache_inv :: "EventCache \<Rightarrow> CachedEvent list \<Rightarrow> bool" where
  "cache_inv c h \<longleftrightarrow> 0 < cache_capacity c \<and>
     sorted (map ev_seq h) \<and> (\<forall>e \<in> set h. ev_seq e \<noteq> 0) \<and>
     last_pushed_seq c = (if h = [] then 0 else ev_seq (last h)) \<and>
     buffer c = drop (length h - cache_capacity c) h \<and>
     last_evicted_seq c = (if length h \<le> cache_capacity c then None
       else Some (ev_seq (h ! (length h - cache_capacity c - 1))))"

lemma sorted_seq_last: "sorted (map ev_seq xs) \<Longrightarrow> e \<in> set xs \<Longrightarrow> ev_seq e \<le> ev_seq (last xs)"
  by (induction xs) auto

lemma cached_push_sorted:
  assumes "cache_inv c h" "last_pushed_seq c \<le> ev_seq e"
  shows "sorted (map ev_seq (h @ [e]))"
proof -
  have "ev_seq x \<le> ev_seq e" if "x \<in> set h" for x
    using assms that sorted_seq_last [of h x] by (auto simp: cache_inv_def split: if_splits)
  with assms(1) show ?thesis by (auto simp: cache_inv_def sorted_append)
qed

lemma cache_push_Inr:
  assumes "cache_push c e = (Inr (), c')"
  shows "ev_seq e \<noteq> 0" "last_pushed_seq c \<le> ev_seq e" "last_pushed_seq c' = ev_seq e"
    "cache_capacity c' = cache_capacity c"
    "length (buffer c) \<noteq> cache_capacity c \<Longrightarrow> buffer c' = buffer c @ [e] \<and> last_evicted_seq c' = last_evicted_seq c"
    "length (buffer c) = cache_capacity c \<Longrightarrow> buffer c = x # bs \<Longrightarrow>
       buffer c' = bs @ [e] \<and> last_evicted_seq c' = Some (ev_seq x)"
  using assms by (auto simp: cache_push_def Let_def split: if_splits list.splits)

lemma cached_push_inv:
  assumes inv: "cache_inv c h" and p: "cache_push c e = (Inr (), c')"
  shows "cache_inv c' (h @ [e])"
proof -
  let ?n = "cache_capacity c"
  note ok = cache_push_Inr [OF p] and sorted = cached_push_sorted [OF inv cache_push_Inr(2) [OF p]]
  have b: "buffer c = drop (length h - ?n) h" and n: "0 < ?n" using inv by (simp_all add: cache_inv_def)
  show ?thesis
  proof (cases "length h < ?n")
    case True
    then have "buffer c' = h @ [e]" "last_evicted_seq c' = None"
      using ok(5) b inv by (auto simp: cache_inv_def)
    with True inv ok(1,3,4) sorted show ?thesis by (simp add: cache_inv_def)
  next
    case False
    then have b': "buffer c = h ! (length h - ?n) # drop (Suc (length h - ?n)) h"
      using b n by (simp add: Cons_nth_drop_Suc)
    have "length (buffer c) = ?n" using b False by simp
    from ok(6) [OF this b'] have
      "buffer c' = drop (Suc (length h - ?n)) h @ [e]" "last_evicted_seq c' = Some (ev_seq (h ! (length h - ?n)))"
      by simp_all
    moreover have "length h - ?n < length h" using False n by arith
    ultimately show ?thesis using False n inv ok(1,3,4) sorted
      by (simp add: cache_inv_def Suc_diff_le nth_append)
  qed
qed

lemma cached_inv: "cached c h \<Longrightarrow> cache_inv c h"
proof (induction rule: cached.induct)
  case (empty cap c)
  then show ?case
    by (auto simp: cache_new_def cache_inv_def HARD_MAX_KEEP_HISTORY_def split: if_splits)
qed (rule cached_push_inv)

text \<open>The dropped part of the history, and what the partial-front test says about it.\<close>

abbreviation dropped :: "EventCache \<Rightarrow> CachedEvent list \<Rightarrow> CachedEvent list" where
  "dropped c h \<equiv> take (length h - cache_capacity c) h"

lemma history_split: "cache_inv c h \<Longrightarrow> h = dropped c h @ buffer c"
  by (simp add: cache_inv_def)

lemma buffer_empty_iff: "cache_inv c h \<Longrightarrow> buffer c = [] \<longleftrightarrow> h = []"
  by (cases h) (auto simp: cache_inv_def)

lemma buffer_sorted: "cache_inv c h \<Longrightarrow> sorted (map ev_seq (buffer c))"
  by (auto simp: cache_inv_def drop_map [symmetric])

lemma oldest_le: "cache_inv c h \<Longrightarrow> e \<in> set (buffer c) \<Longrightarrow> ev_seq (hd (buffer c)) \<le> ev_seq e"
  using buffer_sorted [of c h] by (cases "buffer c") auto

lemma newest_ge: "cache_inv c h \<Longrightarrow> e \<in> set h \<Longrightarrow> ev_seq e \<le> ev_seq (last h)"
  by (simp add: cache_inv_def sorted_seq_last)

lemma newest_buffer: "cache_inv c h \<Longrightarrow> buffer c \<noteq> [] \<Longrightarrow> last (buffer c) = last h"
  by (metis history_split last_appendR)

lemma dropped_le_evicted:
  assumes "cache_inv c h" "e \<in> set (dropped c h)"
  shows "\<exists>v. last_evicted_seq c = Some v \<and> ev_seq e \<le> v"
proof -
  let ?d = "dropped c h"
  have l: "cache_capacity c < length h" using assms(2) by (cases "cache_capacity c < length h") auto
  have "sorted (map ev_seq ?d)" using assms(1) by (simp add: cache_inv_def take_map [symmetric])
  then have "ev_seq e \<le> ev_seq (last ?d)"
    using assms(2) by (rule sorted_seq_last)
  moreover have "last ?d = h ! (length h - cache_capacity c - 1)"
    using l by (subst last_conv_nth) auto
  ultimately show ?thesis using assms(1) l by (simp add: cache_inv_def)
qed

lemma evicted_le_oldest:
  assumes "cache_inv c h" "last_evicted_seq c = Some v" "buffer c \<noteq> []"
  shows "v \<le> ev_seq (hd (buffer c))"
proof -
  let ?k = "length h - cache_capacity c"
  have k: "cache_capacity c < length h" "v = ev_seq (h ! (?k - 1))" "0 < cache_capacity c"
    using assms(1,2) by (auto simp: cache_inv_def split: if_splits)
  have "hd (buffer c) = h ! ?k" using assms(1) k by (simp add: cache_inv_def hd_drop_conv_nth)
  moreover have "ev_seq (h ! (?k - 1)) \<le> ev_seq (h ! ?k)"
    using sorted_nth_mono [of "map ev_seq h" "?k - 1" ?k] assms(1) k by (simp add: cache_inv_def)
  ultimately show ?thesis using k(2) by simp
qed

text \<open>Resuming at or after every dropped event loses nothing.\<close>

lemma resume_complete:
  assumes "cache_inv c h" "buffer c \<noteq> []" "ev_seq (hd (buffer c)) \<le> wsat_add r 1"
    "\<not> (has_partial_front c \<and> r < ev_seq (hd (buffer c)))"
  shows "filter (\<lambda>e. r < ev_seq e) (buffer c) = filter (\<lambda>e. r < ev_seq e) h"
proof -
  have "ev_seq e \<le> r" if e: "e \<in> set (dropped c h)" for e
  proof -
    obtain v where v: "last_evicted_seq c = Some v" "ev_seq e \<le> v"
      using dropped_le_evicted [OF assms(1) e] by blast
    have le: "v \<le> ev_seq (hd (buffer c))" by (rule evicted_le_oldest [OF assms(1) v(1) assms(2)])
    show ?thesis
    proof (cases "r < ev_seq (hd (buffer c))")
      case True
      then have "v \<noteq> ev_seq (hd (buffer c))"
        using assms(2,4) v(1) by (auto simp: has_partial_front_def split: list.splits)
      with le assms(3) v(2) show ?thesis by (auto simp: word_le_nat_alt word_unat_eq_iff unat_wsat_add)
    qed (use le v(2) in auto)
  qed
  then have "filter (\<lambda>e. r < ev_seq e) (dropped c h) = []" by (auto simp: filter_empty_conv not_less)
  then show ?thesis by (metis append_Nil filter_append history_split [OF assms(1)])
qed

definition served :: "CachedEvent list \<Rightarrow> u64 \<Rightarrow> RangeOutcome" where
  "served h r = (let es = filter (\<lambda>e. r < ev_seq e) h in if es = [] then AtLiveTail else InWindow es)"

lemma nothing_newer: "cache_inv c h \<Longrightarrow> h \<noteq> [] \<Longrightarrow>
    ev_seq (last h) \<le> r \<longleftrightarrow> filter (\<lambda>e. r < ev_seq e) h = []"
  using newest_ge [of c h] by (fastforce simp: filter_empty_conv not_less)

lemma range_resume:
  assumes "cache_inv c h" "buffer c \<noteq> []" "r \<noteq> 0" "r \<noteq> FROM_OLDEST"
    "ev_seq (hd (buffer c)) \<le> wsat_add r 1" "\<not> (has_partial_front c \<and> r < ev_seq (hd (buffer c)))"
  shows "cache_range c r = served h r"
  using assms nothing_newer [OF assms(1), of r] resume_complete [OF assms(1,2,5,6)]
    newest_buffer [OF assms(1,2)] buffer_empty_iff [OF assms(1)]
  by (auto simp: cache_range_def served_def Let_def not_less)

lemma hd_nonzero: "cache_inv c h \<Longrightarrow> buffer c \<noteq> [] \<Longrightarrow> ev_seq (hd (buffer c)) \<noteq> 0"
  using history_split [of c h] by (metis Un_iff cache_inv_def hd_in_set set_append)

lemma partial_front_dropped:
  assumes "cache_inv c h" "has_partial_front c"
  shows "\<exists>d \<in> set (dropped c h). ev_seq d = ev_seq (hd (buffer c))"
proof -
  have "last_evicted_seq c = Some (ev_seq (hd (buffer c)))"
    using assms(2) by (auto simp: has_partial_front_def split: option.splits list.splits)
  with assms(1) have l: "cache_capacity c < length h"
    "ev_seq (h ! (length h - cache_capacity c - 1)) = ev_seq (hd (buffer c))"
    by (auto simp: cache_inv_def split: if_splits)
  then have "dropped c h ! (length h - cache_capacity c - 1) \<in> set (dropped c h)" by (intro nth_mem) auto
  with l show ?thesis by (intro bexI [of _ "h ! (length h - cache_capacity c - 1)"]) auto
qed

lemma range_resume_cases:
  assumes inv: "cache_inv c h" and ne: "buffer c \<noteq> []" and r: "r \<noteq> FROM_OLDEST"
  shows "case cache_range c r of
      InWindow es \<Rightarrow> r \<noteq> 0 \<and> es \<noteq> [] \<and> es = filter (\<lambda>e. r < ev_seq e) h
    | AtLiveTail \<Rightarrow> r = 0 \<or> filter (\<lambda>e. r < ev_seq e) h = []
    | OutOfWindow s \<Rightarrow> r \<noteq> 0 \<and> r < s"
proof (cases "r \<noteq> 0 \<and> ev_seq (hd (buffer c)) \<le> wsat_add r 1 \<and> \<not> (has_partial_front c \<and> r < ev_seq (hd (buffer c)))")
  case True
  with range_resume [OF inv ne _ r] show ?thesis by (auto simp: served_def Let_def)
next
  case False
  have "ev_seq (last (buffer c)) \<le> r \<Longrightarrow> filter (\<lambda>e. r < ev_seq e) h = []"
    using nothing_newer [OF inv, of r] newest_buffer [OF inv ne] buffer_empty_iff [OF inv] ne by auto
  moreover have "r < x" if "wsat_add r 1 < x" for x
    using that le_wsat_add [of r 1] by simp
  moreover have "r < wsat_add x 1" if "r < x" for x
    using that le_wsat_add [of x 1] by simp
  ultimately show ?thesis using False r ne by (auto simp: cache_range_def Let_def not_le)
qed

lemma range_answers:
  assumes "cache_inv c h" "r \<noteq> FROM_OLDEST"
  shows "cache_range c r = InWindow es \<Longrightarrow> r \<noteq> 0 \<and> es \<noteq> [] \<and> es = filter (\<lambda>e. r < ev_seq e) h"
    and "cache_range c r = AtLiveTail \<Longrightarrow> r = 0 \<or> filter (\<lambda>e. r < ev_seq e) h = []"
proof -
  have e: "buffer c = [] \<Longrightarrow> cache_range c r = AtLiveTail" by (simp add: cache_range_def)
  show "cache_range c r = InWindow es \<Longrightarrow> r \<noteq> 0 \<and> es \<noteq> [] \<and> es = filter (\<lambda>e. r < ev_seq e) h"
    using e range_resume_cases [OF assms(1) _ assms(2)] by fastforce
  show "cache_range c r = AtLiveTail \<Longrightarrow> r = 0 \<or> filter (\<lambda>e. r < ev_seq e) h = []"
    using buffer_empty_iff [OF assms(1)] range_resume_cases [OF assms(1) _ assms(2)] by fastforce
qed

lemma range_from_oldest:
  assumes inv: "cache_inv c h" and ne: "buffer c \<noteq> []"
    and s: "s = (if has_partial_front c then ev_seq (hd (buffer c)) else wsat_sub (ev_seq (hd (buffer c))) 1)"
  shows "filter (\<lambda>e. s < ev_seq e) (buffer c) = filter (\<lambda>e. s < ev_seq e) h"
proof (rule resume_complete [OF inv ne])
  from hd_nonzero [OF inv ne] show "ev_seq (hd (buffer c)) \<le> wsat_add s 1" "\<not> (has_partial_front c \<and> s < ev_seq (hd (buffer c)))"
    using s unat_lt [of "ev_seq (hd (buffer c))"]
    by (auto simp: word_le_nat_alt unat_wsat_add unat_wsat_sub unat_eq_0)
qed

lemma dropped_le_oldest: "cache_inv c h \<Longrightarrow> buffer c \<noteq> [] \<Longrightarrow> d \<in> set (dropped c h) \<Longrightarrow> ev_seq d \<le> ev_seq (hd (buffer c))"
  using dropped_le_evicted [of c h d] evicted_le_oldest [of c h] by fastforce

text \<open>The front of the cache is partial exactly if an event of its sequence number was dropped.\<close>

lemma partial_front_iff:
  assumes "cache_inv c h" "buffer c \<noteq> []"
  shows "has_partial_front c \<longleftrightarrow> (\<exists>d \<in> set (dropped c h). ev_seq d = ev_seq (hd (buffer c)))"
proof
  assume "\<exists>d \<in> set (dropped c h). ev_seq d = ev_seq (hd (buffer c))"
  then obtain d where d: "d \<in> set (dropped c h)" "ev_seq d = ev_seq (hd (buffer c))" by blast
  obtain v where v: "last_evicted_seq c = Some v" "ev_seq d \<le> v" using dropped_le_evicted [OF assms(1) d(1)] by blast
  then have "v = ev_seq (hd (buffer c))" using evicted_le_oldest [OF assms(1) v(1) assms(2)] d(2) by simp
  then show "has_partial_front c" using v(1) assms(2) by (cases "buffer c") (auto simp: has_partial_front_def)
qed (rule partial_front_dropped [OF assms(1)])

text \<open>
  What a cache of \<open>n\<close> events answers, said of the whole history: the events still kept, those gone, and
  where the request lies.
\<close>

definition history_range :: "usize \<Rightarrow> CachedEvent list \<Rightarrow> u64 \<Rightarrow> RangeOutcome" where
  "history_range n h r =
     (let gone = take (length h - n) h; kept = drop (length h - n) h; oldest = ev_seq (hd kept) in
      if h = [] then AtLiveTail
      else if r = FROM_OLDEST then InWindow (filter (\<lambda>e. \<forall>d \<in> set gone. ev_seq d \<noteq> ev_seq e) kept)
      else if r = 0 \<or> (\<forall>e \<in> set h. ev_seq e \<le> r) then AtLiveTail
      else if unat r + 1 < unat oldest then OutOfWindow oldest
      else if \<exists>d \<in> set gone. r < ev_seq d then OutOfWindow (wsat_add oldest 1)
      else InWindow (filter (\<lambda>e. r < ev_seq e) h))"

lemma range_oldest_history:
  assumes inv: "cache_inv c h" and ne: "buffer c \<noteq> []"
  shows "cache_range c FROM_OLDEST = InWindow (filter (\<lambda>e. \<forall>d \<in> set (dropped c h). ev_seq d \<noteq> ev_seq e) (buffer c))"
proof -
  let ?o = "ev_seq (hd (buffer c))"
  define s where "s = (if has_partial_front c then ?o else wsat_sub ?o 1)"
  have "s < ev_seq e \<longleftrightarrow> (\<forall>d \<in> set (dropped c h). ev_seq d \<noteq> ev_seq e)" if e: "e \<in> set (buffer c)" for e
  proof (cases "has_partial_front c")
    case True
    then have "\<exists>d \<in> set (dropped c h). ev_seq d = ?o" using partial_front_iff [OF inv ne] by simp
    then show ?thesis using True dropped_le_oldest [OF inv ne] oldest_le [OF inv e] by (fastforce simp: s_def order_le_less)
  next
    case False
    have "s < ev_seq e" using False oldest_le [OF inv e] hd_nonzero [OF inv ne]
      by (simp add: s_def word_less_nat_alt word_le_nat_alt unat_wsat_sub unat_eq_0 [symmetric])
    moreover have "ev_seq d \<noteq> ev_seq e" if "d \<in> set (dropped c h)" for d
      using False partial_front_iff [OF inv ne] that dropped_le_oldest [OF inv ne that] oldest_le [OF inv e] by fastforce
    ultimately show ?thesis by blast
  qed
  then have "filter (\<lambda>e. s < ev_seq e) (buffer c) = filter (\<lambda>e. \<forall>d \<in> set (dropped c h). ev_seq d \<noteq> ev_seq e) (buffer c)"
    by (intro filter_cong) auto
  then show ?thesis using ne by (simp add: cache_range_def s_def Let_def)
qed

lemma range_history:
  assumes inv: "cache_inv c h"
  shows "cache_range c r = history_range (cache_capacity c) h r"
proof (cases "buffer c = []")
  case True
  then show ?thesis using buffer_empty_iff [OF inv] by (simp add: cache_range_def history_range_def)
next
  case ne: False
  let ?o = "ev_seq (hd (buffer c))"
  have b: "buffer c = drop (length h - cache_capacity c) h" "h \<noteq> []"
    using inv ne buffer_empty_iff [OF inv] by (simp_all add: cache_inv_def)
  show ?thesis
  proof (cases "r = FROM_OLDEST")
    case True
    then show ?thesis using range_oldest_history [OF inv ne] b by (simp add: history_range_def)
  next
    case False
    have tail: "ev_seq (last (buffer c)) \<le> r \<longleftrightarrow> (\<forall>e \<in> set h. ev_seq e \<le> r)"
      using nothing_newer [OF inv b(2), of r] newest_buffer [OF inv ne] by (simp add: filter_empty_conv not_less)
    have below: "wsat_add r 1 < ?o \<longleftrightarrow> unat r + 1 < unat ?o"
      using unat_lt [of ?o] by (auto simp: word_less_nat_alt unat_wsat_add)
    have part: "has_partial_front c \<and> r < ?o \<longleftrightarrow> (\<exists>d \<in> set (dropped c h). r < ev_seq d)" if "\<not> unat r + 1 < unat ?o"
    proof
      assume "\<exists>d \<in> set (dropped c h). r < ev_seq d"
      then obtain d where d: "d \<in> set (dropped c h)" "r < ev_seq d" by blast
      then have "ev_seq d = ?o" using dropped_le_oldest [OF inv ne d(1)] that
        by (simp add: word_le_nat_alt word_less_nat_alt word_unat_eq_iff)
      then show "has_partial_front c \<and> r < ?o" using d partial_front_iff [OF inv ne] by auto
    next
      assume a: "has_partial_front c \<and> r < ?o"
      then obtain d where "d \<in> set (dropped c h)" "ev_seq d = ?o" using partial_front_iff [OF inv ne] by blast
      with a show "\<exists>d \<in> set (dropped c h). r < ev_seq d" by (intro bexI [of _ d]) simp_all
    qed
    have "filter (\<lambda>e. r < ev_seq e) (buffer c) = filter (\<lambda>e. r < ev_seq e) h"
      if "\<not> unat r + 1 < unat ?o" "\<not> (has_partial_front c \<and> r < ?o)"
      by (rule resume_complete [OF inv ne _ that(2)]) (use that(1) below in \<open>simp add: not_less\<close>)
    then show ?thesis using False ne b(2) tail below part
      unfolding cache_range_def history_range_def Let_def b(1) [symmetric] by simp
  qed
qed

text \<open>
  C27: What a resuming subscriber is given is decided by the whole history.  The cache holds its last events up
  to the capacity.  A resume from \<open>r\<close> is refused exactly if \<open>r\<close> lies more than one below the oldest
  kept sequence number, or an event behind \<open>r\<close> was dropped; the refusal then names the oldest kept
  number, or the one above it when the oldest batch has lost events.  Otherwise it is answered with all
  events of the history behind \<open>r\<close>, in order, or with "live tail" if there are none or \<open>r\<close> is 0.  The
  request from the oldest event is answered with the kept batches of which no event was dropped.
\<close>

theorem cache_range_exact:
  assumes "cached c h"
  shows "buffer c = drop (length h - cache_capacity c) h \<and> cache_range c r = history_range (cache_capacity c) h r"
  using range_history [OF cached_inv [OF assms]] cached_inv [OF assms] by (simp add: cache_inv_def)

definition sample_event :: CachedEvent where
  "sample_event = \<lparr>ev_seq = 5, ev_payload = [1]\<rparr>"

definition sample_cache :: EventCache where
  "sample_cache = \<lparr>buffer = [sample_event], cache_capacity = 10, last_pushed_seq = 5, last_evicted_seq = None\<rparr>"

lemma sample_cached: "cached sample_cache [sample_event]"
proof -
  have "cached \<lparr>buffer = [], cache_capacity = 10, last_pushed_seq = 0, last_evicted_seq = None\<rparr> []"
    by (rule cached.empty [of 10]) (simp add: cache_new_def HARD_MAX_KEEP_HISTORY_def)
  then have "cached sample_cache ([] @ [sample_event])"
    by (rule cached.push) (simp add: cache_push_def sample_cache_def sample_event_def)
  then show ?thesis by simp
qed

lemma sample_words:
  "(4 :: u64) \<noteq> FROM_OLDEST" "(1 :: u64) \<noteq> FROM_OLDEST" "wsat_add (4 :: u64) 1 = 5" "wsat_add (1 :: u64) 1 = 2"
  "\<not> (5 :: u64) \<le> 1"
  by (simp_all add: word_le_nat_alt FROM_OLDEST_def word_unat_eq_iff unat_wmax unat_wsat_add)

theorem cache_range_exact_witness:
  "cached sample_cache [sample_event] \<and> cache_range sample_cache 4 = InWindow [sample_event] \<and>
   cache_range sample_cache 1 = OutOfWindow 5"
proof -
  have "history_range 10 [sample_event] 4 = InWindow [sample_event]" "history_range 10 [sample_event] 1 = OutOfWindow 5"
    using sample_words by (simp_all add: history_range_def sample_event_def)
  then show ?thesis
    using cache_range_exact [OF sample_cached, of 4] cache_range_exact [OF sample_cached, of 1] sample_cached
    by (simp add: sample_cache_def)
qed

lemma truncated_cases:
  assumes "cache_range c r = OutOfWindow s"
  shows "buffer c \<noteq> []" "r \<noteq> 0" "r < ev_seq (hd (buffer c))"
    "wsat_add r 1 < ev_seq (hd (buffer c)) \<and> s = ev_seq (hd (buffer c)) \<or>
     has_partial_front c \<and> s = wsat_add (ev_seq (hd (buffer c))) 1"
proof -
  show "buffer c \<noteq> []" "r \<noteq> 0" using assms by (auto simp: cache_range_def Let_def split: if_splits)
  have c: "wsat_add r 1 < ev_seq (hd (buffer c)) \<and> s = ev_seq (hd (buffer c)) \<or>
     has_partial_front c \<and> r < ev_seq (hd (buffer c)) \<and> s = wsat_add (ev_seq (hd (buffer c))) 1"
    using assms by (simp add: cache_range_def Let_def split: if_splits)
  then show "r < ev_seq (hd (buffer c))" using le_wsat_add [of r 1] by auto
  from c show "wsat_add r 1 < ev_seq (hd (buffer c)) \<and> s = ev_seq (hd (buffer c)) \<or>
     has_partial_front c \<and> s = wsat_add (ev_seq (hd (buffer c))) 1" by blast
qed

text \<open>
  At the sequence number a refusal reports everything behind it is served; where no batch lost its
  head, so is everything from it on, one number below.
\<close>

lemma truncated_points:
  assumes inv: "cache_inv c h" and r: "cache_range c r = OutOfWindow s"
    and small: "unat (ev_seq (hd (buffer c))) + 2 < 2 ^ 64"
  shows "cache_range c s = served h s" "unat r < unat s"
    "\<not> has_partial_front c \<Longrightarrow> s = ev_seq (hd (buffer c)) \<and> unat r < unat (s - 1) \<and>
       unat (s - 1) + 1 = unat s \<and> cache_range c (s - 1) = served h (s - 1)"
proof -
  let ?o = "unat (ev_seq (hd (buffer c)))"
  note t = truncated_cases [OF r]
  have ro: "unat r < ?o" using t(3) by (simp add: word_less_nat_alt)
  have r0: "0 < unat r" using t(2) by (simp add: unat_gt_0)
  have s: "unat r + 1 < ?o \<and> unat s = ?o \<or> has_partial_front c \<and> unat s = ?o + 1"
    using t(4) small ro by (auto simp: word_less_nat_alt unat_wsat_add split: if_splits)
  then have big: "2 \<le> unat s" "unat s < 2 ^ 64 - 1" using ro r0 small by auto
  show "unat r < unat s" using s ro by auto
  have go: "cache_range c x = served h x"
    if x: "1 \<le> unat x" "unat x < 2 ^ 64 - 1" "?o \<le> unat x + 1" "has_partial_front c \<longrightarrow> ?o \<le> unat x" for x
  proof (rule range_resume [OF inv t(1)])
    show "x \<noteq> 0" "x \<noteq> FROM_OLDEST" using x(1,2) by (auto simp: FROM_OLDEST_def unat_wmax)
    show "ev_seq (hd (buffer c)) \<le> wsat_add x 1" using x(2,3) by (simp add: word_le_nat_alt unat_wsat_add)
    show "\<not> (has_partial_front c \<and> x < ev_seq (hd (buffer c)))" using x(4) by (simp add: word_less_nat_alt not_less)
  qed
  show "cache_range c s = served h s" using s big by (intro go) auto
  assume np: "\<not> has_partial_front c"
  with s have e: "unat r + 1 < ?o" "unat s = ?o" by auto
  have p: "unat (s - 1) = unat s - 1" using big by (simp add: unat_sub_nowrap word_le_nat_alt)
  have "cache_range c (s - 1) = served h (s - 1)" using e p big np by (intro go) auto
  with e p show "s = ev_seq (hd (buffer c)) \<and> unat r < unat (s - 1) \<and>
       unat (s - 1) + 1 = unat s \<and> cache_range c (s - 1) = served h (s - 1)"
    by (simp add: word_unat_eq_iff)
qed

text \<open>
  The sequence number a refusal reports is a resume point that works: asking again from it is
  answered with everything behind it.  It is not the smallest one: as long as no batch lost its head,
  asking from one number below is answered too, and gives in addition the oldest retained batch,
  which a client that follows the report never receives.
\<close>

theorem truncated_resume_point:
  assumes "cached c h" and "cache_range c r = OutOfWindow s" and "\<forall>e \<in> set h. unat (ev_seq e) + 2 < 2 ^ 64"
  shows "r < s \<and> cache_range c s = served h s \<and>
    (\<not> has_partial_front c \<longrightarrow> r < s - 1 \<and>
      cache_range c (s - 1) = InWindow (filter (\<lambda>e. s \<le> ev_seq e) h) \<and> (\<exists>e \<in> set h. ev_seq e = s))"
proof -
  note inv = cached_inv [OF assms(1)] and ne = truncated_cases(1) [OF assms(2)]
  have hd: "hd (buffer c) \<in> set h" using ne history_split [OF inv] by (metis Un_iff hd_in_set set_append)
  note p = truncated_points [OF inv assms(2) assms(3) [rule_format, OF hd]]
  have "cache_range c (s - 1) = InWindow (filter (\<lambda>e. s \<le> ev_seq e) h)"
    if np: "\<not> has_partial_front c"
  proof -
    have "s - 1 < x \<longleftrightarrow> s \<le> x" for x
    proof -
      have "unat (s - 1) + 1 = unat s" using p(3) [OF np] by blast
      then show ?thesis unfolding word_less_nat_alt word_le_nat_alt by linarith
    qed
    moreover have "filter (\<lambda>e. s \<le> ev_seq e) h \<noteq> []"
      using p(3) [OF np] hd by (auto simp: filter_empty_conv)
    moreover have "cache_range c (s - 1) = served h (s - 1)" using p(3) [OF np] by blast
    ultimately show ?thesis by (simp add: served_def Let_def)
  qed
  with p hd show ?thesis by (auto simp: word_less_nat_alt)
qed

theorem truncated_resume_point_witness:
  "cached sample_cache [sample_event] \<and> cache_range sample_cache 1 = OutOfWindow 5 \<and>
   cache_range sample_cache 5 = AtLiveTail \<and> cache_range sample_cache (5 - 1) = InWindow [sample_event]"
proof -
  have r: "cache_range sample_cache 1 = OutOfWindow 5"
    by (simp add: cache_range_def sample_cache_def sample_event_def sample_words)
  have "\<not> has_partial_front sample_cache" by (simp add: has_partial_front_def sample_cache_def)
  moreover note truncated_resume_point [OF sample_cached r]
  ultimately show ?thesis using r sample_cached by (simp add: served_def sample_event_def)
qed

end
