(* ===== verification/Event_Frame.thy ===== *)
theory Event_Frame
  imports Prelude
begin

text \<open>
  The wire frames of the event subscription: the server's encoder and parsers
  (\<open>knomosis-event-subscribe/src/frame.rs\<close>) and the parser of the subscribe client that the
  indexer and the gateway use (\<open>knomosis-indexer/src/client.rs\<close>).  A socket is the sequence of
  chunks its \<open>read\<close> calls return, so the read loops are modelled as they are written; the lemmas
  show that the result depends only on the bytes, never on how they were cut into chunks.
\<close>

section \<open>Sockets and the read loop\<close>

record reader =
  chunks :: "bytes list"
  broken :: bool

text \<open>
  One \<open>read\<close> call into a buffer of \<open>n\<close> bytes: at most the first chunk; no bytes at the end of the
  stream, or an I/O error where the connection breaks instead of closing.
\<close>

definition sock_read :: "usize \<Rightarrow> reader \<Rightarrow> (unit + bytes \<times> reader)" where
  "sock_read n r = (case chunks r of
     [] \<Rightarrow> if broken r then Inl () else Inr ([], r)
   | c # cs \<Rightarrow> if length c \<le> n then Inr (c, r \<lparr> chunks := cs \<rparr>)
       else Inr (take n c, r \<lparr> chunks := drop n c # cs \<rparr>))"

text \<open>The loop \<open>while filled < buf.len()\<close>; an end of stream reports how much was filled.\<close>

function fill :: "usize \<Rightarrow> bytes \<Rightarrow> reader \<Rightarrow> usize option + bytes \<times> reader" where
  "fill n acc r =
     (if length acc < n then
        (case sock_read (n - length acc) r of
           Inl _ \<Rightarrow> Inl None
         | Inr (bs, r') \<Rightarrow> if bs = [] then Inl (Some (length acc)) else fill n (acc @ bs) r')
      else Inr (acc, r))"
  by pat_completeness auto
termination
  by (relation "measure (\<lambda>(n, acc, r). n - length acc)") (auto simp flip: length_greater_0_conv)

declare fill.simps [simp del]

definition stream :: "reader \<Rightarrow> bytes" where
  "stream r = concat (chunks r)"

definition reader_wf :: "reader \<Rightarrow> bool" where
  "reader_wf r \<longleftrightarrow> [] \<notin> set (chunks r)"

lemma sock_read_end: "reader_wf r \<Longrightarrow> stream r = [] \<Longrightarrow>
    sock_read n r = (if broken r then Inl () else Inr ([], r))"
  by (cases "chunks r") (auto simp: sock_read_def stream_def reader_wf_def)

lemma sock_read_some:
  assumes "reader_wf r" "stream r \<noteq> []" "0 < n"
  shows "\<exists>bs r'. sock_read n r = Inr (bs, r') \<and> bs \<noteq> [] \<and> length bs \<le> n \<and> stream r = bs @ stream r' \<and>
    reader_wf r' \<and> broken r' = broken r"
proof -
  obtain c cs where c: "chunks r = c # cs" "c \<noteq> []"
    using assms by (cases "chunks r") (auto simp: stream_def reader_wf_def)
  then show ?thesis using assms
    by (auto simp: sock_read_def stream_def reader_wf_def not_le)
qed

text \<open>However the stream is cut, the loop takes exactly the next \<open>n\<close> bytes, or reports what is there.\<close>

lemma fill_ok:
  assumes "reader_wf r" "length acc + length x = n" "stream r = x @ rest"
  shows "\<exists>r'. fill n acc r = Inr (acc @ x, r') \<and> stream r' = rest \<and> reader_wf r' \<and> broken r' = broken r"
  using assms
proof (induction n acc r arbitrary: x rule: fill.induct)
  case (1 n acc r)
  show ?case
  proof (cases "x = []")
    case True
    with "1.prems" show ?thesis by (subst fill.simps) simp
  next
    case False
    with "1.prems" obtain bs r' where b: "sock_read (n - length acc) r = Inr (bs, r')" "bs \<noteq> []"
      "length bs \<le> n - length acc" "stream r = bs @ stream r'" "reader_wf r'" "broken r' = broken r"
      using sock_read_some [of r "n - length acc"] by auto
    have "x @ rest = bs @ stream r'" "length bs \<le> length x" using "1.prems"(2,3) b(3,4) by auto
    then obtain y where y: "x = bs @ y" "stream r' = y @ rest"
      by (auto simp: append_eq_append_conv2)
    have lt: "length acc < n" using False "1.prems"(2) by (cases x) auto
    show ?thesis
      using "1.IH" [OF lt b(1) refl b(2,5) _ y(2)] "1.prems"(2) b y
      by (subst fill.simps) (simp add: lt)
  qed
qed

lemma fill_short:
  assumes "reader_wf r" "length acc + length (stream r) < n"
  shows "fill n acc r = Inl (if broken r then None else Some (length acc + length (stream r)))"
  using assms
proof (induction n acc r rule: fill.induct)
  case (1 n acc r)
  show ?case
  proof (cases "stream r = []")
    case True
    with "1.prems" show ?thesis by (subst fill.simps) (simp add: sock_read_end)
  next
    case False
    from "1.prems" have lt: "length acc < n" by simp
    from sock_read_some [OF "1.prems"(1) False, of "n - length acc"] lt obtain bs r'
      where b: "sock_read (n - length acc) r = Inr (bs, r')" "bs \<noteq> []"
      "stream r = bs @ stream r'" "reader_wf r'" "broken r' = broken r" by auto
    show ?thesis
      using "1.IH" [OF lt b(1) refl b(2,4)] "1.prems" b by (subst fill.simps) (auto simp: lt add.assoc)
  qed
qed

section \<open>Frames of the server\<close>

definition HARD_MAX_FRAME_SIZE :: usize where "HARD_MAX_FRAME_SIZE = 16 * 1024 * 1024"

definition KIND_SUBSCRIBE :: u8 where "KIND_SUBSCRIBE = 0"
definition KIND_EVENT :: u8 where "KIND_EVENT = 1"
definition KIND_LAG_EXCEEDED :: u8 where "KIND_LAG_EXCEEDED = 2"
definition KIND_TRUNCATED :: u8 where "KIND_TRUNCATED = 3"
definition KIND_SERVER_SHUTDOWN :: u8 where "KIND_SERVER_SHUTDOWN = 4"
definition KIND_INVALID_REQUEST :: u8 where "KIND_INVALID_REQUEST = 5"

lemmas kinds = KIND_SUBSCRIBE_def KIND_EVENT_def KIND_LAG_EXCEEDED_def KIND_TRUNCATED_def
  KIND_SERVER_SHUTDOWN_def KIND_INVALID_REQUEST_def

datatype FrameError =
    Io
  | EofBeforeHeader
  | Truncated usize usize
  | UnknownKind u8
  | OversizeFrame u32 usize

datatype InboundFrame = Subscribe u64

datatype OutboundFrame =
    Event u64 bytes
  | LagExceeded u64
  | Truncated u64
  | ServerShutdown u64
  | InvalidRequest

datatype WriteFrameError = PayloadOversize usize usize | PayloadTooLarge usize

definition read_kind :: "reader \<Rightarrow> FrameError + u8 \<times> reader" where
  "read_kind r = (case fill 1 [] r of
     Inl None \<Rightarrow> Inl Io | Inl (Some _) \<Rightarrow> Inl EofBeforeHeader | Inr (bs, r') \<Rightarrow> Inr (hd bs, r'))"

definition read_exact_or_truncated :: "usize \<Rightarrow> usize \<Rightarrow> usize \<Rightarrow> reader \<Rightarrow> FrameError + bytes \<times> reader" where
  "read_exact_or_truncated n bytes_already_read expected_total r =
     map_err (\<lambda>f. case f of None \<Rightarrow> Io
       | Some filled \<Rightarrow> FrameError.Truncated (bytes_already_read + filled) expected_total) (fill n [] r)"

definition read_inbound :: "reader \<Rightarrow> FrameError + InboundFrame \<times> reader" where
  "read_inbound r = res_bind (read_kind r) (\<lambda>(kind, r).
     if kind = KIND_SUBSCRIBE then
       res_bind (read_exact_or_truncated 8 1 9 r) (\<lambda>(buf, r). Inr (Subscribe (from_be buf), r))
     else Inl (UnknownKind kind))"

definition encode_inbound :: "InboundFrame \<Rightarrow> bytes" where
  "encode_inbound f = (case f of Subscribe resume_from \<Rightarrow> KIND_SUBSCRIBE # to_be resume_from)"

definition encode_outbound :: "OutboundFrame \<Rightarrow> usize \<Rightarrow> WriteFrameError + bytes" where
  "encode_outbound frame max_payload0 = (let max_payload = min max_payload0 HARD_MAX_FRAME_SIZE in
     case frame of
       Event seq payload \<Rightarrow>
         if max_payload < length payload then Inl (PayloadOversize (length payload) max_payload)
         else if unat (wmax :: u32) < length payload then Inl (PayloadTooLarge (length payload))
         else Inr (KIND_EVENT # to_be seq @ to_be (of_nat (length payload) :: u32) @ payload)
     | LagExceeded seq \<Rightarrow> Inr (KIND_LAG_EXCEEDED # to_be seq)
     | OutboundFrame.Truncated seq \<Rightarrow> Inr (KIND_TRUNCATED # to_be seq)
     | ServerShutdown seq \<Rightarrow> Inr (KIND_SERVER_SHUTDOWN # to_be seq)
     | InvalidRequest \<Rightarrow> Inr (KIND_INVALID_REQUEST # to_be (0 :: u64)))"

definition read_outbound :: "usize \<Rightarrow> reader \<Rightarrow> FrameError + OutboundFrame \<times> reader" where
  "read_outbound max_payload0 r = (let max_payload = min max_payload0 HARD_MAX_FRAME_SIZE in
     res_bind (read_kind r) (\<lambda>(kind, r).
     if kind = KIND_EVENT then
       res_bind (read_exact_or_truncated 8 1 13 r) (\<lambda>(seq_buf, r).
       res_bind (read_exact_or_truncated 4 9 13 r) (\<lambda>(len_buf, r).
         let declared = from_be len_buf :: u32; declared_usize = unat declared in
         if max_payload < declared_usize then Inl (OversizeFrame declared max_payload)
         else res_bind (read_exact_or_truncated declared_usize 13 (13 + declared_usize) r) (\<lambda>(payload, r).
           Inr (Event (from_be seq_buf) payload, r))))
     else if kind = KIND_LAG_EXCEEDED then
       res_bind (read_exact_or_truncated 8 1 9 r) (\<lambda>(buf, r). Inr (LagExceeded (from_be buf), r))
     else if kind = KIND_TRUNCATED then
       res_bind (read_exact_or_truncated 8 1 9 r) (\<lambda>(buf, r). Inr (OutboundFrame.Truncated (from_be buf), r))
     else if kind = KIND_SERVER_SHUTDOWN then
       res_bind (read_exact_or_truncated 8 1 9 r) (\<lambda>(buf, r). Inr (ServerShutdown (from_be buf), r))
     else if kind = KIND_INVALID_REQUEST then
       res_bind (read_exact_or_truncated 8 1 9 r) (\<lambda>(buf, r). Inr (InvalidRequest, r))
     else Inl (UnknownKind kind)))"

section \<open>Frames of the client\<close>

datatype ServerFrame =
    Event u64 bytes
  | LagExceeded u64
  | Truncated u64
  | ServerShutdown u64
  | InvalidRequest

fun frame_is_terminal :: "ServerFrame \<Rightarrow> bool" where
  "frame_is_terminal (ServerFrame.Event seq payload) = False"
| "frame_is_terminal _ = True"

datatype ClientError =
    Io
  | Eof
  | UnknownKind u8
  | OversizeFrame usize usize
  | Truncated usize usize

definition client_handshake :: "u64 \<Rightarrow> bytes" where
  "client_handshake resume_from = KIND_SUBSCRIBE # to_be resume_from"

definition client_read_kind :: "reader \<Rightarrow> ClientError + u8 \<times> reader" where
  "client_read_kind r = (case fill 1 [] r of
     Inl None \<Rightarrow> Inl Io | Inl (Some _) \<Rightarrow> Inl Eof | Inr (bs, r') \<Rightarrow> Inr (hd bs, r'))"

definition client_read_exact :: "usize \<Rightarrow> usize \<Rightarrow> usize \<Rightarrow> reader \<Rightarrow> ClientError + bytes \<times> reader" where
  "client_read_exact n bytes_already_read expected_total r =
     map_err (\<lambda>f. case f of None \<Rightarrow> Io
       | Some filled \<Rightarrow> ClientError.Truncated (bytes_already_read + filled) expected_total) (fill n [] r)"

definition read_frame :: "usize \<Rightarrow> reader \<Rightarrow> ClientError + ServerFrame \<times> reader" where
  "read_frame max_frame_size0 r = (let max_frame_size = min max_frame_size0 HARD_MAX_FRAME_SIZE in
     res_bind (client_read_kind r) (\<lambda>(kind, r).
     if kind = KIND_EVENT then
       res_bind (client_read_exact 8 1 13 r) (\<lambda>(seq_buf, r).
       res_bind (client_read_exact 4 9 13 r) (\<lambda>(len_buf, r).
         let declared_usize = unat (from_be len_buf :: u32) in
         if max_frame_size < declared_usize then Inl (ClientError.OversizeFrame declared_usize max_frame_size)
         else res_bind (client_read_exact declared_usize 13 (13 + declared_usize) r) (\<lambda>(payload, r).
           Inr (ServerFrame.Event (from_be seq_buf) payload, r))))
     else if kind = KIND_LAG_EXCEEDED then
       res_bind (client_read_exact 8 1 9 r) (\<lambda>(buf, r). Inr (ServerFrame.LagExceeded (from_be buf), r))
     else if kind = KIND_TRUNCATED then
       res_bind (client_read_exact 8 1 9 r) (\<lambda>(buf, r). Inr (ServerFrame.Truncated (from_be buf), r))
     else if kind = KIND_SERVER_SHUTDOWN then
       res_bind (client_read_exact 8 1 9 r) (\<lambda>(buf, r). Inr (ServerFrame.ServerShutdown (from_be buf), r))
     else if kind = KIND_INVALID_REQUEST then
       res_bind (client_read_exact 8 1 9 r) (\<lambda>(buf, r). Inr (ServerFrame.InvalidRequest, r))
     else Inl (ClientError.UnknownKind kind)))"

section \<open>What the parsers accept\<close>

definition at :: "reader \<Rightarrow> bytes \<Rightarrow> bool \<Rightarrow> bool" where
  "at r bs b \<longleftrightarrow> reader_wf r \<and> stream r = bs \<and> broken r = b"

lemma fill_at: "at r (x @ rest) b \<Longrightarrow> length x = n \<Longrightarrow> \<exists>r'. fill n [] r = Inr (x, r') \<and> at r' rest b"
  using fill_ok [of r "[]" x n rest] by (auto simp: at_def)

lemma fill_inv:
  assumes "fill n [] r = Inr (x, r')" "at r bs b"
  shows "\<exists>rest. bs = x @ rest \<and> length x = n \<and> at r' rest b"
proof (cases "n \<le> length bs")
  case True
  then have "at r (take n bs @ drop n bs) b" "length (take n bs) = n" using assms(2) by simp_all
  from fill_at [OF this] assms(1) have "x = take n bs" "at r' (drop n bs) b" by auto
  then show ?thesis using True by (metis append_take_drop_id length_take min.absorb2)
next
  case False
  then have "fill n [] r = Inl (if broken r then None else Some (length bs))"
    using assms(2) fill_short [of r "[]" n] by (auto simp: at_def)
  with assms(1) show ?thesis by simp
qed

lemma kind_at: "at r (k # rest) b \<Longrightarrow> \<exists>r'. read_kind r = Inr (k, r') \<and> at r' rest b"
  using fill_at [of r "[k]" rest b 1] by (auto simp: read_kind_def)

lemma exact_at:
  "at r (x @ rest) b \<Longrightarrow> length x = n \<Longrightarrow> \<exists>r'. read_exact_or_truncated n i t r = Inr (x, r') \<and> at r' rest b"
  using fill_at [of r x rest b n] by (auto simp: read_exact_or_truncated_def)

lemma kind_inv: "read_kind r = Inr (k, r') \<Longrightarrow> at r bs b \<Longrightarrow> \<exists>rest. bs = k # rest \<and> at r' rest b"
  by (auto simp: read_kind_def length_Suc_conv dest!: fill_inv split: sum.splits option.splits)

lemma exact_inv: "read_exact_or_truncated n i t r = Inr (x, r') \<Longrightarrow> at r bs b \<Longrightarrow>
    \<exists>rest. bs = x @ rest \<and> length x = n \<and> at r' rest b"
  by (cases "fill n [] r") (auto simp: read_exact_or_truncated_def dest!: fill_inv)

lemma encode_reads:
  assumes "encode_outbound f m = Inr enc" "at r (enc @ rest) b"
  shows "\<exists>r'. read_outbound m r = Inr (f, r') \<and> at r' rest b"
proof -
  have ctl: "\<exists>r1 r2. read_kind r = Inr (k, r1) \<and>
      read_exact_or_truncated 8 1 9 r1 = Inr (to_be (s :: u64), r2) \<and> at r2 rest b"
    if e: "enc = k # to_be s" for k s
  proof -
    obtain r1 where "read_kind r = Inr (k, r1)" "at r1 (to_be s @ rest) b"
      using kind_at [of r k "to_be s @ rest" b] assms(2) e by auto
    then show ?thesis using exact_at [of r1 "to_be s" rest b 8 1 9] by auto
  qed
  show ?thesis
  proof (cases f)
    case (Event seq payload)
    let ?len = "of_nat (length payload) :: u32"
    have e: "enc = KIND_EVENT # to_be seq @ to_be ?len @ payload"
      "length payload \<le> min m HARD_MAX_FRAME_SIZE"
      using assms(1) Event by (auto simp: encode_outbound_def Let_def split: if_splits)
    have len: "unat ?len = length payload"
      using e(2) by (simp add: HARD_MAX_FRAME_SIZE_def unat_of_nat)
    obtain r1 where 1: "read_kind r = Inr (KIND_EVENT, r1)" "at r1 (to_be seq @ to_be ?len @ payload @ rest) b"
      using kind_at [of r KIND_EVENT "to_be seq @ to_be ?len @ payload @ rest" b] assms(2) e(1) by auto
    obtain r2 where 2: "read_exact_or_truncated 8 1 13 r1 = Inr (to_be seq, r2)" "at r2 (to_be ?len @ payload @ rest) b"
      using exact_at [OF 1(2), of 8 1 13] by auto
    obtain r3 where 3: "read_exact_or_truncated 4 9 13 r2 = Inr (to_be ?len, r3)" "at r3 (payload @ rest) b"
      using exact_at [OF 2(2), of 4 9 13] by auto
    obtain r4 where "read_exact_or_truncated (length payload) 13 (13 + length payload) r3 = Inr (payload, r4)"
        "at r4 rest b"
      using exact_at [OF 3(2) refl] by blast
    then show ?thesis using 1 2 3 e(2) len Event
      by (simp add: read_outbound_def Let_def codec not_less)
  qed (use assms(1) ctl in \<open>fastforce simp: encode_outbound_def read_outbound_def Let_def kinds codec\<close>)+
qed

text \<open>The bytes a frame is read from: its encoding, where the reserved field of a rejection is free.\<close>

definition frame_image :: "OutboundFrame \<Rightarrow> usize \<Rightarrow> bytes \<Rightarrow> bool" where
  "frame_image f m bs \<longleftrightarrow> encode_outbound f m = Inr bs \<or>
     f = OutboundFrame.InvalidRequest \<and> (\<exists>x. length x = 8 \<and> bs = KIND_INVALID_REQUEST # x)"

lemma reads_image:
  assumes "read_outbound m r = Inr (f, r')" "at r bs b"
  shows "\<exists>enc rest. bs = enc @ rest \<and> frame_image f m enc \<and> at r' rest b"
proof -
  obtain kind r1 where k: "read_kind r = Inr (kind, r1)"
    using assms(1) by (auto simp: read_outbound_def Let_def res_bind_Inr_iff)
  then obtain rest1 where 1: "bs = kind # rest1" "at r1 rest1 b" using kind_inv assms(2) by blast
  show ?thesis
  proof (cases "kind = KIND_EVENT")
    case True
    obtain sb r2 lb r3 payload where p: "read_exact_or_truncated 8 1 13 r1 = Inr (sb, r2)"
      "read_exact_or_truncated 4 9 13 r2 = Inr (lb, r3)"
      "unat (from_be lb :: u32) \<le> min m HARD_MAX_FRAME_SIZE"
      "read_exact_or_truncated (unat (from_be lb :: u32)) 13 (13 + unat (from_be lb :: u32)) r3 = Inr (payload, r')"
      "f = OutboundFrame.Event (from_be sb) payload"
      using assms(1) k True
      by (auto simp: read_outbound_def Let_def res_bind_Inr_iff not_less split: if_splits)
    obtain x2 where 2: "rest1 = sb @ x2" "length sb = 8" "at r2 x2 b" using exact_inv [OF p(1) 1(2)] by blast
    obtain x3 where 3: "x2 = lb @ x3" "length lb = 4" "at r3 x3 b" using exact_inv [OF p(2) 2(3)] by blast
    obtain x4 where 4: "x3 = payload @ x4" "length payload = unat (from_be lb :: u32)" "at r' x4 b"
      using exact_inv [OF p(4) 3(3)] by blast
    have "unat (from_be lb :: u32) < 2 ^ 32" using unat_lt [of "from_be lb :: u32"] by simp
    then have "encode_outbound f m = Inr (KIND_EVENT # sb @ lb @ payload)"
      using p(3,5) 2 3 4 by (simp add: encode_outbound_def Let_def unat_wmax not_less be64.enc_dec be32.enc_dec)
    then show ?thesis using 1 2 3 4 True
      by (intro exI [of _ "KIND_EVENT # sb @ lb @ payload"] exI [of _ x4]) (simp add: frame_image_def)
  next
    case False
    then obtain buf where p: "read_exact_or_truncated 8 1 9 r1 = Inr (buf, r')"
      "f = OutboundFrame.LagExceeded (from_be buf) \<and> kind = KIND_LAG_EXCEEDED \<or>
       f = OutboundFrame.Truncated (from_be buf) \<and> kind = KIND_TRUNCATED \<or>
       f = OutboundFrame.ServerShutdown (from_be buf) \<and> kind = KIND_SERVER_SHUTDOWN \<or>
       f = OutboundFrame.InvalidRequest \<and> kind = KIND_INVALID_REQUEST"
      using assms(1) k
      by (auto simp: read_outbound_def Let_def res_bind_Inr_iff split: if_splits)
    obtain x2 where 2: "rest1 = buf @ x2" "length buf = 8" "at r' x2 b" using exact_inv [OF p(1) 1(2)] by blast
    then have "frame_image f m (kind # buf)"
      using p(2) by (auto simp: frame_image_def encode_outbound_def Let_def be64.enc_dec)
    then show ?thesis using 1 2 by (intro exI [of _ "kind # buf"] exI [of _ x2]) simp
  qed
qed

text \<open>The client's parser is the server's, with its own names for frames and errors.\<close>

fun client_frame :: "OutboundFrame \<Rightarrow> ServerFrame" where
  "client_frame (OutboundFrame.Event seq payload) = ServerFrame.Event seq payload"
| "client_frame (OutboundFrame.LagExceeded s) = ServerFrame.LagExceeded s"
| "client_frame (OutboundFrame.Truncated s) = ServerFrame.Truncated s"
| "client_frame (OutboundFrame.ServerShutdown s) = ServerFrame.ServerShutdown s"
| "client_frame OutboundFrame.InvalidRequest = ServerFrame.InvalidRequest"

fun client_error :: "FrameError \<Rightarrow> ClientError" where
  "client_error FrameError.Io = ClientError.Io"
| "client_error EofBeforeHeader = Eof"
| "client_error (FrameError.Truncated n e) = ClientError.Truncated n e"
| "client_error (FrameError.UnknownKind k) = ClientError.UnknownKind k"
| "client_error (FrameError.OversizeFrame d mx) = ClientError.OversizeFrame (unat d) mx"

lemma client_read_kind_eq: "client_read_kind r = map_err client_error (read_kind r)"
  by (auto simp: client_read_kind_def read_kind_def split: sum.splits option.splits)

lemma client_read_exact_eq:
  "client_read_exact n i t r = map_err client_error (read_exact_or_truncated n i t r)"
  by (cases "fill n [] r") (auto simp: client_read_exact_def read_exact_or_truncated_def split: option.splits)

text \<open>The translation of a whole result: frame and error renamed, the socket position kept.\<close>

definition client_result :: "FrameError + OutboundFrame \<times> reader \<Rightarrow> ClientError + ServerFrame \<times> reader" where
  "client_result x = (case x of Inl e \<Rightarrow> Inl (client_error e) | Inr (f, r) \<Rightarrow> Inr (client_frame f, r))"

lemma client_result_push:
  "client_result (res_bind x g) = res_bind (map_err client_error x) (\<lambda>y. client_result (g y))"
  "client_result (if c then u else v) = (if c then client_result u else client_result v)"
  "client_result (case p of (y, z) \<Rightarrow> h y z) = (case p of (y, z) \<Rightarrow> client_result (h y z))"
  "client_result (Inl e) = Inl (client_error e)" "client_result (Inr (f, r)) = Inr (client_frame f, r)"
  by (cases x; simp add: client_result_def) (auto simp: client_result_def split: prod.split)

lemma read_frame_eq: "read_frame m r = client_result (read_outbound m r)"
  by (simp only: read_frame_def read_outbound_def Let_def client_read_kind_eq client_read_exact_eq
      client_result_push client_frame.simps client_error.simps)

section \<open>Streams of frames\<close>

text \<open>
  The contract of a frame parser: whatever the chunks, it reads one encoded frame and leaves the
  socket right behind it.
\<close>

locale frame_parser =
  fixes enc :: "'f \<Rightarrow> bytes" and ok :: "'f \<Rightarrow> bool" and parse :: "reader \<Rightarrow> 'e + 'f \<times> reader"
  assumes parse_enc: "ok f \<Longrightarrow> at r (enc f @ rest) b \<Longrightarrow> \<exists>r'. parse r = Inr (f, r') \<and> at r' rest b"

fun read_many :: "(reader \<Rightarrow> 'e + 'f \<times> reader) \<Rightarrow> nat \<Rightarrow> reader \<Rightarrow> 'e + 'f list \<times> reader" where
  "read_many parse 0 r = Inr ([], r)"
| "read_many parse (Suc n) r =
     res_bind (parse r) (\<lambda>(f, r). res_bind (read_many parse n r) (\<lambda>(fs, r). Inr (f # fs, r)))"

context frame_parser
begin

lemma read_stream:
  assumes "list_all ok fs" "at r (concat (map enc fs) @ rest) b"
  shows "\<exists>r'. read_many parse (length fs) r = Inr (fs, r') \<and> at r' rest b"
  using assms
proof (induction fs arbitrary: r)
  case (Cons f fs)
  then obtain r1 where 1: "parse r = Inr (f, r1)" "at r1 (concat (map enc fs) @ rest) b"
    using parse_enc [of f r "concat (map enc fs) @ rest" b] by auto
  with Cons.IH [of r1] Cons.prems(1) show ?case by auto
qed simp

end

definition fits :: "usize \<Rightarrow> OutboundFrame \<Rightarrow> bool" where
  "fits m f \<longleftrightarrow> (\<exists>bs. encode_outbound f m = Inr bs)"

definition enc_outbound :: "usize \<Rightarrow> OutboundFrame \<Rightarrow> bytes" where
  "enc_outbound m f = (case encode_outbound f m of Inr bs \<Rightarrow> bs | Inl _ \<Rightarrow> [])"

interpretation outbound: frame_parser "enc_outbound m" "fits m" "read_outbound m" for m
  by unfold_locales (auto simp: fits_def enc_outbound_def intro: encode_reads)

interpretation inbound: frame_parser encode_inbound "\<lambda>f. True" read_inbound
proof
  fix f r rest b assume "at r (encode_inbound f @ rest) b"
  then obtain s where "f = Subscribe s" "at r (KIND_SUBSCRIBE # to_be s @ rest) b"
    by (cases f) (auto simp: encode_inbound_def)
  with kind_at obtain r1
    where 1: "f = Subscribe s" "read_kind r = Inr (KIND_SUBSCRIBE, r1)" "at r1 (to_be s @ rest) b" by blast
  with exact_at [OF 1(3), of 8 1 9] show "\<exists>r'. read_inbound r = Inr (f, r') \<and> at r' rest b"
    by (auto simp: read_inbound_def codec)
qed

lemma fits_iff: "fits m f \<longleftrightarrow> (\<forall>seq payload. f = OutboundFrame.Event seq payload \<longrightarrow> length payload \<le> min m HARD_MAX_FRAME_SIZE)"
  by (cases f) (auto simp: fits_def encode_outbound_def Let_def unat_wmax HARD_MAX_FRAME_SIZE_def)

lemma read_many_client:
  "read_many (read_frame m) n r = (case read_many (read_outbound m) n r of
     Inl e \<Rightarrow> Inl (client_error e) | Inr (fs, r') \<Rightarrow> Inr (map client_frame fs, r'))"
proof (induction n arbitrary: r)
  case (Suc n)
  show ?case
  proof (cases "read_outbound m r")
    case (Inr fr)
    then show ?thesis using Suc.IH [of "snd fr"]
      by (cases fr) (auto simp: read_frame_eq client_result_def split: sum.splits)
  qed (simp add: read_frame_eq client_result_def)
qed simp

text \<open>
  C28: What the server writes the client reads: for every sequence of frames the server can encode
  (every control frame, and events whose payload is within the configured maximum), and however the
  network cuts the bytes, the client's parser returns exactly those frames, in order, and stands
  right behind them; the handshake the client sends is read back by the server the same way.
\<close>

theorem frame_stream_roundtrip:
  assumes "\<forall>f \<in> set fs. \<forall>seq payload. f = OutboundFrame.Event seq payload \<longrightarrow>
      length payload \<le> min m HARD_MAX_FRAME_SIZE"
    and "at r (concat (map (enc_outbound m) fs) @ rest) b"
    and "at q (client_handshake resume @ rest') b'"
  shows "(\<exists>r'. read_many (read_frame m) (length fs) r = Inr (map client_frame fs, r') \<and> at r' rest b) \<and>
    (\<exists>q'. read_inbound q = Inr (Subscribe resume, q') \<and> at q' rest' b')"
proof
  have "list_all (fits m) fs" using assms(1) by (auto simp: list_all_iff fits_iff)
  from outbound.read_stream [OF this assms(2)]
  show "\<exists>r'. read_many (read_frame m) (length fs) r = Inr (map client_frame fs, r') \<and> at r' rest b"
    by (auto simp: read_many_client)
  have "at q (encode_inbound (Subscribe resume) @ rest') b'"
    using assms(3) by (simp add: encode_inbound_def client_handshake_def)
  then show "\<exists>q'. read_inbound q = Inr (Subscribe resume, q') \<and> at q' rest' b'"
    by (rule inbound.parse_enc [OF TrueI])
qed

theorem frame_stream_roundtrip_witness:
  "\<exists>r'. read_many (read_frame 100) 2
      \<lparr>chunks = [[1], to_be (7 :: u64) @ to_be (1 :: u32), [9, 4], to_be (7 :: u64)], broken = False\<rparr> =
     Inr ([ServerFrame.Event 7 [9], ServerFrame.ServerShutdown 7], r')"
proof -
  let ?fs = "[OutboundFrame.Event 7 [9], OutboundFrame.ServerShutdown 7]"
  let ?r = "\<lparr>chunks = [[1], to_be (7 :: u64) @ to_be (1 :: u32), [9, 4], to_be (7 :: u64)], broken = False\<rparr>"
  let ?q = "\<lparr>chunks = [client_handshake 0], broken = False\<rparr>"
  have "to_be (7 :: u64) \<noteq> []" by (simp flip: length_greater_0_conv)
  then have 1: "at ?r (concat (map (enc_outbound 100) ?fs) @ []) False"
    by (simp add: at_def reader_wf_def stream_def enc_outbound_def encode_outbound_def Let_def
        HARD_MAX_FRAME_SIZE_def kinds unat_wmax)
  have 2: "at ?q (client_handshake 0 @ []) False"
    by (simp add: at_def reader_wf_def stream_def client_handshake_def)
  have 3: "length ?fs = 2" by simp
  show ?thesis
    using frame_stream_roundtrip [OF _ 1 2] unfolding 3 by (auto simp: HARD_MAX_FRAME_SIZE_def)
qed

text \<open>
  C29: The two parsers are one: on every socket, healthy or not, the client's parser returns what the
  server's own parser of outbound frames returns, frame by frame and error by error.  A frame is only
  ever read off its own encoding, the reserved field of a rejection apart, and a header that
  declares more than the maximum is refused before any payload byte is read.
\<close>

theorem frame_parsers_agree:
  "read_frame m r = client_result (read_outbound m r) \<and>
   (reader_wf r \<and> read_outbound m r = Inr (f, r') \<longrightarrow>
     (\<exists>enc. stream r = enc @ stream r' \<and> frame_image f m enc))"
  using read_frame_eq reads_image [of m r f r' "stream r" "broken r"] by (auto simp: at_def)

theorem frame_parsers_agree_witness:
  "\<exists>f r'. read_outbound 100 \<lparr>chunks = [[2], to_be (7 :: u64)], broken = True\<rparr> = Inr (f, r') \<and>
     (\<exists>enc. 2 # to_be (7 :: u64) = enc @ stream r' \<and> frame_image f 100 enc)"
proof -
  let ?r = "\<lparr>chunks = [[2], to_be (7 :: u64)], broken = True\<rparr>"
  have "encode_outbound (OutboundFrame.LagExceeded 7) 100 = Inr (2 # to_be (7 :: u64))"
    by (simp add: encode_outbound_def Let_def kinds)
  moreover have "to_be (7 :: u64) \<noteq> []" by (simp flip: length_greater_0_conv)
  then have w: "at ?r ((2 # to_be (7 :: u64)) @ []) True" by (simp add: at_def reader_wf_def stream_def)
  ultimately obtain r' where "read_outbound 100 ?r = Inr (OutboundFrame.LagExceeded 7, r')"
    using encode_reads by blast
  with frame_parsers_agree [of 100 ?r "OutboundFrame.LagExceeded 7" r'] w show ?thesis
    by (auto simp: at_def)
qed

end
