(* ===== verification/Subscription.thy ===== *)
theory Subscription
  imports Event_Cache Event_Frame
begin

text \<open>
  The subscribers of the event server: bounded send queues with lag eviction and the registry
  (\<open>knomosis-event-subscribe/src/subscription.rs\<close>), and the life of one connection, its backfill,
  the removal of duplicates and the live dispatch, against the extractor that publishes batches
  (\<open>handle_connection\<close>, \<open>dispatch_live\<close>, \<open>extractor_loop\<close> of \<open>server.rs\<close>).  The steps are those
  the cache lock makes atomic; threads interleave as arbitrary sequences of them.
\<close>

section \<open>Subscribers\<close>

definition HARD_MAX_SEND_QUEUE_DEPTH :: usize where
  "HARD_MAX_SEND_QUEUE_DEPTH = 65536"

definition HARD_MAX_SUBSCRIBER_LAG :: u64 where
  "HARD_MAX_SUBSCRIBER_LAG = 1000000"

datatype DeliveryEvent = Live "CachedEvent list" | Shutdown

record Subscriber =
  sub_id :: u64
  channel :: "DeliveryEvent list"
  channel_cap :: usize
  rx_open :: bool
  lag :: u64
  max_lag :: u64
  last_delivered :: u64
  disconnected :: bool
  shutdown_requested :: bool

datatype EnqueueOutcome = Enqueued | Lagging u64 | LagExceeded | Disconnected

definition subscriber_new :: "u64 \<Rightarrow> usize \<Rightarrow> u64 \<Rightarrow> Subscriber" where
  "subscriber_new ident queue_depth maxlag =
     \<lparr>sub_id = ident, channel = [], channel_cap = max 1 (min queue_depth HARD_MAX_SEND_QUEUE_DEPTH),
      rx_open = True, lag = 0, max_lag = min maxlag HARD_MAX_SUBSCRIBER_LAG, last_delivered = 0,
      disconnected = False, shutdown_requested = False\<rparr>"

definition mark_disconnected :: "Subscriber \<Rightarrow> Subscriber" where
  "mark_disconnected s = s \<lparr> disconnected := True \<rparr>"

definition record_delivered :: "u64 \<Rightarrow> Subscriber \<Rightarrow> Subscriber" where
  "record_delivered seq s = s \<lparr> last_delivered := seq \<rparr>"

text \<open>\<open>SyncSender::try_send\<close> on a bounded channel.\<close>

datatype send_result = Sent Subscriber | Full | Closed

definition try_send :: "DeliveryEvent \<Rightarrow> Subscriber \<Rightarrow> send_result" where
  "try_send d s =
     (if \<not> rx_open s then send_result.Closed
      else if length (channel s) < channel_cap s then Sent (s \<lparr> channel := channel s @ [d] \<rparr>)
      else Full)"

definition try_enqueue :: "CachedEvent list \<Rightarrow> Subscriber \<Rightarrow> EnqueueOutcome \<times> Subscriber" where
  "try_enqueue batch s =
     (if disconnected s then (Disconnected, s)
      else case try_send (Live batch) s of
        Sent s' \<Rightarrow> (Enqueued, s' \<lparr> lag := 0 \<rparr>)
      | Full \<Rightarrow>
          let new_lag = lag s + 1; s' = s \<lparr> lag := new_lag \<rparr> in
          if max_lag s < new_lag then (LagExceeded, mark_disconnected s') else (Lagging new_lag, s')
      | send_result.Closed \<Rightarrow> (Disconnected, mark_disconnected s))"

definition request_shutdown :: "Subscriber \<Rightarrow> EnqueueOutcome \<times> Subscriber" where
  "request_shutdown s =
     (if disconnected s then (Disconnected, s)
      else let s1 = s \<lparr> shutdown_requested := True \<rparr> in
        case try_send Shutdown s1 of
          Sent s' \<Rightarrow> (Enqueued, s')
        | Full \<Rightarrow> (Lagging (lag s1), s1)
        | send_result.Closed \<Rightarrow> (Disconnected, mark_disconnected s1))"

section \<open>The registry\<close>

record SubscriberRegistry =
  subscribers :: "Subscriber list"
  next_id :: u64
  max_subscribers :: usize

datatype RegisterError = AtCapacity usize usize

definition registry_new :: SubscriberRegistry where
  "registry_new = \<lparr>subscribers = [], next_id = 0, max_subscribers = 0\<rparr>"

definition set_max_subscribers :: "usize \<Rightarrow> SubscriberRegistry \<Rightarrow> SubscriberRegistry" where
  "set_max_subscribers m reg = reg \<lparr> max_subscribers := m \<rparr>"

definition register_subscriber ::
  "usize \<Rightarrow> u64 \<Rightarrow> SubscriberRegistry \<Rightarrow> (RegisterError + Subscriber) \<times> SubscriberRegistry" where
  "register_subscriber queue_depth maxlag reg =
     (let m = max_subscribers reg; n = length (subscribers reg) in
      if m \<noteq> 0 \<and> m \<le> n then (Inl (AtCapacity n m), reg)
      else let ident = next_id reg + 1; s = subscriber_new ident queue_depth maxlag in
        (Inr s, reg \<lparr> next_id := ident, subscribers := subscribers reg @ [s] \<rparr>))"

definition unregister :: "u64 \<Rightarrow> SubscriberRegistry \<Rightarrow> SubscriberRegistry" where
  "unregister ident reg = reg \<lparr> subscribers := filter (\<lambda>s. sub_id s \<noteq> ident) (subscribers reg) \<rparr>"

record BroadcastSummary =
  sum_enqueued :: usize
  sum_lagging :: usize
  sum_evicted :: usize
  sum_disconnected :: usize

definition tally :: "EnqueueOutcome \<Rightarrow> BroadcastSummary \<Rightarrow> BroadcastSummary" where
  "tally out b = (case out of
     Enqueued \<Rightarrow> b \<lparr> sum_enqueued := sum_enqueued b + 1 \<rparr>
   | Lagging _ \<Rightarrow> b \<lparr> sum_lagging := sum_lagging b + 1 \<rparr>
   | LagExceeded \<Rightarrow> b \<lparr> sum_evicted := sum_evicted b + 1 \<rparr>
   | Disconnected \<Rightarrow> b \<lparr> sum_disconnected := sum_disconnected b + 1 \<rparr>)"

fun broadcast_to_snapshot ::
  "CachedEvent list \<Rightarrow> Subscriber list \<Rightarrow> BroadcastSummary \<Rightarrow> BroadcastSummary \<times> Subscriber list" where
  "broadcast_to_snapshot batch [] b = (b, [])"
| "broadcast_to_snapshot batch (s # ss) b =
     (let (out, s') = try_enqueue batch s; (b', ss') = broadcast_to_snapshot batch ss (tally out b)
      in (b', s' # ss'))"

definition broadcast :: "CachedEvent list \<Rightarrow> SubscriberRegistry \<Rightarrow> BroadcastSummary \<times> SubscriberRegistry" where
  "broadcast batch reg =
     (let (b, ss) = broadcast_to_snapshot batch (subscribers reg) \<lparr>sum_enqueued = 0, sum_lagging = 0, sum_evicted = 0, sum_disconnected = 0\<rparr>
      in (b, reg \<lparr> subscribers := ss \<rparr>))"

definition broadcast_shutdown :: "SubscriberRegistry \<Rightarrow> SubscriberRegistry" where
  "broadcast_shutdown reg = reg \<lparr> subscribers := map (snd \<circ> request_shutdown) (subscribers reg) \<rparr>"

end
