(* ===== verification/Event_Server.thy ===== *)
theory Event_Server
  imports Subscription
begin

text \<open>
  One connection of the event server against the extractor
  (\<open>knomosis-event-subscribe/src/server.rs\<close>): the backfill from the cache, the removal of
  duplicates, the live dispatch, and the publication of batches.  A step takes how many frames the
  socket still accepts, so write failures at any point are covered.
\<close>

datatype Phase = Registered | Draining u64 | Dispatching | Gone

record Session =
  cache :: EventCache
  sub :: Subscriber
  resume_from :: u64
  phase :: Phase
  pending :: "DeliveryEvent list"
  written :: "OutboundFrame list"

abbreviation event_frame :: "CachedEvent \<Rightarrow> OutboundFrame" where
  "event_frame e \<equiv> OutboundFrame.Event (ev_seq e) (ev_payload e)"

text \<open>
  Writing events one frame at a time: stops at the first frame that cannot be encoded or that the
  socket, which accepts \<open>w\<close> more frames, refuses.
\<close>

fun write_events :: "usize \<Rightarrow> nat \<Rightarrow> CachedEvent list \<Rightarrow> CachedEvent list \<times> bool" where
  "write_events max_frame w [] = ([], True)"
| "write_events max_frame w (e # es) =
     (case encode_outbound (event_frame e) max_frame of
        Inl _ \<Rightarrow> ([], False)
      | Inr _ \<Rightarrow> if w = 0 then ([], False)
          else let (done, ok) = write_events max_frame (w - 1) es in (e # done, ok))"

definition send_events :: "CachedEvent list \<Rightarrow> Session \<Rightarrow> Session" where
  "send_events es s = s \<lparr> written := written s @ map event_frame es \<rparr>"

definition send_control :: "nat \<Rightarrow> OutboundFrame \<Rightarrow> Session \<Rightarrow> Session" where
  "send_control w f s = (if w = 0 then s else s \<lparr> written := written s @ [f] \<rparr>)"

definition enter_live :: "bool \<Rightarrow> Session \<Rightarrow> Session" where
  "enter_live stop s =
     (let s1 = (if stop \<and> \<not> shutdown_requested (sub s) then s \<lparr> sub := snd (request_shutdown (sub s)) \<rparr> else s);
          max_backfilled = last_delivered (sub s1)
      in s1 \<lparr> phase := (if 0 < max_backfilled then Draining max_backfilled else Dispatching) \<rparr>)"

definition backfill :: "usize \<Rightarrow> nat \<Rightarrow> bool \<Rightarrow> Session \<Rightarrow> Session" where
  "backfill max_frame w stop s =
     (case cache_range (cache s) (resume_from s) of
        OutOfWindow oldest \<Rightarrow> (send_control w (OutboundFrame.Truncated oldest) s) \<lparr> phase := Gone \<rparr>
      | InWindow events \<Rightarrow>
          let (done, ok) = write_events max_frame w events;
              s1 = send_events done s;
              s2 = (if done = [] then s1 else s1 \<lparr> sub := record_delivered (ev_seq (last done)) (sub s1) \<rparr>)
          in if ok then enter_live stop s2
             else s2 \<lparr> sub := mark_disconnected (sub s2), phase := Gone \<rparr>
      | AtLiveTail \<Rightarrow> enter_live stop s)"

text \<open>
  One turn of the drain loop.  A batch is never empty when it is broadcast, so its first event
  decides.
\<close>

definition drain_step :: "u64 \<Rightarrow> Session \<Rightarrow> Session" where
  "drain_step max_backfilled s = (case channel (sub s) of
     [] \<Rightarrow> s \<lparr> phase := Dispatching \<rparr>
   | d # ch \<Rightarrow>
       let s1 = s \<lparr> sub := (sub s) \<lparr> channel := ch \<rparr> \<rparr> in
       case d of
         Live batch \<Rightarrow> if max_backfilled < ev_seq (hd batch) then s1 \<lparr> pending := pending s @ [d] \<rparr> else s1
       | Shutdown \<Rightarrow> s1 \<lparr> pending := pending s @ [d] \<rparr>)"

definition next_delivery :: "Session \<Rightarrow> (DeliveryEvent \<times> Session) option" where
  "next_delivery s = (case pending s of
     d # ps \<Rightarrow> Some (d, s \<lparr> pending := ps \<rparr>)
   | [] \<Rightarrow> (case channel (sub s) of
       [] \<Rightarrow> None
     | d # ch \<Rightarrow> Some (d, s \<lparr> sub := (sub s) \<lparr> channel := ch \<rparr> \<rparr>)))"

definition dispatch_step :: "usize \<Rightarrow> nat \<Rightarrow> bool \<Rightarrow> Session \<Rightarrow> Session" where
  "dispatch_step max_frame w connected s =
     (if shutdown_requested (sub s) then
        (send_control w (OutboundFrame.ServerShutdown (last_delivered (sub s))) s) \<lparr> phase := Gone \<rparr>
      else if disconnected (sub s) then
        (send_control w (OutboundFrame.LagExceeded (last_delivered (sub s))) s) \<lparr> phase := Gone \<rparr>
      else case next_delivery s of
        None \<Rightarrow> if connected then s else s \<lparr> sub := mark_disconnected (sub s), phase := Gone \<rparr>
      | Some (Live batch, s1) \<Rightarrow>
          let (done, ok) = write_events max_frame w batch; s2 = send_events done s1 in
          if \<not> ok then s2 \<lparr> sub := mark_disconnected (sub s2), phase := Gone \<rparr>
          else (case batch of [] \<Rightarrow> s2 | e # _ \<Rightarrow> s2 \<lparr> sub := record_delivered (ev_seq e) (sub s2) \<rparr>)
      | Some (Shutdown, s1) \<Rightarrow>
          (send_control w (OutboundFrame.ServerShutdown (last_delivered (sub s1))) s1) \<lparr> phase := Gone \<rparr>)"

text \<open>One turn of the connection's own thread, by phase.\<close>

definition connection_step :: "usize \<Rightarrow> nat \<Rightarrow> bool \<Rightarrow> bool \<Rightarrow> Session \<Rightarrow> Session" where
  "connection_step max_frame w flag connected s = (case phase s of
     Registered \<Rightarrow> backfill max_frame w flag s
   | Draining m \<Rightarrow> drain_step m s
   | Dispatching \<Rightarrow> dispatch_step max_frame w connected s
   | Gone \<Rightarrow> s)"

section \<open>The extractor\<close>

fun push_all :: "EventCache \<Rightarrow> CachedEvent list \<Rightarrow> bool \<times> EventCache" where
  "push_all c [] = (True, c)"
| "push_all c (e # es) = (case cache_push c e of (Inl _, c') \<Rightarrow> (False, c') | (Inr _, c') \<Rightarrow> push_all c' es)"

text \<open>
  One log frame's events: pushed to the cache and then broadcast, under one hold of the cache lock; a
  frame without events is not broadcast, and a refused push halts the server.
\<close>

definition extract_step :: "CachedEvent list \<Rightarrow> EventCache \<times> SubscriberRegistry \<Rightarrow> bool \<times> EventCache \<times> SubscriberRegistry" where
  "extract_step events st = (case push_all (fst st) events of
     (False, c) \<Rightarrow> (False, c, broadcast_shutdown (snd st))
   | (True, c) \<Rightarrow> (True, c, if events = [] then snd st else snd (broadcast events (snd st))))"

lemma broadcast_subscribers: "subscribers (snd (broadcast batch reg)) = map (snd \<circ> try_enqueue batch) (subscribers reg)"
proof -
  have "snd (broadcast_to_snapshot batch ss b) = map (snd \<circ> try_enqueue batch) ss" for ss b
    by (induction ss arbitrary: b) (auto simp: split_beta Let_def)
  then show ?thesis by (simp add: broadcast_def split_beta)
qed

text \<open>The extractor's step as one subscriber sees it: a registered subscriber is enqueued to on its own.\<close>

definition publish :: "CachedEvent list \<Rightarrow> Session \<Rightarrow> Session" where
  "publish events s = (case push_all (cache s) events of
     (False, c) \<Rightarrow> s \<lparr> cache := c, sub := (if phase s = Gone then sub s else snd (request_shutdown (sub s))) \<rparr>
   | (True, c) \<Rightarrow> s \<lparr> cache := c,
       sub := (if events = [] \<or> phase s = Gone then sub s else snd (try_enqueue events (sub s))) \<rparr>)"

lemma extract_step_publish:
  assumes "i < length (subscribers reg)" "phase s \<noteq> Gone" "sub s = subscribers reg ! i"
    "extract_step events (cache s, reg) = (ok, c', reg')"
  shows "cache (publish events s) = c' \<and> sub (publish events s) = subscribers reg' ! i"
  using assms
  by (auto simp: extract_step_def publish_def broadcast_subscribers broadcast_shutdown_def split: prod.splits bool.splits)

section \<open>The stream a subscriber receives\<close>

fun frame_events :: "OutboundFrame list \<Rightarrow> CachedEvent list" where
  "frame_events [] = []"
| "frame_events (OutboundFrame.Event seq payload # fs) = \<lparr>ev_seq = seq, ev_payload = payload\<rparr> # frame_events fs"
| "frame_events (f # fs) = frame_events fs"

fun live_events :: "DeliveryEvent list \<Rightarrow> CachedEvent list" where
  "live_events [] = []"
| "live_events (Live b # ds) = b @ live_events ds"
| "live_events (Shutdown # ds) = live_events ds"


definition fresh :: "u64 \<Rightarrow> Session \<Rightarrow> bool" where
  "fresh r s \<longleftrightarrow> resume_from s = r \<and> phase s = Registered \<and> pending s = [] \<and> written s = [] \<and>
     channel (sub s) = [] \<and> last_delivered (sub s) = 0"


text \<open>What the subscriber asked for: everything new, or everything behind its resume point.\<close>

definition asked :: "u64 \<Rightarrow> CachedEvent list \<Rightarrow> CachedEvent list \<Rightarrow> CachedEvent list" where
  "asked r h0 h = (if r = 0 then drop (length h0) h else filter (\<lambda>e. r < ev_seq e) h)"

lemma frame_events_append [simp]: "frame_events (xs @ ys) = frame_events xs @ frame_events ys"
  by (induction xs rule: frame_events.induct) auto

lemma frame_events_map [simp]: "frame_events (map event_frame es) = es"
  by (induction es) auto

lemma live_events_append [simp]: "live_events (xs @ ys) = live_events xs @ live_events ys"
  by (induction xs rule: live_events.induct) auto






definition flight_ok :: "DeliveryEvent list \<Rightarrow> bool" where
  "flight_ok ds \<longleftrightarrow> (\<forall>b. Live b \<in> set ds \<longrightarrow> b \<noteq> [] \<and> (\<exists>q. \<forall>e \<in> set b. ev_seq e = q))"







lemma flight_ok_simps [simp]:
  "flight_ok []" "flight_ok (xs @ ys) \<longleftrightarrow> flight_ok xs \<and> flight_ok ys"
  "flight_ok (Live b # ds) \<longleftrightarrow> (b \<noteq> [] \<and> (\<exists>q. \<forall>e \<in> set b. ev_seq e = q)) \<and> flight_ok ds"
  "flight_ok (Shutdown # ds) \<longleftrightarrow> flight_ok ds"
  by (auto simp: flight_ok_def)













lemma next_delivery_None: "next_delivery s = None \<longleftrightarrow> pending s = [] \<and> channel (sub s) = []"
  by (auto simp: next_delivery_def split: list.splits)
























text \<open>
  A run in which the queue refuses a batch: the subscriber has room for one batch, the second arrives
  before the first was sent, the third after.
\<close>

definition ev :: "u64 \<Rightarrow> CachedEvent" where
  "ev q = \<lparr>ev_seq = q, ev_payload = []\<rparr>"

definition tiny_cache :: "CachedEvent list \<Rightarrow> u64 \<Rightarrow> EventCache" where
  "tiny_cache es q = \<lparr>buffer = es, cache_capacity = 10, last_pushed_seq = q, last_evicted_seq = None\<rparr>"

definition tiny_sub :: "DeliveryEvent list \<Rightarrow> u64 \<Rightarrow> u64 \<Rightarrow> Subscriber" where
  "tiny_sub ch l d = \<lparr>sub_id = 1, channel = ch, channel_cap = 1, rx_open = True, lag = l, max_lag = 4,
     last_delivered = d, disconnected = False, shutdown_requested = False\<rparr>"

definition tiny_session :: "EventCache \<Rightarrow> Subscriber \<Rightarrow> Phase \<Rightarrow> OutboundFrame list \<Rightarrow> Session" where
  "tiny_session c u p out = \<lparr>cache = c, sub = u, resume_from = 0, phase = p, pending = [], written = out\<rparr>"

lemmas tiny_defs = ev_def tiny_cache_def tiny_sub_def tiny_session_def

lemma tiny_start: "connection_step 100 9 False True (tiny_session (tiny_cache [] 0) (tiny_sub [] 0 0) Registered []) =
    tiny_session (tiny_cache [] 0) (tiny_sub [] 0 0) Dispatching []"
  by (simp add: tiny_defs connection_step_def backfill_def cache_range_def enter_live_def)

lemma tiny_publish:
  assumes "q \<noteq> 0" "q' \<le> q" "length es < 10"
  shows "publish [ev q] (tiny_session (tiny_cache es q') (tiny_sub [] l d) Dispatching out) =
    tiny_session (tiny_cache (es @ [ev q]) q) (tiny_sub [Live [ev q]] 0 d) Dispatching out"
  using assms by (auto simp: tiny_defs publish_def cache_push_def try_enqueue_def try_send_def)

lemma tiny_refused:
  assumes "q \<noteq> 0" "q' \<le> q" "length es < 10"
  shows "publish [ev q] (tiny_session (tiny_cache es q') (tiny_sub [Live b] 0 d) Dispatching out) =
    tiny_session (tiny_cache (es @ [ev q]) q) (tiny_sub [Live b] 1 d) Dispatching out"
proof -
  have "\<not> (4 :: u64) < 1" by (simp add: word_less_nat_alt)
  then show ?thesis using assms
    by (auto simp: tiny_defs publish_def cache_push_def try_enqueue_def try_send_def)
qed

lemma tiny_dispatch:
  "connection_step 100 9 False True (tiny_session c (tiny_sub [Live [ev q]] l d) Dispatching out) =
    tiny_session c (tiny_sub [] l q) Dispatching (out @ [event_frame (ev q)])"
  by (simp add: tiny_defs connection_step_def dispatch_step_def next_delivery_def send_events_def
      record_delivered_def encode_outbound_def Let_def HARD_MAX_FRAME_SIZE_def unat_wmax)

text \<open>
  A resume point ahead of the history may be granted everything since the registration: a server that
  restarted numbers its log from 1 again, and a subscriber resuming from 5 before that point is
  reached is sent event 5 again.
\<close>

lemma resume_ahead_duplicate:
  "written (connection_step 100 9 False True (publish [ev 5] (connection_step 100 9 False True
     ((tiny_session (tiny_cache [] 0) (tiny_sub [] 0 0) Registered []) \<lparr> resume_from := 5 \<rparr>)))) = [event_frame (ev 5)]"
  by (simp add: tiny_defs connection_step_def backfill_def cache_range_def enter_live_def publish_def
      cache_push_def try_enqueue_def try_send_def dispatch_step_def next_delivery_def send_events_def
      record_delivered_def encode_outbound_def Let_def HARD_MAX_FRAME_SIZE_def unat_wmax)

text \<open>
  C30: A refused batch is a silent gap.  There is a run from a fresh server and a fresh live-tail
  subscriber after which three batches have been published, the subscriber is live, connected and
  has emptied its queue, and it was sent the first and the third batch and nothing else: no control
  frame tells it that the second is missing.
\<close>

theorem lagging_subscriber_gap:
  "\<exists>s0 s. fresh 0 s0 \<and> cached (cache s0) [] \<and>
     s = foldl (\<lambda>s f. f s) s0
       [connection_step 100 9 False True, publish [ev 5], publish [ev 6], connection_step 100 9 False True,
        publish [ev 7], connection_step 100 9 False True] \<and>
     phase s = Dispatching \<and> \<not> disconnected (sub s) \<and> pending s = [] \<and> channel (sub s) = [] \<and>
     buffer (cache s) = [ev 5, ev 6, ev 7] \<and> written s = [event_frame (ev 5), event_frame (ev 7)]"
proof -
  let ?init = "tiny_session (tiny_cache [] 0) (tiny_sub [] 0 0) Registered []"
  have "cached (tiny_cache [] 0) []"
    by (rule cached.empty [of 10]) (simp add: cache_new_def tiny_cache_def HARD_MAX_KEEP_HISTORY_def)
  then have "fresh 0 ?init \<and> cached (cache ?init) []"
    by (simp add: fresh_def tiny_session_def tiny_sub_def)
  moreover let ?fin = "tiny_session (tiny_cache [ev 5, ev 6, ev 7] 7) (tiny_sub [] 0 7) Dispatching
      [event_frame (ev 5), event_frame (ev 7)]"
  have "?fin = foldl (\<lambda>s f. f s) ?init
       [connection_step 100 9 False True, publish [ev 5], publish [ev 6], connection_step 100 9 False True,
        publish [ev 7], connection_step 100 9 False True]"
    by (simp add: tiny_start tiny_publish tiny_refused tiny_dispatch)
  moreover have "phase ?fin = Dispatching \<and> \<not> disconnected (sub ?fin) \<and> pending ?fin = [] \<and> channel (sub ?fin) = [] \<and>
     buffer (cache ?fin) = [ev 5, ev 6, ev 7] \<and> written ?fin = [event_frame (ev 5), event_frame (ev 7)]"
    by (simp add: tiny_session_def tiny_sub_def tiny_cache_def)
  ultimately show ?thesis by blast
qed

end
