(* ===== verification/Gateway_Mux.thy ===== *)
theory Gateway_Mux
  imports Gateway_Ring Event_Server
begin

text \<open>
  The gateway's upstream side: the resilient subscription
  (\<open>knomosis-gateway/src/events/subscribe.rs\<close>) and the multiplexer that feeds the fan-out ring
  (\<open>fanout/mux.rs\<close>, \<open>fanout/mod.rs\<close>).  The rendering of an event to its public form
  is an argument \<open>render\<close> of the definitions: the results hold for every rendering.
\<close>

section \<open>The upstream subscription\<close>

datatype ReconnectReason = ConnectionDropped | ServerShutdown | LagExceeded | StaleTimeout | ConnectFailed | ProtocolError

datatype StreamItem = Event u64 bytes | Gap u64 | Reconnecting ReconnectReason | Rejected

definition BACKOFF_BASE :: nat where "BACKOFF_BASE = 100"

definition BACKOFF_CAP :: nat where "BACKOFF_CAP = 5000"

text \<open>\<open>Backoff::take\<close>: the delay to sleep now and the next one, in milliseconds.\<close>

definition backoff_take :: "nat \<Rightarrow> nat \<times> nat" where
  "backoff_take next = (next, if next = 0 then BACKOFF_BASE else min (next * 2) BACKOFF_CAP)"

record UpstreamSubscription =
  up_connected :: bool
  up_resume_from :: u64
  up_backoff :: nat

definition upstream_new :: "u64 \<Rightarrow> UpstreamSubscription" where
  "upstream_new r = \<lparr>up_connected = False, up_resume_from = r, up_backoff = 0\<rparr>"

text \<open>An I/O error is a timeout or not; \<open>timed_out\<close> says which.\<close>

fun classify_error :: "bool \<Rightarrow> ClientError \<Rightarrow> ReconnectReason" where
  "classify_error timed_out ClientError.Io = (if timed_out then StaleTimeout else ConnectionDropped)"
| "classify_error timed_out ClientError.Eof = ConnectionDropped"
| "classify_error timed_out (ClientError.Truncated got expected) = ConnectionDropped"
| "classify_error timed_out (ClientError.UnknownKind k) = ProtocolError"
| "classify_error timed_out (ClientError.OversizeFrame n m) = ProtocolError"

text \<open>
  One call of \<open>recv\<close>: whether a connection attempt succeeds, and what reading a frame answers,
  are the environment's.
\<close>

definition recv :: "bool \<Rightarrow> bool \<Rightarrow> ClientError + ServerFrame \<Rightarrow> UpstreamSubscription \<Rightarrow> StreamItem \<times> UpstreamSubscription" where
  "recv connects timed_out answer s =
     (if \<not> up_connected s \<and> \<not> connects
      then (Reconnecting ConnectFailed, s \<lparr> up_backoff := snd (backoff_take (up_backoff s)) \<rparr>)
      else
        let s1 = (if up_connected s then s else s \<lparr> up_backoff := 0, up_connected := True \<rparr>) in
        case answer of
          Inr (ServerFrame.Event seq payload) \<Rightarrow> (Event seq payload, s1 \<lparr> up_resume_from := seq \<rparr>)
        | Inr (ServerFrame.Truncated oldest) \<Rightarrow> (Gap oldest, s1 \<lparr> up_resume_from := oldest, up_connected := False \<rparr>)
        | Inr (ServerFrame.LagExceeded q) \<Rightarrow>
            (Reconnecting LagExceeded, s1 \<lparr> up_resume_from := max (up_resume_from s1) q, up_connected := False \<rparr>)
        | Inr (ServerFrame.ServerShutdown q) \<Rightarrow>
            (Reconnecting ServerShutdown, s1 \<lparr> up_resume_from := max (up_resume_from s1) q, up_connected := False \<rparr>)
        | Inr ServerFrame.InvalidRequest \<Rightarrow> (Rejected, s1 \<lparr> up_connected := False \<rparr>)
        | Inl err \<Rightarrow> (Reconnecting (classify_error timed_out err), s1 \<lparr> up_connected := False \<rparr>))"

section \<open>The multiplexer\<close>

record IndexCounter =
  ctr_seq :: "u64 option"
  ctr_index :: u32

definition counter_new :: IndexCounter where
  "counter_new = \<lparr>ctr_seq = None, ctr_index = 0\<rparr>"

definition index_next :: "u64 \<Rightarrow> IndexCounter \<Rightarrow> u32 \<times> IndexCounter" where
  "index_next seq c =
     (let c1 = (if ctr_seq c \<noteq> Some seq then \<lparr>ctr_seq = Some seq, ctr_index = 0\<rparr> else c)
      in (ctr_index c1, c1 \<lparr> ctr_index := ctr_index c1 + 1 \<rparr>))"

record FanoutState =
  fan_ring :: EventRing
  fan_fault :: "ustr option"

definition set_fault :: "ustr \<Rightarrow> FanoutState \<Rightarrow> FanoutState" where
  "set_fault diagnostic s = (if fan_fault s = None then s \<lparr> fan_fault := Some diagnostic \<rparr> else s)"

type_synonym rendering = "bytes \<Rightarrow> u64 \<Rightarrow> u32 \<Rightarrow> ustr + (ustr \<times> ustr)"

definition render_record :: "rendering \<Rightarrow> u64 \<Rightarrow> u32 \<Rightarrow> bytes \<Rightarrow> ustr + EventRecord" where
  "render_record render seq index payload =
     res_bind (render payload seq index) (\<lambda>(type, json).
       Inr \<lparr>rec_seq = seq, rec_index = index, event_type = type, rec_data = json\<rparr>)"

datatype EpochEnd = Resubscribe u64 bool | EpochFault

record Mux =
  mux_state :: FanoutState
  mux_resume :: u64
  mux_index :: IndexCounter
  mux_progressed :: bool
  mux_backoff :: nat
  mux_running :: bool

definition mux_new :: "usize \<Rightarrow> Mux" where
  "mux_new cap = \<lparr>mux_state = \<lparr>fan_ring = ring_new cap, fan_fault = None\<rparr>, mux_resume = 0, mux_index = counter_new,
     mux_progressed = False, mux_backoff = BACKOFF_BASE, mux_running = True\<rparr>"

definition next_resume :: "EventRing \<Rightarrow> u64 \<Rightarrow> u64" where
  "next_resume ring previous = (case ring_watermark ring of
     Some w \<Rightarrow> w
   | None \<Rightarrow> (case ring_oldest_seq ring of Some s \<Rightarrow> wsat_sub s 1 | None \<Rightarrow> previous))"

text \<open>One item of an epoch's subscription (\<open>run_epoch\<close>).\<close>

definition epoch_item :: "rendering \<Rightarrow> StreamItem \<Rightarrow> Mux \<Rightarrow> EpochEnd option \<times> Mux" where
  "epoch_item render item m = (case item of
     Event seq payload \<Rightarrow>
       let (idx, ctr) = index_next seq (mux_index m); m1 = m \<lparr> mux_progressed := True, mux_index := ctr \<rparr> in
       (case render_record render seq idx payload of
          Inr rcd \<Rightarrow> (None, m1 \<lparr> mux_state := (mux_state m) \<lparr> fan_ring := snd (ring_push rcd (fan_ring (mux_state m))) \<rparr> \<rparr>)
        | Inl err \<Rightarrow> (Some EpochFault, m1 \<lparr> mux_state := set_fault err (mux_state m) \<rparr>))
   | Gap q \<Rightarrow> (Some (Resubscribe q (mux_progressed m)),
       m \<lparr> mux_state := (mux_state m) \<lparr> fan_ring := note_gap q (fan_ring (mux_state m)) \<rparr> \<rparr>)
   | _ \<Rightarrow> (Some (Resubscribe (next_resume (fan_ring (mux_state m)) (mux_resume m)) (mux_progressed m)), m))"

text \<open>A turn of the whole loop (\<open>run\<close>): the next item, and the next epoch when one has ended.\<close>

definition mux_turn :: "rendering \<Rightarrow> bool \<Rightarrow> StreamItem \<Rightarrow> Mux \<Rightarrow> Mux" where
  "mux_turn render shutdown item m =
     (if \<not> mux_running m then m
      else if shutdown then m \<lparr> mux_running := False \<rparr>
      else case epoch_item render item m of
        (None, m1) \<Rightarrow> m1
      | (Some EpochFault, m1) \<Rightarrow> m1 \<lparr> mux_running := False \<rparr>
      | (Some (Resubscribe r progressed), m1) \<Rightarrow> m1 \<lparr> mux_resume := r, mux_index := counter_new, mux_progressed := False,
          mux_backoff := (if progressed then BACKOFF_BASE else min (mux_backoff m1 * 2) BACKOFF_CAP) \<rparr>)"

section \<open>The history as records\<close>

fun label :: "IndexCounter \<Rightarrow> CachedEvent list \<Rightarrow> (u64 \<times> u32 \<times> bytes) list" where
  "label c [] = []"
| "label c (e # es) = (case index_next (ev_seq e) c of (i, c') \<Rightarrow> (ev_seq e, i, ev_payload e) # label c' es)"


definition shown :: "rendering \<Rightarrow> u64 \<times> u32 \<times> bytes \<Rightarrow> EventRecord" where
  "shown render x = (case x of (q, i, p) \<Rightarrow> (case render_record render q i p of
     Inr r \<Rightarrow> r | Inl _ \<Rightarrow> \<lparr>rec_seq = q, rec_index = i, event_type = [], rec_data = []\<rparr>))"

text \<open>The records a history stands for: indices count up within a sequence number.\<close>

definition history_records :: "rendering \<Rightarrow> CachedEvent list \<Rightarrow> EventRecord list" where
  "history_records render h = map (shown render) (label counter_new h)"















section \<open>The ring carries the history\<close>

abbreviation ring_of :: "Mux \<Rightarrow> EventRing" where
  "ring_of m \<equiv> fan_ring (mux_state m)"







lemma history_records_Nil [simp]: "history_records render [] = []"
  by (simp add: history_records_def)














definition plain :: rendering where
  "plain payload seq index = Inr ([], map unat payload)"

definition log_event :: "u64 \<Rightarrow> u8 \<Rightarrow> CachedEvent" where
  "log_event q b = \<lparr>ev_seq = q, ev_payload = [b]\<rparr>"


abbreviation deliver :: "CachedEvent \<Rightarrow> Mux \<Rightarrow> Mux" where
  "deliver e \<equiv> mux_turn plain False (Event (ev_seq e) (ev_payload e))"

abbreviation reconnect :: "Mux \<Rightarrow> Mux" where
  "reconnect \<equiv> mux_turn plain False (Reconnecting ConnectionDropped)"

lemmas mux_eval = mux_turn_def epoch_item_def mux_new_def index_next_def counter_new_def render_record_def plain_def
  log_event_def ring_push_def ring_new_def rec_cursor_def less_eq_Cursor_def next_resume_def ring_oldest_seq_def






section \<open>Where records are lost\<close>

text \<open>
  A drop inside the first group of a log loses the rest of the group.  With only sequence number 1 seen the
  resume point computed from the ring is 0, which upstream means the live tail: the tail of
  the group and everything published meanwhile never arrive, no gap is noted, and a client at the
  last record before the drop is offered the next live record as if nothing lay between.
\<close>

theorem mux_first_group_loss:
  "let h = [log_event 1 1, log_event 1 2, log_event 2 3, log_event 3 4];
     m = deliver (log_event 3 4) (reconnect (deliver (log_event 1 1) (mux_new 8))) in
    mux_resume (reconnect (deliver (log_event 1 1) (mux_new 8))) = 0 \<and>
    asked 0 [log_event 1 1, log_event 1 2, log_event 2 3] h = [log_event 3 4] \<and>
    ring_position (ring_of m) (Cursor 1 0) = CursorPosition.InWindow \<and>
    map rec_cursor (records_after (ring_of m) (Cursor 1 0)) = [Cursor 3 0] \<and>
    map rec_cursor (between (history_records plain h) (Cursor 1 0) (Cursor 3 0)) = [Cursor 1 1, Cursor 2 0, Cursor 3 0]"
  by (simp add: mux_eval wsat_sub_def wchecked_sub_def asked_def ring_position_def ring_newest_def records_after_def
      ring_oldest_def less_Cursor_def history_records_def between_def shown_def)

text \<open>
  The edge of a gap: a client inside the group at which the upstream history resumes is taken to be contiguous,
  though resuming there skips the rest of that group.
\<close>

lemma gap_edge_loss:
  "let h = [log_event 7 1, log_event 7 2, log_event 8 3];
     m = deliver (log_event 8 3) (mux_turn plain False (Gap 7) (mux_new 8)) in
    asked 7 [log_event 7 1, log_event 7 2] h = [log_event 8 3] \<and>
    ring_position (ring_of m) (Cursor 7 0) = CursorPosition.InWindow \<and>
    map rec_cursor (records_after (ring_of m) (Cursor 7 0)) = [Cursor 8 0] \<and>
    map rec_cursor (between (history_records plain h) (Cursor 7 0) (Cursor 8 0)) = [Cursor 7 1, Cursor 8 0]"
  by (simp add: mux_eval note_gap_def asked_def ring_position_def ring_newest_def records_after_def
      ring_oldest_def less_Cursor_def history_records_def between_def shown_def)

end
