(* ===== verification/Gateway_Backfill.thy ===== *)
theory Gateway_Backfill
  imports Gateway_Mux
begin

text \<open>
  The bounded backfill of the gateway (\<open>knomosis-gateway/src/events/backfill.rs\<close>): the page builder
  and the loop that drains a subscription into one page.  A rendered event is the record that carries
  its sequence number, index, type and body.
\<close>

section \<open>Model\<close>


















section \<open>Pages are whole groups\<close>

























section \<open>Reconnecting inside a group\<close>



end
