(* ===== verification/Calldata.thy ===== *)
theory Calldata
  imports Strategy
begin

text \<open>
  The contract calls of the fault-proof observer (\<open>knomosis-faultproof-observer/src/submitter.rs\<close>):
  method selectors and the hand-written Solidity ABI encoders.  The hash function is the external
  Keccak-256 and enters as the argument \<open>keccak\<close>.  The lemmas compare the encoders with a reference
  reader that follows the ABI rules: a word sits at its offset, a dynamic value behind the
  offset its head word names.
\<close>

section \<open>Encoders\<close>

datatype MethodSelector =
    SubmitMidpoint | RespondToMidpoint | TerminateOnSingleStep | TerminateOnSingleStepFull | ClaimTimeout

fun signature :: "MethodSelector \<Rightarrow> string" where
  "signature MethodSelector.SubmitMidpoint = ''submitMidpoint(uint256,bytes32)''"
| "signature RespondToMidpoint = ''respondToMidpoint(uint256,bool)''"
| "signature MethodSelector.TerminateOnSingleStep = ''terminateOnSingleStep(uint256,bytes32)''"
| "signature TerminateOnSingleStepFull = ''terminateOnSingleStep(uint256,uint8,bytes,uint64,bytes,bytes,(uint8,uint256,uint256,bytes)[],bytes,bytes,bytes,bytes)''"
| "signature ClaimTimeout = ''claimTimeout(uint256)''"

definition selector :: "(bytes \<Rightarrow> bytes) \<Rightarrow> MethodSelector \<Rightarrow> bytes" where
  "selector keccak m = take 4 (keccak (map of_char (signature m)))"

definition u256_be :: "u128 \<Rightarrow> bytes" where
  "u256_be v = replicate 16 0 @ to_be v"

definition bool_word :: "bool \<Rightarrow> bytes" where
  "bool_word v = replicate 31 0 @ [if v then 1 else 0]"

definition encode_dynamic_bytes :: "bytes \<Rightarrow> bytes" where
  "encode_dynamic_bytes payload =
     (let len = length payload; padded_len = (len + 31) div 32 * 32
      in u256_be (of_nat len) @ payload @ replicate (padded_len - len) 0)"

record OpenedCell =
  cell_kind :: u8
  key_a :: u128
  key_b :: u128
  pre_value :: bytes

definition encode_opened_cell_tuple :: "OpenedCell \<Rightarrow> bytes" where
  "encode_opened_cell_tuple c = u256_be (ucast (cell_kind c)) @ u256_be (key_a c) @ u256_be (key_b c) @
     u256_be 128 @ encode_dynamic_bytes (pre_value c)"

fun cell_pointers :: "u128 \<Rightarrow> bytes list \<Rightarrow> bytes" where
  "cell_pointers data_offset [] = []"
| "cell_pointers data_offset (e # es) = u256_be data_offset @ cell_pointers (data_offset + of_nat (length e)) es"

definition encode_opened_cell_array :: "OpenedCell list \<Rightarrow> bytes" where
  "encode_opened_cell_array cells =
     (let per_element = map encode_opened_cell_tuple cells; n = length cells
      in u256_be (of_nat n) @ cell_pointers (of_nat n * 32) per_element @ concat per_element)"

definition encode_submit_calldata :: "(bytes \<Rightarrow> bytes) \<Rightarrow> u128 \<Rightarrow> StateCommit \<Rightarrow> bytes" where
  "encode_submit_calldata keccak game_id c = selector keccak MethodSelector.SubmitMidpoint @ u256_be game_id @ c"

definition encode_respond_calldata :: "(bytes \<Rightarrow> bytes) \<Rightarrow> u128 \<Rightarrow> bool \<Rightarrow> bytes" where
  "encode_respond_calldata keccak game_id agree = selector keccak RespondToMidpoint @ u256_be game_id @ bool_word agree"

definition encode_claim_timeout_calldata :: "(bytes \<Rightarrow> bytes) \<Rightarrow> u128 \<Rightarrow> bytes" where
  "encode_claim_timeout_calldata keccak game_id = selector keccak ClaimTimeout @ u256_be game_id"

definition encode_terminate_full_calldata ::
    "(bytes \<Rightarrow> bytes) \<Rightarrow> u128 \<Rightarrow> u8 \<Rightarrow> bytes \<Rightarrow> u64 \<Rightarrow> bytes \<Rightarrow> bytes \<Rightarrow> OpenedCell list \<Rightarrow> bytes \<Rightarrow> bytes \<Rightarrow> bytes \<Rightarrow> bytes \<Rightarrow> bytes" where
  "encode_terminate_full_calldata keccak game_id action_kind action_fields signer action_sig action_proof cells
     gap_mask siblings registry_value registry_proof =
     (let action_fields_tail = encode_dynamic_bytes action_fields;
          action_sig_tail = encode_dynamic_bytes action_sig;
          action_proof_tail = encode_dynamic_bytes action_proof;
          opened_tail = encode_opened_cell_array cells;
          gap_mask_tail = encode_dynamic_bytes gap_mask;
          siblings_tail = encode_dynamic_bytes siblings;
          registry_value_tail = encode_dynamic_bytes registry_value;
          registry_proof_tail = encode_dynamic_bytes registry_proof;
          action_fields_offset = 352;
          action_sig_offset = action_fields_offset + of_nat (length action_fields_tail);
          action_proof_offset = action_sig_offset + of_nat (length action_sig_tail);
          opened_offset = action_proof_offset + of_nat (length action_proof_tail);
          gap_mask_offset = opened_offset + of_nat (length opened_tail);
          siblings_offset = gap_mask_offset + of_nat (length gap_mask_tail);
          registry_value_offset = siblings_offset + of_nat (length siblings_tail);
          registry_proof_offset = registry_value_offset + of_nat (length registry_value_tail)
      in selector keccak TerminateOnSingleStepFull @ u256_be game_id @ u256_be (ucast action_kind) @
         u256_be action_fields_offset @ u256_be (ucast signer) @ u256_be action_sig_offset @
         u256_be action_proof_offset @ u256_be opened_offset @ u256_be gap_mask_offset @ u256_be siblings_offset @
         u256_be registry_value_offset @ u256_be registry_proof_offset @
         action_fields_tail @ action_sig_tail @ action_proof_tail @ opened_tail @ gap_mask_tail @ siblings_tail @
         registry_value_tail @ registry_proof_tail)"

datatype SubmitError = NoMove | TerminateNotImplemented | MissingBatchBinding | MissingRegistryOpening
  | RpcRejected ustr | MockUnsupported | BundleCommitMismatch

record TerminateBundle =
  fixture_id :: ustr
  bundle_kind :: u8
  bundle_fields :: bytes
  bundle_signer :: u64
  expected_post_commit :: StateCommit
  opened_cells :: "OpenedCell list"
  gap_mask :: bytes
  bundle_siblings :: bytes
  action_sig :: "bytes option"
  action_gap_mask :: "bytes option"
  action_siblings :: "bytes option"
  registry_value :: "bytes option"
  registry_proof :: "bytes option"

fun encode_calldata :: "(bytes \<Rightarrow> bytes) \<Rightarrow> u128 \<Rightarrow> HonestMove \<Rightarrow> SubmitError + bytes" where
  "encode_calldata keccak game_id HonestMove.NoMove = Inl NoMove"
| "encode_calldata keccak game_id (Submit c) = Inr (encode_submit_calldata keccak game_id (claim_commit c))"
| "encode_calldata keccak game_id HonestMove.RespondAgree = Inr (encode_respond_calldata keccak game_id True)"
| "encode_calldata keccak game_id HonestMove.RespondDisagree = Inr (encode_respond_calldata keccak game_id False)"
| "encode_calldata keccak game_id (HonestMove.TerminateOnSingleStep c) = Inl TerminateNotImplemented"

definition encode_calldata_with_bundle ::
    "(bytes \<Rightarrow> bytes) \<Rightarrow> u128 \<Rightarrow> HonestMove \<Rightarrow> TerminateBundle option \<Rightarrow> SubmitError + bytes" where
  "encode_calldata_with_bundle keccak game_id mv bundle = (case (mv, bundle) of
     (HonestMove.TerminateOnSingleStep c, Some b) \<Rightarrow>
       if expected_post_commit b \<noteq> c then Inl BundleCommitMismatch
       else (case (action_sig b, action_gap_mask b, action_siblings b) of
         (Some sig, Some gaps, Some sibs) \<Rightarrow>
           (case registry_proof b of
              None \<Rightarrow> Inl MissingRegistryOpening
            | Some proof \<Rightarrow>
                let value = (case registry_value b of None \<Rightarrow> [] | Some v \<Rightarrow> v)
                in Inr (encode_terminate_full_calldata keccak game_id (bundle_kind b) (bundle_fields b) (bundle_signer b)
                     sig (gaps @ sibs) (opened_cells b) (gap_mask b) (bundle_siblings b) value proof))
       | _ \<Rightarrow> Inl MissingBatchBinding)
   | (m, _) \<Rightarrow> encode_calldata keccak game_id m)"

section \<open>The ABI reader\<close>

text \<open>Reference reader: the word at an offset, and the byte string a word's offset leads to.\<close>

definition abi_word :: "bytes \<Rightarrow> nat \<Rightarrow> nat" where
  "abi_word args off = le_val (rev (take 32 (drop off args)))"

definition abi_bytes :: "bytes \<Rightarrow> nat \<Rightarrow> bytes" where
  "abi_bytes args off = take (abi_word args off) (drop (off + 32) args)"

definition abi_cell :: "bytes \<Rightarrow> nat \<Rightarrow> nat \<times> nat \<times> nat \<times> bytes" where
  "abi_cell args t = (abi_word args t, abi_word args (t + 32), abi_word args (t + 64),
     abi_bytes args (t + abi_word args (t + 96)))"

definition abi_cells :: "bytes \<Rightarrow> nat \<Rightarrow> (nat \<times> nat \<times> nat \<times> bytes) list" where
  "abi_cells args off = map (\<lambda>i. abi_cell args (off + 32 + abi_word args (off + 32 + 32 * i))) [0..<abi_word args off]"

lemma length_u256_be [simp]: "length (u256_be v) = 32"
  by (simp add: u256_be_def)

lemma le_val_zeros: "le_val (replicate n 0) = 0"
  by (simp add: le_val_zero_iff)

lemma u256_be_val: "le_val (rev (u256_be v)) = unat v"
proof -
  have "le_val (rev (to_be v)) = unat v"
    by (simp add: to_be_def to_le_def le_val_le_bytes) (use unat_lt [of v] in simp)
  then show ?thesis by (simp add: u256_be_def le_val_append le_val_zeros)
qed

lemma abi_word_at: "length pre = off \<Longrightarrow> abi_word (pre @ u256_be v @ post) off = unat v"
  by (simp add: abi_word_def u256_be_val)

lemma abi_bytes_at:
  assumes "length p < 2 ^ 128" "length pre = off"
  shows "abi_bytes (pre @ encode_dynamic_bytes p @ post) off = p"
proof -
  have "abi_word (pre @ encode_dynamic_bytes p @ post) off = length p"
    using abi_word_at [OF assms(2), of "of_nat (length p)"] assms(1)
    by (simp add: encode_dynamic_bytes_def Let_def unat_of_nat)
  then show ?thesis using assms(2) by (simp add: abi_bytes_def encode_dynamic_bytes_def Let_def)
qed

lemma length_encode_dynamic: "length p \<le> length (encode_dynamic_bytes p)"
  by (simp add: encode_dynamic_bytes_def Let_def)

lemma abi_cell_at:
  assumes "length (pre_value c) < 2 ^ 128" "length pre = t"
  shows "abi_cell (pre @ encode_opened_cell_tuple c @ post) t =
    (unat (cell_kind c), unat (key_a c), unat (key_b c), pre_value c)"
proof -
  let ?w0 = "u256_be (ucast (cell_kind c))" and ?w1 = "u256_be (key_a c)" and ?w2 = "u256_be (key_b c)"
    and ?b = "encode_dynamic_bytes (pre_value c)" and ?a = "pre @ encode_opened_cell_tuple c @ post"
  have "abi_word ?a t = unat (cell_kind c)"
    using abi_word_at [OF assms(2), of "ucast (cell_kind c)"]
    by (simp add: encode_opened_cell_tuple_def unat_ucast_up)
  moreover have "abi_word ?a (t + 32) = unat (key_a c)"
    using abi_word_at [of "pre @ ?w0" "t + 32" "key_a c"] assms(2) by (simp add: encode_opened_cell_tuple_def)
  moreover have "abi_word ?a (t + 64) = unat (key_b c)"
    using abi_word_at [of "pre @ ?w0 @ ?w1" "t + 64" "key_b c"] assms(2) by (simp add: encode_opened_cell_tuple_def)
  moreover have "abi_word ?a (t + 96) = 128"
    using abi_word_at [of "pre @ ?w0 @ ?w1 @ ?w2" "t + 96" 128] assms(2) by (simp add: encode_opened_cell_tuple_def)
  moreover have "abi_bytes ?a (t + 128) = pre_value c"
    using abi_bytes_at [OF assms(1), of "pre @ ?w0 @ ?w1 @ ?w2 @ u256_be 128" "t + 128" post] assms(2)
    by (simp add: encode_opened_cell_tuple_def)
  ultimately show ?thesis by (simp add: abi_cell_def)
qed


text \<open>The pointers of the array: element \<open>i\<close> starts where the elements before it end.\<close>

lemma cell_pointers_length [simp]: "length (cell_pointers q es) = 32 * length es"
  by (induction es arbitrary: q) auto

lemma cell_pointer_at:
  assumes "i < length es" "unat q + sum_list (map length es) < 2 ^ 128" "length pre = off"
  shows "abi_word (pre @ cell_pointers q es @ post) (off + 32 * i) = unat q + sum_list (map length (take i es))"
  using assms
proof (induction es arbitrary: q i pre off)
  case (Cons e es)
  have u: "unat (q + of_nat (length e)) = unat q + length e"
    using Cons.prems(2) by (simp add: unat_word_ariths unat_of_nat)
  show ?case
  proof (cases i)
    case 0
    then show ?thesis using abi_word_at [OF Cons.prems(3)] by simp
  next
    case (Suc j)
    then show ?thesis using Cons.IH [of j "q + of_nat (length e)" "pre @ u256_be q" "off + 32"] Cons.prems u
      by (simp add: algebra_simps)
  qed
qed simp

lemma concat_split: "i < length es \<Longrightarrow> concat es = concat (take i es) @ es ! i @ concat (drop (Suc i) es)"
  by (metis append_take_drop_id concat.simps(2) concat_append Cons_nth_drop_Suc)

definition cell_view :: "OpenedCell \<Rightarrow> nat \<times> nat \<times> nat \<times> bytes" where
  "cell_view c = (unat (cell_kind c), unat (key_a c), unat (key_b c), pre_value c)"

lemma length_tuple: "length (pre_value c) \<le> length (encode_opened_cell_tuple c)"
  using length_encode_dynamic [of "pre_value c"] by (simp add: encode_opened_cell_tuple_def)

lemma abi_cells_at:
  assumes s: "length (encode_opened_cell_array cells) < 2 ^ 128" and off: "length pre = off"
  shows "abi_cells (pre @ encode_opened_cell_array cells @ post) off = map cell_view cells"
proof -
  let ?es = "map encode_opened_cell_tuple cells" and ?n = "length cells"
  let ?a = "pre @ encode_opened_cell_array cells @ post" and ?q = "of_nat ?n * 32 :: u128"
  have len: "32 + 32 * ?n + sum_list (map length ?es) < 2 ^ 128"
    using s by (simp add: encode_opened_cell_array_def Let_def length_concat)
  have n: "unat (of_nat ?n :: u128) = ?n" "unat ?q = 32 * ?n"
    using len by (simp_all add: unat_of_nat unat_word_ariths)
  have a: "?a = pre @ u256_be (of_nat ?n) @ cell_pointers ?q ?es @ concat ?es @ post"
    by (simp add: encode_opened_cell_array_def Let_def)
  have count: "abi_word ?a off = ?n" unfolding a using abi_word_at [OF off] n(1) by simp
  have "abi_cell ?a (off + 32 + abi_word ?a (off + 32 + 32 * i)) = cell_view (cells ! i)" if i: "i < ?n" for i
  proof -
    have p: "abi_word ?a (off + 32 + 32 * i) = 32 * ?n + sum_list (map length (take i ?es))"
      unfolding a
      using cell_pointer_at [of i ?es ?q "pre @ u256_be (of_nat ?n)" "off + 32" "concat ?es @ post"] i len n(2) off by simp
    have "length (encode_opened_cell_tuple (cells ! i)) \<le> sum_list (map length ?es)"
      using i by (intro member_le_sum_list) auto
    then have b: "length (pre_value (cells ! i)) < 2 ^ 128"
      using length_tuple [of "cells ! i"] len by linarith
    have "abi_cell ((pre @ u256_be (of_nat ?n) @ cell_pointers ?q ?es @ concat (take i ?es)) @
        encode_opened_cell_tuple (cells ! i) @ concat (drop (Suc i) ?es) @ post)
        (off + 32 + (32 * ?n + sum_list (map length (take i ?es)))) = cell_view (cells ! i)"
      unfolding cell_view_def using off by (intro abi_cell_at [OF b]) (simp add: length_concat)
    moreover have "?a = (pre @ u256_be (of_nat ?n) @ cell_pointers ?q ?es @ concat (take i ?es)) @
        encode_opened_cell_tuple (cells ! i) @ concat (drop (Suc i) ?es) @ post"
      unfolding a using concat_split [of i ?es] i by simp
    ultimately show ?thesis unfolding p by simp
  qed
  then show ?thesis unfolding abi_cells_def count by (intro nth_equalityI) auto
qed

text \<open>Head words at their places: one word after the other.\<close>

lemma head_word_at:
  assumes "k < length vs"
  shows "abi_word (concat (map u256_be vs) @ rest) (32 * k) = unat (vs ! k)"
proof -
  have "concat (map u256_be vs) = concat (map u256_be (take k vs)) @ u256_be (vs ! k) @ concat (map u256_be (drop (Suc k) vs))"
    using concat_split [of k "map u256_be vs"] assms by (simp add: take_map drop_map)
  moreover have "length (concat (map u256_be (take k vs))) = 32 * k"
    using assms by (simp add: length_concat comp_def sum_list_triv)
  ultimately show ?thesis using abi_word_at by simp
qed


lemma tail_bytes_at:
  assumes "i < length ts" "ts ! i = encode_dynamic_bytes p" "length p < 2 ^ 128" "length h = off"
  shows "abi_bytes (h @ concat ts) (off + sum_list (map length (take i ts))) = p"
proof -
  have "h @ concat ts = (h @ concat (take i ts)) @ encode_dynamic_bytes p @ concat (drop (Suc i) ts)"
    using concat_split [OF assms(1)] assms(2) by simp
  moreover have "length (h @ concat (take i ts)) = off + sum_list (map length (take i ts))"
    using assms(4) by (simp add: length_concat)
  ultimately show ?thesis using abi_bytes_at [OF assms(3)] by (simp only:)
qed

lemma tail_cells_at:
  assumes "i < length ts" "ts ! i = encode_opened_cell_array cells" "length (ts ! i) < 2 ^ 128" "length h = off"
  shows "abi_cells (h @ concat ts) (off + sum_list (map length (take i ts))) = map cell_view cells"
proof -
  have "h @ concat ts = (h @ concat (take i ts)) @ encode_opened_cell_array cells @ concat (drop (Suc i) ts)"
    using concat_split [OF assms(1)] assms(2) by simp
  moreover have "length (h @ concat (take i ts)) = off + sum_list (map length (take i ts))"
    using assms(4) by (simp add: length_concat)
  moreover have "length (encode_opened_cell_array cells) < 2 ^ 128" using assms(2,3) by simp
  ultimately show ?thesis using abi_cells_at [of cells] by (simp only:)
qed

text \<open>The offsets of the tails, each the previous one and the length of its tail.\<close>

fun tail_offsets :: "u128 \<Rightarrow> bytes list \<Rightarrow> u128 list" where
  "tail_offsets q [] = []"
| "tail_offsets q (x # xs) = q # tail_offsets (q + of_nat (length x)) xs"

lemma tail_offset_val:
  assumes "i < length ts" "unat q + sum_list (map length ts) < 2 ^ 128"
  shows "unat (tail_offsets q ts ! i) = unat q + sum_list (map length (take i ts))"
  using assms
proof (induction ts arbitrary: q i)
  case (Cons x xs)
  have "unat (q + of_nat (length x)) = unat q + length x"
    using Cons.prems(2) by (simp add: unat_word_ariths unat_of_nat)
  then show ?case using Cons.IH [of "i - 1" "q + of_nat (length x)"] Cons.prems by (cases i) auto
qed simp

lemma terminate_layout:
  fixes fields sig pf cells gaps sibs rv rp
  defines "ts \<equiv> [encode_dynamic_bytes fields, encode_dynamic_bytes sig, encode_dynamic_bytes pf,
    encode_opened_cell_array cells, encode_dynamic_bytes gaps, encode_dynamic_bytes sibs, encode_dynamic_bytes rv,
    encode_dynamic_bytes rp]"
  shows "\<exists>vs. encode_terminate_full_calldata keccak gid k fields signer sig pf cells gaps sibs rv rp =
      selector keccak TerminateOnSingleStepFull @ concat (map u256_be vs) @ concat ts \<and>
    length vs = 11 \<and> vs ! 0 = gid \<and> vs ! 1 = ucast k \<and> vs ! 3 = ucast signer \<and>
    map (nth vs) [2, 4, 5, 6, 7, 8, 9, 10] = tail_offsets 352 ts"
proof -
  let ?o = "tail_offsets 352 ts"
  show ?thesis
    by (rule exI [of _ "[gid, ucast k, ?o ! 0, ucast signer, ?o ! 1, ?o ! 2, ?o ! 3, ?o ! 4, ?o ! 5, ?o ! 6, ?o ! 7]"])
      (simp add: encode_terminate_full_calldata_def ts_def Let_def)
qed


text \<open>
  C37: The contract reads from a terminate call exactly what the bundle holds.  A reader that follows the ABI
  rules, one word per argument and each dynamic argument behind the offset in its word, finds in the
  calldata the selector of the full signature and then the game, the action kind, its fields, the signer,
  the signature, the inclusion proof (the gap mask followed by the siblings), every opened cell with
  its keys and its value, and the multiproof and registry arguments, for every bundle the encoder accepts.
\<close>

theorem terminate_calldata_decodes:
  assumes ok: "encode_calldata_with_bundle keccak gid (HonestMove.TerminateOnSingleStep c) (Some b) = Inr cd"
    and len: "length cd \<le> isize_max" and k: "\<And>m. length (keccak m) = 32"
  shows "take 4 cd = selector keccak TerminateOnSingleStepFull \<and>
    (let args = drop 4 cd; arg = (\<lambda>i. abi_word args (32 * i)) in
      arg 0 = unat gid \<and> arg 1 = unat (bundle_kind b) \<and> abi_bytes args (arg 2) = bundle_fields b \<and>
      arg 3 = unat (bundle_signer b) \<and> Some (abi_bytes args (arg 4)) = action_sig b \<and>
      (\<exists>gaps sibs. action_gap_mask b = Some gaps \<and> action_siblings b = Some sibs \<and>
         abi_bytes args (arg 5) = gaps @ sibs) \<and>
      abi_cells args (arg 6) = map cell_view (opened_cells b) \<and>
      abi_bytes args (arg 7) = gap_mask b \<and> abi_bytes args (arg 8) = bundle_siblings b \<and>
      abi_bytes args (arg 9) = (case registry_value b of None \<Rightarrow> [] | Some v \<Rightarrow> v) \<and>
      Some (abi_bytes args (arg 10)) = registry_proof b)"
proof -
  let ?rv = "case registry_value b of None \<Rightarrow> [] | Some v \<Rightarrow> v"
  obtain sig gaps sibs rp where opts: "action_sig b = Some sig" "action_gap_mask b = Some gaps"
      "action_siblings b = Some sibs" "registry_proof b = Some rp"
    and cd: "cd = encode_terminate_full_calldata keccak gid (bundle_kind b) (bundle_fields b) (bundle_signer b)
      sig (gaps @ sibs) (opened_cells b) (gap_mask b) (bundle_siblings b) ?rv rp"
    using ok by (auto simp: encode_calldata_with_bundle_def Let_def split: if_splits option.splits)
  define ts where "ts = [encode_dynamic_bytes (bundle_fields b), encode_dynamic_bytes sig,
    encode_dynamic_bytes (gaps @ sibs), encode_opened_cell_array (opened_cells b), encode_dynamic_bytes (gap_mask b),
    encode_dynamic_bytes (bundle_siblings b), encode_dynamic_bytes ?rv, encode_dynamic_bytes rp]"
  obtain vs where l: "cd = selector keccak TerminateOnSingleStepFull @ concat (map u256_be vs) @ concat ts"
    and vs: "length vs = 11" "vs ! 0 = gid" "vs ! 1 = ucast (bundle_kind b)" "vs ! 3 = ucast (bundle_signer b)"
      "map (nth vs) [2, 4, 5, 6, 7, 8, 9, 10] = tail_offsets 352 ts"
    using terminate_layout [of keccak gid "bundle_kind b" "bundle_fields b" "bundle_signer b" sig "gaps @ sibs"
      "opened_cells b" "gap_mask b" "bundle_siblings b" ?rv rp] unfolding cd ts_def by blast
  have sel: "length (selector keccak TerminateOnSingleStepFull) = 4" by (simp add: selector_def k)
  then have args: "drop 4 cd = concat (map u256_be vs) @ concat ts" "take 4 cd = selector keccak TerminateOnSingleStepFull"
    by (simp_all add: l)
  have h: "length (concat (map u256_be vs)) = 352" using vs(1) by (simp add: length_concat comp_def sum_list_triv)
  have tot: "sum_list (map length ts) \<le> isize_max" using len l by (simp add: length_concat)
  have n: "length ts = 8" by (simp add: ts_def)
  have small: "length (ts ! i) < 2 ^ 128" if "i < 8" for i
    using member_le_sum_list [of "length (ts ! i)" "map length ts"] that tot n by (auto simp: isize_max_def)
  have bytes_small: "length p < 2 ^ 128" if "ts ! i = encode_dynamic_bytes p" "i < 8" for i p
    using small [OF that(2)] length_encode_dynamic [of p] that(1) by simp
  have off: "unat (tail_offsets 352 ts ! i) = 352 + sum_list (map length (take i ts))" if "i < 8" for i
    using tail_offset_val [of i ts 352] that tot by (simp add: ts_def isize_max_def)
  have dyn: "abi_bytes (drop 4 cd) (unat (tail_offsets 352 ts ! i)) = p" if "ts ! i = encode_dynamic_bytes p" "i < 8" for i p
    unfolding off [OF that(2)] args(1) using that bytes_small [OF that] h
    by (intro tail_bytes_at) (simp_all add: ts_def)
  have cells: "abi_cells (drop 4 cd) (unat (tail_offsets 352 ts ! 3)) = map cell_view (opened_cells b)"
    unfolding off [of 3, simplified] args(1) using small [of 3] h by (intro tail_cells_at) (simp_all add: ts_def)
  have w: "abi_word (drop 4 cd) (32 * i) = unat (vs ! i)" if "i < 11" for i
    unfolding args(1) using head_word_at [of i vs] vs(1) that by simp
  have o: "vs ! 2 = tail_offsets 352 ts ! 0" "vs ! 4 = tail_offsets 352 ts ! 1" "vs ! 5 = tail_offsets 352 ts ! 2"
    "vs ! 6 = tail_offsets 352 ts ! 3" "vs ! 7 = tail_offsets 352 ts ! 4" "vs ! 8 = tail_offsets 352 ts ! 5"
    "vs ! 9 = tail_offsets 352 ts ! 6" "vs ! 10 = tail_offsets 352 ts ! 7"
    unfolding vs(5) [symmetric] by simp_all
  show ?thesis
    unfolding Let_def args(2) opts
    using w [of 0] w [of 1] w [of 2] w [of 3] w [of 4] w [of 5] w [of 6] w [of 7] w [of 8] w [of 9] w [of 10] vs(2-4) o
      cells dyn [of 0] dyn [of 1] dyn [of 2] dyn [of 4] dyn [of 5] dyn [of 6] dyn [of 7]
    by (simp add: ts_def unat_ucast_up)
qed

definition sample_bundle :: TerminateBundle where
  "sample_bundle = \<lparr> fixture_id = [], bundle_kind = 3, bundle_fields = [1, 2, 3], bundle_signer = 9,
     expected_post_commit = replicate 32 4,
     opened_cells = [\<lparr> cell_kind = 2, key_a = 10, key_b = 11, pre_value = [8, 8] \<rparr>],
     gap_mask = [1], bundle_siblings = [], action_sig = Some [5], action_gap_mask = Some [6],
     action_siblings = Some [7], registry_value = None, registry_proof = Some [12] \<rparr>"

theorem terminate_calldata_decodes_witness:
  "\<exists>cd. encode_calldata_with_bundle (\<lambda>_. replicate 32 7) 77 (HonestMove.TerminateOnSingleStep (replicate 32 4))
       (Some sample_bundle) = Inr cd \<and> take 4 cd = replicate 4 7 \<and>
     abi_word (drop 4 cd) 0 = 77 \<and> abi_bytes (drop 4 cd) (abi_word (drop 4 cd) 64) = [1, 2, 3] \<and>
     abi_bytes (drop 4 cd) (abi_word (drop 4 cd) 160) = [6, 7] \<and>
     abi_cells (drop 4 cd) (abi_word (drop 4 cd) 192) = [(2, 10, 11, [8, 8])] \<and>
     abi_bytes (drop 4 cd) (abi_word (drop 4 cd) 320) = [12]"
proof -
  let ?k = "\<lambda>_ :: bytes. replicate 32 7 :: bytes" and ?c = "replicate 32 4 :: bytes"
  let ?e = "encode_calldata_with_bundle ?k 77 (HonestMove.TerminateOnSingleStep ?c) (Some sample_bundle)"
  obtain cd where cd: "?e = Inr cd" "length cd \<le> isize_max"
    by (simp add: encode_calldata_with_bundle_def sample_bundle_def encode_terminate_full_calldata_def Let_def
      encode_dynamic_bytes_def encode_opened_cell_array_def encode_opened_cell_tuple_def selector_def isize_max_def)
  show ?thesis
    using terminate_calldata_decodes [OF cd] cd(1)
    by (intro exI [of _ cd]) (simp add: Let_def sample_bundle_def selector_def cell_view_def)
qed

end
