(* ===== verification/Game_Events.thy ===== *)
theory Game_Events
  imports L1_Events Calldata
begin

text \<open>
  The contract events the fault-proof observer follows
  (\<open>knomosis-faultproof-observer/src/events.rs\<close>): the event topics, the typed events and the decoder
  of raw logs.  Topic hashes come from the external Keccak-256, the argument \<open>keccak\<close>.  The lemmas
  show that the decoder accepts exactly the logs with the ABI layout of an event.
\<close>

section \<open>Topics and events\<close>

datatype GameEventTopic = TGameOpened | TMidpointSubmitted | TResponseSubmitted | TGameSettled | TStateRootSubmitted

fun topic_signature :: "GameEventTopic \<Rightarrow> string" where
  "topic_signature TGameOpened = ''FaultProofGameOpened(uint256,address,bytes32,bytes32)''"
| "topic_signature TMidpointSubmitted = ''BisectionMidpointSubmitted(uint256,address,uint64,bytes32)''"
| "topic_signature TResponseSubmitted = ''BisectionResponseSubmitted(uint256,address,bool)''"
| "topic_signature TGameSettled = ''FaultProofGameSettled(uint256,uint8,address,uint128)''"
| "topic_signature TStateRootSubmitted = ''StateRootSubmitted(uint64,bytes32,address,uint64,bytes32)''"

definition game_topic_hash :: "(bytes \<Rightarrow> bytes) \<Rightarrow> GameEventTopic \<Rightarrow> TopicHash" where
  "game_topic_hash keccak t = keccak (map of_char (topic_signature t))"

definition game_topic_from_hash :: "(bytes \<Rightarrow> bytes) \<Rightarrow> TopicHash \<Rightarrow> GameEventTopic option" where
  "game_topic_from_hash keccak h = List.find (\<lambda>t. game_topic_hash keccak t = h)
     [TGameOpened, TMidpointSubmitted, TResponseSubmitted, TGameSettled, TStateRootSubmitted]"

text \<open>The last three fields of every event are the block number, the transaction hash and the log index.\<close>

datatype GameEvent =
    GameOpened u128 TopicHash StateCommit StateCommit u64 TopicHash u64
  | MidpointSubmitted u128 TopicHash LogIndex StateCommit u64 TopicHash u64
  | ResponseSubmitted u128 TopicHash bool u64 TopicHash u64
  | GameSettled u128 GameStatus TopicHash u128 u64 TopicHash u64
  | StateRootSubmitted LogIndex StateCommit TopicHash LogIndex StateCommit u64 TopicHash u64

fun idempotency_key :: "GameEvent \<Rightarrow> u64 \<times> TopicHash \<times> u64" where
  "idempotency_key (GameOpened _ _ _ _ b t l) = (b, t, l)"
| "idempotency_key (MidpointSubmitted _ _ _ _ b t l) = (b, t, l)"
| "idempotency_key (ResponseSubmitted _ _ _ b t l) = (b, t, l)"
| "idempotency_key (GameSettled _ _ _ _ b t l) = (b, t, l)"
| "idempotency_key (StateRootSubmitted _ _ _ _ _ b t l) = (b, t, l)"

definition event_block_number :: "GameEvent \<Rightarrow> u64" where
  "event_block_number e = fst (idempotency_key e)"

fun event_game_id :: "GameEvent \<Rightarrow> u128 option" where
  "event_game_id (GameOpened g _ _ _ _ _ _) = Some g"
| "event_game_id (MidpointSubmitted g _ _ _ _ _ _) = Some g"
| "event_game_id (ResponseSubmitted g _ _ _ _ _) = Some g"
| "event_game_id (GameSettled g _ _ _ _ _ _) = Some g"
| "event_game_id (StateRootSubmitted _ _ _ _ _ _ _ _) = None"

datatype EventDecodeError =
    WrongTopicsLength string usize usize
  | WrongDataLength string usize usize
  | NumericTooLarge string u32
  | NonCanonicalBool string
  | UnknownGameStatus u8

section \<open>The decoder\<close>

definition expect_topics :: "RawLog \<Rightarrow> string \<Rightarrow> usize \<Rightarrow> EventDecodeError + unit" where
  "expect_topics log variant expected =
     (if length (topics log) = expected then Inr () else Inl (WrongTopicsLength variant (length (topics log)) expected))"

definition expect_data_len :: "RawLog \<Rightarrow> string \<Rightarrow> usize \<Rightarrow> EventDecodeError + unit" where
  "expect_data_len log variant expected =
     (if length (data log) = expected then Inr () else Inl (WrongDataLength variant (length (data log)) expected))"

definition decode_word_uint128 :: "bytes \<Rightarrow> string \<Rightarrow> EventDecodeError + u128" where
  "decode_word_uint128 w field =
     (if list_ex (\<lambda>b. b \<noteq> 0) (take 16 w) then Inl (NumericTooLarge field 128) else Inr (from_be (drop 16 w)))"

definition decode_word_uint64 :: "bytes \<Rightarrow> string \<Rightarrow> EventDecodeError + u64" where
  "decode_word_uint64 w field =
     (if list_ex (\<lambda>b. b \<noteq> 0) (take 24 w) then Inl (NumericTooLarge field 64) else Inr (from_be (drop 24 w)))"

definition decode_word_uint8 :: "bytes \<Rightarrow> string \<Rightarrow> EventDecodeError + u8" where
  "decode_word_uint8 w field =
     (if list_ex (\<lambda>b. b \<noteq> 0) (take 31 w) then Inl (NumericTooLarge field 8) else Inr (w ! 31))"

definition decode_word_bool :: "bytes \<Rightarrow> string \<Rightarrow> EventDecodeError + bool" where
  "decode_word_bool w field =
     (if length w \<noteq> 32 then Inl (WrongDataLength field (length w) 32)
      else if list_ex (\<lambda>b. b \<noteq> 0) (take 31 w) then Inl (NonCanonicalBool field)
      else if w ! 31 = 0 then Inr False
      else if w ! 31 = 1 then Inr True
      else Inl (NonCanonicalBool field))"

definition decode_game_opened :: "RawLog \<Rightarrow> EventDecodeError + GameEvent" where
  "decode_game_opened log =
     res_bind (expect_topics log ''FaultProofGameOpened'' 3) (\<lambda>_.
     res_bind (expect_data_len log ''FaultProofGameOpened'' 64) (\<lambda>_.
     res_bind (decode_word_uint128 (topics log ! 1) ''FaultProofGameOpened.gameId'') (\<lambda>game_id.
     Inr (GameOpened game_id (topics log ! 2) (take 32 (data log)) (take 32 (drop 32 (data log)))
       (block_number log) (tx_hash log) (log_index log)))))"

definition decode_midpoint_submitted :: "RawLog \<Rightarrow> EventDecodeError + GameEvent" where
  "decode_midpoint_submitted log =
     res_bind (expect_topics log ''BisectionMidpointSubmitted'' 3) (\<lambda>_.
     res_bind (expect_data_len log ''BisectionMidpointSubmitted'' 64) (\<lambda>_.
     res_bind (decode_word_uint128 (topics log ! 1) ''BisectionMidpointSubmitted.gameId'') (\<lambda>game_id.
     res_bind (decode_word_uint64 (take 32 (data log)) ''BisectionMidpointSubmitted.idx'') (\<lambda>idx.
     Inr (MidpointSubmitted game_id (topics log ! 2) idx (take 32 (drop 32 (data log)))
       (block_number log) (tx_hash log) (log_index log))))))"

definition decode_response_submitted :: "RawLog \<Rightarrow> EventDecodeError + GameEvent" where
  "decode_response_submitted log =
     res_bind (expect_topics log ''BisectionResponseSubmitted'' 3) (\<lambda>_.
     res_bind (expect_data_len log ''BisectionResponseSubmitted'' 32) (\<lambda>_.
     res_bind (decode_word_uint128 (topics log ! 1) ''BisectionResponseSubmitted.gameId'') (\<lambda>game_id.
     res_bind (decode_word_bool (take 32 (data log)) ''BisectionResponseSubmitted.agree'') (\<lambda>agree.
     Inr (ResponseSubmitted game_id (topics log ! 2) agree
       (block_number log) (tx_hash log) (log_index log))))))"

definition game_status_of_byte :: "u8 \<Rightarrow> EventDecodeError + GameStatus" where
  "game_status_of_byte b =
     (if b = 0 then Inr InProgress else if b = 1 then Inr SequencerWon else if b = 2 then Inr ChallengerWon
      else if b = 3 then Inr TimedOutSequencer else if b = 4 then Inr TimedOutChallenger
      else Inl (UnknownGameStatus b))"

definition decode_game_settled :: "RawLog \<Rightarrow> EventDecodeError + GameEvent" where
  "decode_game_settled log =
     res_bind (expect_topics log ''FaultProofGameSettled'' 3) (\<lambda>_.
     res_bind (expect_data_len log ''FaultProofGameSettled'' 64) (\<lambda>_.
     res_bind (decode_word_uint128 (topics log ! 1) ''FaultProofGameSettled.gameId'') (\<lambda>game_id.
     res_bind (decode_word_uint8 (take 32 (data log)) ''FaultProofGameSettled.status'') (\<lambda>status_byte.
     res_bind (game_status_of_byte status_byte) (\<lambda>status.
     res_bind (decode_word_uint128 (take 32 (drop 32 (data log))) ''FaultProofGameSettled.winnerPayout'') (\<lambda>payout.
     Inr (GameSettled game_id status (topics log ! 2) payout
       (block_number log) (tx_hash log) (log_index log))))))))"

definition decode_state_root_submitted :: "RawLog \<Rightarrow> EventDecodeError + GameEvent" where
  "decode_state_root_submitted log =
     res_bind (expect_topics log ''StateRootSubmitted'' 3) (\<lambda>_.
     res_bind (expect_data_len log ''StateRootSubmitted'' 96) (\<lambda>_.
     res_bind (decode_word_uint64 (topics log ! 1) ''StateRootSubmitted.logIndex'') (\<lambda>log_index_claim.
     res_bind (decode_word_uint64 (take 32 (drop 32 (data log))) ''StateRootSubmitted.prevEndIndex'') (\<lambda>prev_end.
     Inr (StateRootSubmitted log_index_claim (take 32 (data log)) (topics log ! 2) prev_end
       (take 32 (drop 64 (data log))) (block_number log) (tx_hash log) (log_index log))))))"

definition decode_game_event :: "(bytes \<Rightarrow> bytes) \<Rightarrow> RawLog \<Rightarrow> EventDecodeError + GameEvent option" where
  "decode_game_event keccak log =
     (case topics log of
        [] \<Rightarrow> Inr None
      | topic0 # _ \<Rightarrow>
     (case game_topic_from_hash keccak topic0 of
        None \<Rightarrow> Inr None
      | Some TGameOpened \<Rightarrow> map_sum id Some (decode_game_opened log)
      | Some TMidpointSubmitted \<Rightarrow> map_sum id Some (decode_midpoint_submitted log)
      | Some TResponseSubmitted \<Rightarrow> map_sum id Some (decode_response_submitted log)
      | Some TGameSettled \<Rightarrow> map_sum id Some (decode_game_settled log)
      | Some TStateRootSubmitted \<Rightarrow> map_sum id Some (decode_state_root_submitted log)))"

section \<open>The decoder accepts exactly the ABI layouts\<close>

text \<open>The layout the contracts emit: indexed arguments as topics, the rest as words of the data.\<close>

fun status_byte_of :: "GameStatus \<Rightarrow> u8" where
  "status_byte_of InProgress = 0"
| "status_byte_of SequencerWon = 1"
| "status_byte_of ChallengerWon = 2"
| "status_byte_of TimedOutSequencer = 3"
| "status_byte_of TimedOutChallenger = 4"

fun game_topics :: "(bytes \<Rightarrow> bytes) \<Rightarrow> GameEvent \<Rightarrow> TopicHash list" where
  "game_topics keccak (GameOpened g c _ _ _ _ _) = [game_topic_hash keccak TGameOpened, u256_be g, c]"
| "game_topics keccak (MidpointSubmitted g p _ _ _ _ _) = [game_topic_hash keccak TMidpointSubmitted, u256_be g, p]"
| "game_topics keccak (ResponseSubmitted g p _ _ _ _) = [game_topic_hash keccak TResponseSubmitted, u256_be g, p]"
| "game_topics keccak (GameSettled g _ w _ _ _ _) = [game_topic_hash keccak TGameSettled, u256_be g, w]"
| "game_topics keccak (StateRootSubmitted i _ s _ _ _ _ _) = [game_topic_hash keccak TStateRootSubmitted, abi_u64 i, s]"

fun game_data :: "GameEvent \<Rightarrow> bytes" where
  "game_data (GameOpened _ _ d c _ _ _) = d @ c"
| "game_data (MidpointSubmitted _ _ i c _ _ _) = abi_u64 i @ c"
| "game_data (ResponseSubmitted _ _ a _ _ _) = bool_word a"
| "game_data (GameSettled _ s _ p _ _ _) = replicate 31 0 @ [status_byte_of s] @ u256_be p"
| "game_data (StateRootSubmitted _ c _ p a _ _ _) = c @ abi_u64 p @ a"

fun roots_sized :: "GameEvent \<Rightarrow> bool" where
  "roots_sized (GameOpened _ _ d c _ _ _) \<longleftrightarrow> length d = 32 \<and> length c = 32"
| "roots_sized (MidpointSubmitted _ _ _ c _ _ _) \<longleftrightarrow> length c = 32"
| "roots_sized (StateRootSubmitted _ c _ _ a _ _ _) \<longleftrightarrow> length c = 32 \<and> length a = 32"
| "roots_sized _ \<longleftrightarrow> True"

lemma uint64_word_Inr:
  assumes "length w = 32"
  shows "decode_word_uint64 w f = Inr v \<longleftrightarrow> w = abi_u64 v"
  using decode_abi_u64_Inr [OF assms, of 0 v] by (auto simp: decode_abi_u64_def decode_word_uint64_def split: if_splits)

lemma uint128_word_Inr:
  assumes "length w = 32"
  shows "decode_word_uint128 w f = Inr v \<longleftrightarrow> w = u256_be v"
proof -
  have "drop 16 w = to_be v \<longleftrightarrow> from_be (drop 16 w) = v"
    using be128.enc_dec [of "drop 16 w"] assms by (auto simp: be128.dec_enc)
  then show ?thesis using zero_prefix [of 16 w] assms
    by (auto simp: decode_word_uint128_def u256_be_def)
qed

lemma last_byte: "length w = 32 \<Longrightarrow> drop 31 w = [w ! 31]"
  using Cons_nth_drop_Suc [of 31 w] by simp

lemma byte_word_iff:
  fixes w :: bytes
  assumes "length w = 32"
  shows "\<not> list_ex (\<lambda>b. b \<noteq> 0) (take 31 w) \<longleftrightarrow> w = replicate 31 0 @ [w ! 31]"
  using zero_prefix [of 31 w] assms last_byte [OF assms] by simp

lemma uint8_word_Inr:
  assumes "length w = 32"
  shows "decode_word_uint8 w f = Inr v \<longleftrightarrow> w = replicate 31 0 @ [v]"
  using byte_word_iff [OF assms] by (auto simp: decode_word_uint8_def nth_append)

lemma bool_word_Inr:
  assumes "length w = 32"
  shows "decode_word_bool w f = Inr a \<longleftrightarrow> w = bool_word a"
  using byte_word_iff [OF assms] assms by (auto simp: decode_word_bool_def bool_word_def nth_append)

lemma status_byte_Inr: "game_status_of_byte b = Inr s \<longleftrightarrow> b = status_byte_of s"
  by (cases s) (auto simp: game_status_of_byte_def)

lemmas game_words = uint64_word_Inr uint128_word_Inr uint8_word_Inr bool_word_Inr status_byte_Inr

lemma expect_Inr [simp]:
  "expect_topics log v n = Inr u \<longleftrightarrow> length (topics log) = n"
  "expect_data_len log v n = Inr u \<longleftrightarrow> length (data log) = n"
  by (simp_all add: expect_topics_def expect_data_len_def)

lemma two_words:
  fixes dat :: bytes
  shows "length dat = 64 \<and> take 32 dat = a \<and> take 32 (drop 32 dat) = b \<longleftrightarrow> length a = 32 \<and> length b = 32 \<and> dat = a @ b"
  by auto

lemma three_words:
  fixes dat :: bytes
  shows "length dat = 96 \<and> take 32 dat = a \<and> take 32 (drop 32 dat) = b \<and> take 32 (drop 64 dat) = c \<longleftrightarrow>
    length a = 32 \<and> length b = 32 \<and> length c = 32 \<and> dat = a @ b @ c"
proof -
  have "length dat = 96 \<Longrightarrow> dat = take 32 dat @ take 32 (drop 32 dat) @ take 32 (drop 64 dat)"
    using append_take_drop_id [of 32 dat] append_take_drop_id [of 32 "drop 32 dat"] by simp
  then show ?thesis by auto
qed

text \<open>Each decoder, given a log whose topics are words.\<close>

lemma topics_iff: "ts = [x, a, b] \<longleftrightarrow> length ts = 3 \<and> hd ts = x \<and> ts ! 1 = a \<and> ts ! 2 = b"
  by (auto simp: length_Suc_conv numeral_eq_Suc)

lemma game_decoders_Inr:
  assumes ok: "log_ok log"
  shows "decode_game_opened log = Inr e \<longleftrightarrow> length (topics log) = 3 \<and> length (data log) = 64 \<and>
      (\<exists>g. topics log ! 1 = u256_be g \<and> e = GameOpened g (topics log ! 2) (take 32 (data log)) (take 32 (drop 32 (data log)))
        (block_number log) (tx_hash log) (log_index log))" (is ?opened)
    and "decode_midpoint_submitted log = Inr e \<longleftrightarrow> length (topics log) = 3 \<and> length (data log) = 64 \<and>
      (\<exists>g i. topics log ! 1 = u256_be g \<and> take 32 (data log) = abi_u64 i \<and>
        e = MidpointSubmitted g (topics log ! 2) i (take 32 (drop 32 (data log)))
        (block_number log) (tx_hash log) (log_index log))" (is ?midpoint)
    and "decode_response_submitted log = Inr e \<longleftrightarrow> length (topics log) = 3 \<and> length (data log) = 32 \<and>
      (\<exists>g a. topics log ! 1 = u256_be g \<and> data log = bool_word a \<and>
        e = ResponseSubmitted g (topics log ! 2) a (block_number log) (tx_hash log) (log_index log))" (is ?response)
    and "decode_game_settled log = Inr e \<longleftrightarrow> length (topics log) = 3 \<and> length (data log) = 64 \<and>
      (\<exists>g s p. topics log ! 1 = u256_be g \<and> take 32 (data log) = replicate 31 0 @ [status_byte_of s] \<and>
        take 32 (drop 32 (data log)) = u256_be p \<and>
        e = GameSettled g s (topics log ! 2) p (block_number log) (tx_hash log) (log_index log))" (is ?settled)
    and "decode_state_root_submitted log = Inr e \<longleftrightarrow> length (topics log) = 3 \<and> length (data log) = 96 \<and>
      (\<exists>i p. topics log ! 1 = abi_u64 i \<and> take 32 (drop 32 (data log)) = abi_u64 p \<and>
        e = StateRootSubmitted i (take 32 (data log)) (topics log ! 2) p (take 32 (drop 64 (data log)))
        (block_number log) (tx_hash log) (log_index log))" (is ?root)
proof -
  have l: "length (topics log) = 3 \<Longrightarrow> length (topics log ! 1) = 32"
    using ok by (auto simp: log_ok_def list_all_length)
  show ?opened
    unfolding decode_game_opened_def res_bind_Inr_iff by (auto simp: game_words l [simplified])
  show ?midpoint
    unfolding decode_midpoint_submitted_def res_bind_Inr_iff by (auto simp: game_words l [simplified])
  show ?response
    unfolding decode_response_submitted_def res_bind_Inr_iff by (auto simp: game_words l [simplified])
  show ?settled
    unfolding decode_game_settled_def res_bind_Inr_iff by (auto simp: game_words l [simplified])
  show ?root
    unfolding decode_state_root_submitted_def res_bind_Inr_iff by (auto simp: game_words l [simplified])
qed

lemma game_topic_from_hash_iff:
  assumes "\<And>t u. game_topic_hash keccak t = game_topic_hash keccak u \<Longrightarrow> t = u"
  shows "game_topic_from_hash keccak h = Some t \<longleftrightarrow> h = game_topic_hash keccak t"
  using assms by (cases t) (auto simp: game_topic_from_hash_def)

fun topic_of_event :: "GameEvent \<Rightarrow> GameEventTopic" where
  "topic_of_event (GameOpened _ _ _ _ _ _ _) = TGameOpened"
| "topic_of_event (MidpointSubmitted _ _ _ _ _ _ _) = TMidpointSubmitted"
| "topic_of_event (ResponseSubmitted _ _ _ _ _ _) = TResponseSubmitted"
| "topic_of_event (GameSettled _ _ _ _ _ _ _) = TGameSettled"
| "topic_of_event (StateRootSubmitted _ _ _ _ _ _ _ _) = TStateRootSubmitted"

fun decoder_of :: "GameEventTopic \<Rightarrow> RawLog \<Rightarrow> EventDecodeError + GameEvent" where
  "decoder_of TGameOpened = decode_game_opened"
| "decoder_of TMidpointSubmitted = decode_midpoint_submitted"
| "decoder_of TResponseSubmitted = decode_response_submitted"
| "decoder_of TGameSettled = decode_game_settled"
| "decoder_of TStateRootSubmitted = decode_state_root_submitted"

lemma decode_game_event_alt: "decode_game_event keccak log = (case topics log of [] \<Rightarrow> Inr None | topic0 # _ \<Rightarrow>
    (case game_topic_from_hash keccak topic0 of None \<Rightarrow> Inr None | Some t \<Rightarrow> map_sum id Some (decoder_of t log)))"
  by (auto simp: decode_game_event_def split: list.split option.split GameEventTopic.split)

lemma decoder_topic: "log_ok log \<Longrightarrow> decoder_of t log = Inr e \<Longrightarrow> topic_of_event e = t"
  by (cases t) (auto simp: game_decoders_Inr)

lemma map_sum_Some_Inr: "map_sum id Some r = Inr (Some e) \<longleftrightarrow> r = Inr e"
  by (cases r) auto

lemma topic_and_length:
  "(\<exists>ts. xs = x # ts) \<and> length xs = 3 \<and> xs ! 1 = a \<and> xs ! 2 = b \<longleftrightarrow> xs = [x, a, b]"
  by (auto simp: length_Suc_conv numeral_eq_Suc)

lemma decoder_exact:
  assumes ok: "log_ok log"
  shows "(\<exists>ts. topics log = game_topic_hash keccak (topic_of_event e) # ts) \<and> decoder_of (topic_of_event e) log = Inr e \<longleftrightarrow>
    roots_sized e \<and> topics log = game_topics keccak e \<and> data log = game_data e \<and>
    idempotency_key e = (block_number log, tx_hash log, log_index log)"
proof (cases e)
  case (GameOpened g c d r b t l)
  show ?thesis
    unfolding GameOpened topic_of_event.simps decoder_of.simps game_topics.simps game_data.simps roots_sized.simps
      idempotency_key.simps game_decoders_Inr [OF ok] topic_and_length [symmetric]
    using two_words [of "data log" d r] by blast
next
  case (MidpointSubmitted g q i c b t l)
  show ?thesis
    unfolding MidpointSubmitted topic_of_event.simps decoder_of.simps game_topics.simps game_data.simps roots_sized.simps
      idempotency_key.simps game_decoders_Inr [OF ok] topic_and_length [symmetric]
    using two_words [of "data log" "abi_u64 i" c] by auto
next
  case (ResponseSubmitted g q a b t l)
  show ?thesis
    unfolding ResponseSubmitted topic_of_event.simps decoder_of.simps game_topics.simps game_data.simps roots_sized.simps
      idempotency_key.simps game_decoders_Inr [OF ok] topic_and_length [symmetric]
    by (auto simp: bool_word_def)
next
  case (GameSettled g s w q b t l)
  show ?thesis
    unfolding GameSettled topic_of_event.simps decoder_of.simps game_topics.simps game_data.simps roots_sized.simps
      idempotency_key.simps game_decoders_Inr [OF ok] topic_and_length [symmetric]
    using two_words [of "data log" "replicate 31 0 @ [status_byte_of s]" "u256_be q"] by auto
next
  case (StateRootSubmitted i c s q a b t l)
  show ?thesis
    unfolding StateRootSubmitted topic_of_event.simps decoder_of.simps game_topics.simps game_data.simps roots_sized.simps
      idempotency_key.simps game_decoders_Inr [OF ok] topic_and_length [symmetric]
    using three_words [of "data log" c "abi_u64 q" a] by auto
qed

text \<open>
  C38: The observer's log decoder is exact: it returns an event precisely for the logs that carry the
  event's topic, its indexed arguments as the two further topics and its other arguments as
  the whole data, each in canonical form, and the event keeps the origin of the log.  A log with a number
  out of range, a boolean other than 0 or 1, an unknown status or a byte too many never decodes.
\<close>

theorem game_event_exact:
  assumes ok: "log_ok log" and sep: "\<And>t u. game_topic_hash keccak t = game_topic_hash keccak u \<Longrightarrow> t = u"
  shows "decode_game_event keccak log = Inr (Some e) \<longleftrightarrow>
    roots_sized e \<and> topics log = game_topics keccak e \<and> data log = game_data e \<and>
    idempotency_key e = (block_number log, tx_hash log, log_index log)"
proof -
  have "decode_game_event keccak log = Inr (Some e) \<longleftrightarrow>
      (\<exists>ts. topics log = game_topic_hash keccak (topic_of_event e) # ts) \<and> decoder_of (topic_of_event e) log = Inr e"
  proof (cases "topics log")
    case Nil
    then show ?thesis by (simp add: decode_game_event_alt)
  next
    case (Cons h ts)
    note iff = game_topic_from_hash_iff [of keccak h, OF sep]
    show ?thesis
    proof (cases "game_topic_from_hash keccak h")
      case None
      then show ?thesis using iff [of "topic_of_event e"] Cons by (simp add: decode_game_event_alt)
    next
      case (Some t)
      then have "decode_game_event keccak log = Inr (Some e) \<longleftrightarrow> decoder_of t log = Inr e"
        using Cons by (simp add: decode_game_event_alt map_sum_Some_Inr)
      moreover have "h = game_topic_hash keccak (topic_of_event e) \<longleftrightarrow> t = topic_of_event e"
        using iff [of "topic_of_event e"] Some by simp
      ultimately show ?thesis using decoder_topic [OF ok, of t e] Cons by (metis list.inject)
    qed
  qed
  then show ?thesis using decoder_exact [OF ok] by simp
qed

theorem game_event_exact_witness:
  "\<exists>keccak. decode_game_event keccak \<lparr>log_address = eth_zero,
     topics = [game_topic_hash keccak TMidpointSubmitted, u256_be 7, replicate 32 1], data = abi_u64 12 @ replicate 32 2,
     block_number = 30, tx_hash = [], log_index = 4\<rparr> =
   Inr (Some (MidpointSubmitted 7 (replicate 32 1) 12 (replicate 32 2) 30 [] 4))"
proof -
  let ?k = "\<lambda>m :: bytes. replicate 31 0 @ [m ! 14]"
  have sep: "game_topic_hash ?k t = game_topic_hash ?k u \<Longrightarrow> t = u" for t u
    by (cases t; cases u) (simp_all add: game_topic_hash_def)
  show ?thesis
    by (rule exI [of _ ?k], rule game_event_exact [THEN iffD2])
      (use sep in \<open>auto simp: log_ok_def isize_max_def game_topic_hash_def\<close>)
qed

end
