(* ===== verification/Watcher.thy ===== *)
theory Watcher
  imports Game_Events L1_Reorg
begin

text \<open>
  The event watcher of the fault-proof observer (\<open>knomosis-faultproof-observer/src/watcher.rs\<close>): its
  configuration, the block loop over the reorg window, and the iteration that restores the window on
  an error.  The L1 node behind the \<open>L1Source\<close> trait is an argument, a record of its three calls as it
  answers during one iteration.  The lemmas show which blocks an iteration delivers.
\<close>

section \<open>Configuration\<close>

definition MAX_REORG_WINDOW_CAPACITY :: usize where "MAX_REORG_WINDOW_CAPACITY = 4096"
definition MAX_CONFIRMATION_DEPTH :: u32 where "MAX_CONFIRMATION_DEPTH = 4096"
definition MAX_BLOCKS_PER_ITERATION :: u32 where "MAX_BLOCKS_PER_ITERATION = 4096"

datatype SourceError = Transport ustr | Malformed ustr | BlockNotFound u64

text \<open>The message of a configuration error, by the check that fails.\<close>

datatype config_problem = ZeroCapacity | CapacityAboveBound usize | ZeroBlocks | BlocksAboveBound u32
  | ZeroDepth | DepthAboveBound u32 | CapacityBelowDepth usize u32

datatype WatcherError = WSource SourceError | WReorg ReorgError | WDecode EventDecodeError | WConfig config_problem

record WatcherConfig =
  game_contract :: EthAddress
  state_root_submission_contract :: EthAddress
  confirmation_depth :: u32
  reorg_window_capacity :: usize
  blocks_per_iteration :: u32

definition watcher_validate :: "WatcherConfig \<Rightarrow> WatcherError + unit" where
  "watcher_validate c =
     (if reorg_window_capacity c = 0 then Inl (WConfig ZeroCapacity)
      else if MAX_REORG_WINDOW_CAPACITY < reorg_window_capacity c
      then Inl (WConfig (CapacityAboveBound (reorg_window_capacity c)))
      else if blocks_per_iteration c = 0 then Inl (WConfig ZeroBlocks)
      else if MAX_BLOCKS_PER_ITERATION < blocks_per_iteration c
      then Inl (WConfig (BlocksAboveBound (blocks_per_iteration c)))
      else if confirmation_depth c = 0 then Inl (WConfig ZeroDepth)
      else if MAX_CONFIRMATION_DEPTH < confirmation_depth c then Inl (WConfig (DepthAboveBound (confirmation_depth c)))
      else
        let cap_as_u32 = (if reorg_window_capacity c < 2 ^ 32 then of_nat (reorg_window_capacity c) else wmax) in
        if cap_as_u32 < confirmation_depth c
        then Inl (WConfig (CapacityBelowDepth (reorg_window_capacity c) (confirmation_depth c)))
        else Inr ())"

record Watcher =
  watcher_config :: WatcherConfig
  reorg_window :: ReorgWindow
  last_confirmed_block :: "u64 option"

definition watcher_new :: "WatcherConfig \<Rightarrow> WatcherError + Watcher rust" where
  "watcher_new c = res_bind (watcher_validate c) (\<lambda>_.
     Inr (case window_new (reorg_window_capacity c) of
       Panic \<Rightarrow> Panic
     | Val win \<Rightarrow> Val \<lparr>watcher_config = c, reorg_window = win, last_confirmed_block = None\<rparr>))"

definition set_last_confirmed :: "Watcher \<Rightarrow> u64 option \<Rightarrow> Watcher" where
  "set_last_confirmed w b = w\<lparr>last_confirmed_block := b\<rparr>"

definition clear_reorg_window :: "Watcher \<Rightarrow> Watcher" where
  "clear_reorg_window w = w\<lparr>reorg_window := window_clear (reorg_window w)\<rparr>"

definition seed_window :: "Watcher \<Rightarrow> BlockHeader list \<Rightarrow> Watcher" where
  "seed_window w headers = w\<lparr>reorg_window := seed (reorg_window w) headers\<rparr>"

definition window_snapshot :: "Watcher \<Rightarrow> BlockHeader list" where
  "window_snapshot w = buffer (reorg_window w)"

section \<open>An iteration\<close>

record L1Source =
  latest_block_number :: "SourceError + u64"
  block_header_by_number :: "u64 \<Rightarrow> SourceError + BlockHeader"
  logs_in_block_by_hash :: "TopicHash \<Rightarrow> EthAddress \<Rightarrow> SourceError + RawLog list"

record WatcherIteration =
  watch_events :: "GameEvent list"
  new_last_confirmed :: "u64 option"
  reorg_absorbed :: bool

fun decode_logs :: "(bytes \<Rightarrow> bytes) \<Rightarrow> RawLog list \<Rightarrow> EventDecodeError + GameEvent list" where
  "decode_logs keccak [] = Inr []"
| "decode_logs keccak (l # ls) =
     res_bind (decode_game_event keccak l) (\<lambda>ev.
     res_bind (decode_logs keccak ls) (\<lambda>evs.
     Inr (case ev of None \<Rightarrow> evs | Some e \<Rightarrow> e # evs)))"

text \<open>The events of a block: the logs of both contracts, by log index (the sort is stable).\<close>

definition block_events ::
    "(bytes \<Rightarrow> bytes) \<Rightarrow> L1Source \<Rightarrow> WatcherConfig \<Rightarrow> BlockHeader \<Rightarrow> WatcherError + GameEvent list" where
  "block_events keccak src c header =
     res_bind (map_err WSource (logs_in_block_by_hash src (hash header) (game_contract c))) (\<lambda>game_logs.
     res_bind (map_err WSource (logs_in_block_by_hash src (hash header) (state_root_submission_contract c))) (\<lambda>state_root_logs.
     map_err WDecode (decode_logs keccak (sort_key log_index (game_logs @ state_root_logs)))))"

definition observe_header ::
    "u64 option \<Rightarrow> ReorgWindow \<Rightarrow> BlockHeader \<Rightarrow> (ReorgError + AdvanceOutcome) \<times> ReorgWindow" where
  "observe_header last_confirmed win header =
     (if buffer win = [] \<and> last_confirmed = None then (Inr Advanced, seed win [header]) else advance win header)"

text \<open>
  The loop over the block numbers, with the events collected so far, the reorg flag and the last block
  processed; the window is returned on an error as well, as the loop has left it.
\<close>

fun watch_blocks ::
    "(bytes \<Rightarrow> bytes) \<Rightarrow> L1Source \<Rightarrow> WatcherConfig \<Rightarrow> u64 option \<Rightarrow> ReorgWindow \<Rightarrow> GameEvent list \<Rightarrow> bool \<Rightarrow> u64 option \<Rightarrow>
     u64 list \<Rightarrow> (WatcherError + GameEvent list \<times> bool \<times> u64 option) \<times> ReorgWindow" where
  "watch_blocks keccak src c lc win evs absorbed last_processed [] = (Inr (evs, absorbed, last_processed), win)"
| "watch_blocks keccak src c lc win evs absorbed last_processed (n # ns) =
     (case block_header_by_number src n of
        Inl e \<Rightarrow> (Inl (WSource e), win)
      | Inr header \<Rightarrow>
     (case observe_header lc win header of
        (Inl e, win') \<Rightarrow> (Inl (WReorg e), win')
      | (Inr outcome, win') \<Rightarrow>
          let kept = (case outcome of Advanced \<Rightarrow> evs | Reorged _ dropped_from \<Rightarrow> filter (\<lambda>e. event_block_number e < dropped_from) evs);
              absorbed' = (case outcome of Advanced \<Rightarrow> absorbed | Reorged _ _ \<Rightarrow> True)
          in (case block_events keccak src c header of
                Inl e \<Rightarrow> (Inl e, win')
              | Inr new \<Rightarrow> watch_blocks keccak src c lc win' (kept @ new) absorbed' (Some n) ns)))"

definition block_range :: "u64 \<Rightarrow> u64 \<Rightarrow> u64 list" where
  "block_range a b = map of_nat [unat a..<Suc (unat b)]"

definition no_blocks :: WatcherIteration where
  "no_blocks = \<lparr>watch_events = [], new_last_confirmed = None, reorg_absorbed = False\<rparr>"

definition watcher_run_inner :: "(bytes \<Rightarrow> bytes) \<Rightarrow> L1Source \<Rightarrow> Watcher \<Rightarrow> (WatcherError + WatcherIteration) \<times> Watcher" where
  "watcher_run_inner keccak src w =
     (case latest_block_number src of
        Inl e \<Rightarrow> (Inl (WSource e), w)
      | Inr head \<Rightarrow>
          let depth = ucast (confirmation_depth (watcher_config w)) in
          if head < depth then (Inr no_blocks, w)
          else
            let confirmed_head = head - depth;
                start = (case last_confirmed_block w of None \<Rightarrow> confirmed_head | Some lst \<Rightarrow> wsat_add lst 1)
            in if confirmed_head < start then (Inr no_blocks, w)
            else
              let stop = min confirmed_head
                    (wsat_add start (wsat_sub (ucast (blocks_per_iteration (watcher_config w))) 1))
              in (case watch_blocks keccak src (watcher_config w) (last_confirmed_block w) (reorg_window w) [] False
                    (last_confirmed_block w) (block_range start stop) of
                    (Inl e, win) \<Rightarrow> (Inl e, w\<lparr>reorg_window := win\<rparr>)
                  | (Inr (evs, absorbed, last_processed), win) \<Rightarrow>
                      (Inr \<lparr>watch_events = evs, new_last_confirmed = last_processed, reorg_absorbed = absorbed\<rparr>,
                       w\<lparr>reorg_window := win, last_confirmed_block := last_processed\<rparr>)))"

definition watcher_run_iteration :: "(bytes \<Rightarrow> bytes) \<Rightarrow> L1Source \<Rightarrow> Watcher \<Rightarrow> (WatcherError + WatcherIteration) \<times> Watcher" where
  "watcher_run_iteration keccak src w =
     (case watcher_run_inner keccak src w of
        (Inl e, w') \<Rightarrow> (Inl e, w'\<lparr>reorg_window := reorg_window w\<rparr>)
      | (Inr it, w') \<Rightarrow> (Inr it, w'))"

text \<open>\<open>Observer::set_start_block\<close>: the operator's override of the cursor.\<close>

definition set_start_block :: "Watcher \<Rightarrow> u64 \<Rightarrow> Watcher" where
  "set_start_block w b = clear_reorg_window (set_last_confirmed w (Some b))"

section \<open>The window follows the cursor\<close>

text \<open>
  What the node is relied on for: a header asked for by number has that number.
\<close>

definition numbered :: "L1Source \<Rightarrow> bool" where
  "numbered src \<longleftrightarrow> (\<forall>n h. block_header_by_number src n = Inr h \<longrightarrow> number h = n)"

lemma push_bounded_buffer:
  assumes "length (buffer w) \<le> capacity w" "0 < capacity w"
  shows "buffer (push_bounded w h) = drop (Suc (length (buffer w)) - capacity w) (buffer w @ [h])"
  using assms by (cases "buffer w") (auto simp: push_bounded_def Suc_diff_le)

lemma push_bounded_capacity [simp]: "capacity (push_bounded w h) = capacity w"
  by (simp add: push_bounded_def)

text \<open>A header one above the cursor extends the window or is refused; it never rolls anything back.\<close>

lemma observe_next:
  assumes inv: "window_inv win"
    and nxt: "buffer win \<noteq> [] \<Longrightarrow> Suc (unat (number (last (buffer win)))) = unat (number header)"
  shows "observe_header lc win header =
    (if buffer win = [] \<or> parent_hash header = hash (last (buffer win)) then (Inr Advanced, push_bounded win header)
     else (Inl (OrphanedParent (number header)), win))"
proof (cases "buffer win = []")
  case True
  then show ?thesis using inv
    by (simp add: observe_header_def advance_def window_head_def seed_def window_clear_def push_bounded_def window_inv_def)
next
  case False
  let ?hs = "buffer win"
  have lk: "linked ?hs" using inv by (simp add: window_inv_def)
  have a: "unat (number (hd ?hs)) < unat (number header)"
    using nxt [OF False] linked_last [OF lk False] False by (cases ?hs) auto
  have "below ?hs header = ?hs"
    using below_linked [OF lk False a] linked_last [OF lk False] nxt [OF False] by simp
  then show ?thesis using False nxt [OF False] a
    by (simp add: observe_header_def advance_eq_spec [OF inv] advance_spec_def Let_def word_le_nat_alt)
qed

lemma push_next_inv:
  assumes "window_inv win"
    and "buffer win \<noteq> [] \<Longrightarrow> Suc (unat (number (last (buffer win)))) = unat (number h) \<and> parent_hash h = hash (last (buffer win))"
  shows "window_inv (push_bounded win h)" and "linked (buffer win @ [h])" and "last (buffer (push_bounded win h)) = h"
    and "buffer (push_bounded win h) \<noteq> []"
proof -
  show "window_inv (push_bounded win h)"
    using assms push_bounded_inv [of win h] by (cases "buffer win = []") (auto simp: push_bounded_def window_inv_def)
  show "linked (buffer win @ [h])" using assms by (auto simp: linked_append window_inv_def)
qed (auto simp: push_bounded_def)

lemma drop_excess:
  "drop (length (drop (length xs - c) xs @ ys) - c) (drop (length xs - c) xs @ ys) = drop (length (xs @ ys) - c) (xs @ ys)"
proof (cases "length xs \<le> c")
  case False
  then have "drop (length xs - c) xs @ ys = drop (length xs - c) (xs @ ys)" by simp
  then show ?thesis using False by (simp add: add.commute)
qed simp

lemma linked_extend:
  assumes "linked (xs @ [h])" "linked (drop k (xs @ [h]) @ hs)" "k \<le> length xs"
  shows "linked (xs @ h # hs)"
  using assms by (auto simp: linked_append last_drop)

text \<open>What the loop delivers over consecutive blocks, when it ends without an error.\<close>

definition delivered :: "(bytes \<Rightarrow> bytes) \<Rightarrow> L1Source \<Rightarrow> WatcherConfig \<Rightarrow> u64 list \<Rightarrow> BlockHeader list \<Rightarrow> GameEvent list \<Rightarrow> bool" where
  "delivered keccak src c ns hs evs \<longleftrightarrow> list_all2 (\<lambda>n h. block_header_by_number src n = Inr h) ns hs \<and>
     (\<exists>ess. list_all2 (\<lambda>h es. block_events keccak src c h = Inr es) hs ess \<and> evs = concat ess)"

lemma delivered_Cons:
  assumes "block_header_by_number src n = Inr h" "block_events keccak src c h = Inr es" "delivered keccak src c ns hs evs"
  shows "delivered keccak src c (n # ns) (h # hs) (es @ evs)"
proof -
  obtain ess where "list_all2 (\<lambda>h es. block_events keccak src c h = Inr es) hs ess" "evs = concat ess"
    using assms(3) by (auto simp: delivered_def)
  then show ?thesis using assms unfolding delivered_def by (intro conjI exI [of _ "es # ess"]) auto
qed

lemma delivered_last:
  assumes "delivered keccak src c ns hs evs" "numbered src" "ns \<noteq> []"
  shows "hs \<noteq> []" "number (last hs) = last ns"
proof -
  have h: "list_all2 (\<lambda>n h. block_header_by_number src n = Inr h) ns hs" using assms(1) by (simp add: delivered_def)
  then show "hs \<noteq> []" using assms(3) by auto
  then have "block_header_by_number src (last ns) = Inr (last hs)"
    using h assms(3) by (auto simp: list_all2_conv_all_nth last_conv_nth)
  then show "number (last hs) = last ns" using assms(2) by (simp add: numbered_def)
qed

lemma watch_blocks_exact:
  assumes "watch_blocks keccak src c lc win evs ab lp ns = (Inr (evs', ab', lp'), win')"
    and "numbered src" "window_inv win" "ns = map of_nat [a..<b]" "b \<le> 2 ^ 64"
    and "buffer win \<noteq> [] \<Longrightarrow> Suc (unat (number (last (buffer win)))) = a"
  shows "\<exists>hs new. delivered keccak src c ns hs new \<and> evs' = evs @ new \<and> ab' = ab \<and>
    lp' = (if ns = [] then lp else Some (last ns)) \<and> linked (buffer win @ hs) \<and> window_inv win' \<and>
    capacity win' = capacity win \<and> buffer win' = drop (length (buffer win @ hs) - capacity win) (buffer win @ hs)"
  using assms
proof (induction ns arbitrary: win evs ab lp a)
  case Nil
  then show ?case by (intro exI [of _ "[]"]) (auto simp: delivered_def window_inv_def)
next
  case (Cons n ns)
  then have ab: "a < b" and n: "n = of_nat a" and ns: "ns = map of_nat [Suc a..<b]"
    by (auto simp: upt_eq_Cons_conv map_eq_Cons_conv)
  have un: "unat n = a" using ab Cons.prems(5) by (simp add: n unat_of_nat)
  obtain h where h: "block_header_by_number src n = Inr h"
    using Cons.prems(1) by (cases "block_header_by_number src n") auto
  then have num: "number h = n" using Cons.prems(2) by (simp add: numbered_def)
  have "Suc (unat (number (last (buffer win)))) = unat (number h)" if "buffer win \<noteq> []"
    using Cons.prems(6) [OF that] num un by simp
  note obs = observe_next [OF Cons.prems(3) this, of lc]
  then have p: "buffer win = [] \<or> parent_hash h = hash (last (buffer win))"
    using Cons.prems(1) h by (auto split: if_splits)
  then have obs: "observe_header lc win h = (Inr Advanced, push_bounded win h)" using obs by simp
  obtain es where es: "block_events keccak src c h = Inr es"
    using Cons.prems(1) h obs by (cases "block_events keccak src c h") (auto simp: Let_def)
  have run: "watch_blocks keccak src c lc (push_bounded win h) (evs @ es) ab (Some n) ns = (Inr (evs', ab', lp'), win')"
    using Cons.prems(1) h obs es by simp
  have "Suc (unat (number (last (buffer win)))) = unat (number h) \<and> parent_hash h = hash (last (buffer win))" if "buffer win \<noteq> []"
    using Cons.prems(6) [OF that] num un p that by simp
  note push = push_next_inv [OF Cons.prems(3) this]
  obtain hs new where ih: "delivered keccak src c ns hs new" "evs' = (evs @ es) @ new" "ab' = ab"
      "lp' = (if ns = [] then Some n else Some (last ns))" "linked (buffer (push_bounded win h) @ hs)" "window_inv win'"
      "capacity win' = capacity win"
      "buffer win' = drop (length (buffer (push_bounded win h) @ hs) - capacity win) (buffer (push_bounded win h) @ hs)"
    using Cons.IH [OF run Cons.prems(2) push(1) ns Cons.prems(5)] push(3) num un by auto
  have buf: "buffer (push_bounded win h) = drop (length (buffer win @ [h]) - capacity win) (buffer win @ [h])"
    using push_bounded_buffer [of win h] Cons.prems(3) by (simp add: window_inv_def)
  have "linked (buffer win @ h # hs)"
  proof (rule linked_extend [OF push(2)])
    show "linked (drop (length (buffer win @ [h]) - capacity win) (buffer win @ [h]) @ hs)" using ih(5) buf by (simp only:)
    show "length (buffer win @ [h]) - capacity win \<le> length (buffer win)" using Cons.prems(3) by (simp add: window_inv_def) linarith
  qed
  moreover have "buffer win' = drop (length (buffer win @ h # hs) - capacity win) (buffer win @ h # hs)"
    using drop_excess [of "buffer win @ [h]" "capacity win" hs] ih(8) buf by simp
  ultimately show ?case using delivered_Cons [OF h es ih(1)] ih
    by (intro exI [of _ "h # hs"] exI [of _ "es @ new"]) auto
qed

section \<open>Watchers over their life\<close>

text \<open>
  A watcher is built with a persisted cursor, runs iterations against nodes that may answer
  differently each time, is rebuilt after a restart from its cursor and window, and may have its cursor
  overridden by the operator.
\<close>

inductive watching :: "(bytes \<Rightarrow> bytes) \<Rightarrow> WatcherConfig \<Rightarrow> Watcher \<Rightarrow> bool" for keccak c where
  started: "watcher_new c = Inr (Val w) \<Longrightarrow> watching keccak c (set_last_confirmed w cursor)"
| iterated: "watching keccak c w \<Longrightarrow> numbered src \<Longrightarrow> watching keccak c (snd (watcher_run_iteration keccak src w))"
| restarted: "watching keccak c w \<Longrightarrow> watcher_new c = Inr (Val w0) \<Longrightarrow>
    watching keccak c (seed_window (set_last_confirmed w0 (last_confirmed_block w)) (window_snapshot w))"
| overridden: "watching keccak c w \<Longrightarrow> watching keccak c (set_start_block w b)"

definition synced :: "WatcherConfig \<Rightarrow> Watcher \<Rightarrow> bool" where
  "synced c w \<longleftrightarrow> watcher_config w = c \<and> watcher_validate c = Inr () \<and> window_inv (reorg_window w) \<and>
     capacity (reorg_window w) = reorg_window_capacity c \<and>
     (buffer (reorg_window w) \<noteq> [] \<longrightarrow> last_confirmed_block w = Some (number (last (buffer (reorg_window w)))))"

lemma watcher_new_Val:
  assumes "watcher_new c = Inr (Val w)"
  shows "watcher_validate c = Inr ()"
    "w = \<lparr>watcher_config = c, reorg_window = \<lparr>capacity = reorg_window_capacity c, buffer = []\<rparr>, last_confirmed_block = None\<rparr>"
    "0 < reorg_window_capacity c"
  using assms by (auto simp: watcher_new_def window_new_def res_bind_Inr_iff split: if_splits rust.splits)

lemma valid_config:
  assumes "watcher_validate c = Inr ()"
  shows "0 < unat (confirmation_depth c)" "0 < unat (blocks_per_iteration c)"
  using assms by (auto simp: watcher_validate_def Let_def unat_gt_0 split: if_splits)

text \<open>Re-seeding with a snapshot restores the window.\<close>

lemma push_all:
  "length (buffer w @ hs) \<le> capacity w \<Longrightarrow> foldl push_bounded w hs = w\<lparr>buffer := buffer w @ hs\<rparr>"
  by (induction hs arbitrary: w) (auto simp: push_bounded_def)

lemma seed_restores: "length hs \<le> capacity w \<Longrightarrow> seed w hs = w\<lparr>buffer := hs\<rparr>"
  using push_all [of "window_clear w" hs] by (simp add: seed_def window_clear_def)

text \<open>
  A finished iteration of a synced watcher, by the blocks it went through: none, or the next ones
  up to a depth below the head.
\<close>

definition iteration_exact :: "(bytes \<Rightarrow> bytes) \<Rightarrow> L1Source \<Rightarrow> Watcher \<Rightarrow> WatcherIteration \<Rightarrow> Watcher \<Rightarrow> bool" where
  "iteration_exact keccak src w it w' \<longleftrightarrow>
     (case new_last_confirmed it of
        None \<Rightarrow> watch_events it = [] \<and> w' = w
      | Some e \<Rightarrow> \<exists>head a hs. latest_block_number src = Inr head \<and>
          unat e + unat (confirmation_depth (watcher_config w)) \<le> unat head \<and>
          (case last_confirmed_block w of None \<Rightarrow> a = unat e | Some l \<Rightarrow> a = Suc (unat l)) \<and>
          a \<le> unat e \<and> unat e < a + unat (blocks_per_iteration (watcher_config w)) \<and>
          delivered keccak src (watcher_config w) (map of_nat [a..<Suc (unat e)]) hs (watch_events it) \<and>
          linked (buffer (reorg_window w) @ hs) \<and> watcher_config w' = watcher_config w \<and> last_confirmed_block w' = Some e \<and>
          capacity (reorg_window w') = capacity (reorg_window w) \<and>
          buffer (reorg_window w') = drop (length (buffer (reorg_window w) @ hs) - capacity (reorg_window w))
            (buffer (reorg_window w) @ hs))"

lemma iteration_range:
  fixes head :: u64 and depth bpi :: u32
  defines "ch \<equiv> head - ucast depth"
  defines "start \<equiv> \<lambda>l. case l of None \<Rightarrow> ch | Some l \<Rightarrow> wsat_add l 1"
  defines "stop \<equiv> \<lambda>l. min ch (wsat_add (start l) (wsat_sub (ucast bpi) 1))"
  assumes "0 < unat depth" "0 < unat bpi" "\<not> (head < ucast depth \<or> ch < start lc)"
  shows "unat (stop lc) + unat depth \<le> unat head" "unat (start lc) \<le> unat (stop lc)"
    "unat (stop lc) < unat (start lc) + unat bpi"
    "case lc of None \<Rightarrow> unat (start lc) = unat (stop lc) | Some l \<Rightarrow> unat (start lc) = Suc (unat l)"
proof -
  have d: "unat (ucast depth :: u64) = unat depth" and b: "unat (ucast bpi :: u64) = unat bpi"
    by (simp_all add: unat_ucast_up)
  have le: "unat depth \<le> unat head" using assms(6) d by (simp add: word_less_nat_alt)
  have ch: "unat ch = unat head - unat depth"
    using le d unfolding ch_def by (simp add: unat_sub word_le_nat_alt)
  have sc: "unat (start lc) \<le> unat ch" using assms(6) by (simp add: word_less_nat_alt)
  have st: "unat (stop lc) = min (unat ch) (unat (wsat_add (start lc) (wsat_sub (ucast bpi) 1)))"
    unfolding stop_def by (simp add: min_def word_le_nat_alt)
  have w: "unat (wsat_add (start lc) (wsat_sub (ucast bpi) 1)) = min (unat (start lc) + (unat bpi - 1)) (2 ^ 64 - 1)"
    by (simp add: unat_wsat_add unat_wsat_sub b)
  show "unat (stop lc) + unat depth \<le> unat head" using st ch le by simp
  show "unat (start lc) \<le> unat (stop lc)" using st sc w unat_lt [of "start lc"] by simp
  show "unat (stop lc) < unat (start lc) + unat bpi" using st w assms(5) by simp
  show "case lc of None \<Rightarrow> unat (start lc) = unat (stop lc) | Some l \<Rightarrow> unat (start lc) = Suc (unat l)"
  proof (cases lc)
    case None
    then have "start lc = ch" by (simp add: start_def)
    then show ?thesis using None st w assms(5) unat_lt [of ch] by simp
  next
    case (Some l)
    then have "unat (start lc) = min (unat l + 1) (2 ^ 64 - 1)" by (simp add: start_def unat_wsat_add)
    then show ?thesis using Some sc ch assms(4) le unat_lt [of head] by simp
  qed
qed

lemma run_inner_cases:
  assumes s: "synced c w" and num: "numbered src" and run: "watcher_run_inner keccak src w = (Inr it, w')"
  shows "\<not> reorg_absorbed it \<and> iteration_exact keccak src w it w' \<and> synced c w'"
proof -
  have cfg: "watcher_config w = c" and v: "0 < unat (confirmation_depth c)" "0 < unat (blocks_per_iteration c)"
    and wi: "window_inv (reorg_window w)"
    using s valid_config by (auto simp: synced_def)
  let ?d = "ucast (confirmation_depth c) :: u64" and ?bpi = "ucast (blocks_per_iteration c) :: u64"
  obtain head where head: "latest_block_number src = Inr head"
    using run by (cases "latest_block_number src") (auto simp: watcher_run_inner_def)
  let ?ch = "head - ?d"
  define start where "start = (case last_confirmed_block w of None \<Rightarrow> ?ch | Some l \<Rightarrow> wsat_add l 1)"
  show ?thesis
  proof (cases "head < ?d \<or> ?ch < start")
    case True
    then have "it = no_blocks" "w' = w"
      using run head cfg unfolding watcher_run_inner_def start_def by (auto simp: Let_def split: if_splits)
    then show ?thesis using s by (simp add: no_blocks_def iteration_exact_def)
  next
    case False
    define stop where "stop = min ?ch (wsat_add start (wsat_sub ?bpi 1))"
    let ?a = "unat start" and ?ns = "block_range start stop"
    note ab = iteration_range [OF v False [unfolded start_def], folded start_def stop_def]
    have run': "watcher_run_inner keccak src w =
        (case watch_blocks keccak src c (last_confirmed_block w) (reorg_window w) [] False (last_confirmed_block w) ?ns of
           (Inl e, win) \<Rightarrow> (Inl e, w\<lparr>reorg_window := win\<rparr>)
         | (Inr (evs, absorbed, last_processed), win) \<Rightarrow>
             (Inr \<lparr>watch_events = evs, new_last_confirmed = last_processed, reorg_absorbed = absorbed\<rparr>,
              w\<lparr>reorg_window := win, last_confirmed_block := last_processed\<rparr>))"
      using False unfolding watcher_run_inner_def head cfg sum.case Let_def start_def [symmetric] stop_def [symmetric] by simp
    obtain evs ab' lp win where wb: "watch_blocks keccak src c (last_confirmed_block w) (reorg_window w) [] False
        (last_confirmed_block w) ?ns = (Inr (evs, ab', lp), win)"
      and it: "it = \<lparr>watch_events = evs, new_last_confirmed = lp, reorg_absorbed = ab'\<rparr>"
      and w': "w' = w\<lparr>reorg_window := win, last_confirmed_block := lp\<rparr>"
      using run run' by (auto split: prod.splits sum.splits)
    have cur: "Suc (unat (number (last (buffer (reorg_window w))))) = ?a" if "buffer (reorg_window w) \<noteq> []"
      using that s ab by (auto simp: synced_def)
    obtain hs where loop: "delivered keccak src c ?ns hs evs" "\<not> ab'" "lp = (if ?ns = [] then last_confirmed_block w else Some (last ?ns))"
        "linked (buffer (reorg_window w) @ hs)" "window_inv win" "capacity win = capacity (reorg_window w)"
        "buffer win = drop (length (buffer (reorg_window w) @ hs) - capacity (reorg_window w)) (buffer (reorg_window w) @ hs)"
      using watch_blocks_exact [OF wb num wi block_range_def _ cur] ab unat_lt [of stop] by auto
    have ns: "?ns \<noteq> []" "last ?ns = stop" using ab by (auto simp: block_range_def)
    have hs: "hs \<noteq> []" "number (last hs) = stop"
      using delivered_last [OF loop(1) num ns(1)] ns(2) by simp_all
    let ?k = "length (buffer (reorg_window w) @ hs) - capacity (reorg_window w)"
    have "?k < length (buffer (reorg_window w) @ hs)" using wi hs(1) by (auto simp: window_inv_def)
    then have "last (buffer win) = last (buffer (reorg_window w) @ hs)" unfolding loop(7) by (rule last_drop)
    then have lst: "last (buffer win) = last hs" using hs(1) by simp
    have lp: "lp = Some stop" using loop(3) ns by simp
    have "synced c w'" using s loop(5,6) lp lst hs(2) by (simp add: synced_def w')
    moreover have "iteration_exact keccak src w it w'"
      unfolding iteration_exact_def it w' cfg lp WatcherIteration.simps option.case
    proof (intro exI [of _ head] exI [of _ "unat start"] exI [of _ hs] conjI)
      show "delivered keccak src c (map of_nat [unat start..<Suc (unat stop)]) hs evs"
        using loop(1) unfolding block_range_def .
    qed (use head loop(4,6,7) ab cfg in \<open>simp_all\<close>)
    ultimately show ?thesis using loop(2) by (simp add: it)
  qed
qed

lemma run_error:
  assumes "watcher_run_iteration keccak src w = (Inl e, w')"
  shows "w' = w"
proof -
  obtain w1 where "watcher_run_inner keccak src w = (Inl e, w1)" "w' = w1\<lparr>reorg_window := reorg_window w\<rparr>"
    using assms by (auto simp: watcher_run_iteration_def split: prod.splits sum.splits)
  then show ?thesis
    by (auto simp: watcher_run_inner_def Let_def split: sum.splits if_splits prod.splits)
qed

lemma run_ok:
  assumes "synced c w" "numbered src" "watcher_run_iteration keccak src w = (Inr it, w')"
  shows "\<not> reorg_absorbed it \<and> iteration_exact keccak src w it w' \<and> synced c w'"
  using run_inner_cases [OF assms(1,2)] assms(3)
  by (auto simp: watcher_run_iteration_def split: prod.splits sum.splits)

lemma watching_synced:
  assumes "watching keccak c w"
  shows "synced c w"
  using assms
proof (induction rule: watching.induct)
  case (started w cursor)
  then show ?case using watcher_new_Val [OF started]
    by (simp add: synced_def set_last_confirmed_def window_inv_def)
next
  case (iterated w src)
  show ?case
  proof (cases "watcher_run_iteration keccak src w")
    case (Pair r w')
    then show ?thesis using run_error [of keccak src w] run_ok [OF iterated.IH iterated.hyps(2)] iterated.IH
      by (cases r) auto
  qed
next
  case (restarted w w0)
  note w0 = watcher_new_Val [OF restarted.hyps(2)]
  have "length (buffer (reorg_window w)) \<le> reorg_window_capacity c" using restarted.IH by (simp add: synced_def window_inv_def)
  then have "seed_window (set_last_confirmed w0 (last_confirmed_block w)) (window_snapshot w) = w"
    using restarted.IH by (simp add: w0(2) seed_window_def set_last_confirmed_def window_snapshot_def seed_restores synced_def)
  then show ?case using restarted.IH by simp
next
  case (overridden w b)
  then show ?case
    by (simp add: synced_def set_start_block_def clear_reorg_window_def set_last_confirmed_def window_clear_def window_inv_def)
qed

text \<open>
  C36: An iteration of the watcher delivers exactly the next confirmed blocks.  Whatever the
  node answered before, over restarts and cursor overrides, an iteration either fails and leaves the
  cursor and the window as they were, or it has gone through the blocks right after the cursor,
  no further than the confirmation depth below the head and no more than the budget allows: the
  events returned are those of these blocks in order, each block's parent hash is the hash of
  the block before, across iterations too, and the new cursor and window are theirs.  It never reports a reorganisation
  as absorbed: a block that does not extend the previous one is an error, even one block deep.
\<close>

theorem watcher_delivers_exactly:
  assumes "watching keccak c w" "numbered src" "watcher_run_iteration keccak src w = (r, w')"
  shows "case r of Inl e \<Rightarrow> w' = w | Inr it \<Rightarrow> \<not> reorg_absorbed it \<and> iteration_exact keccak src w it w'"
  using run_error [of keccak src w] run_ok [OF watching_synced [OF assms(1)] assms(2)] assms(3)
  by (auto split: sum.splits)

definition sample_config :: WatcherConfig where
  "sample_config = \<lparr>game_contract = [], state_root_submission_contract = [], confirmation_depth = 2,
     reorg_window_capacity = 2, blocks_per_iteration = 2\<rparr>"

definition sample_source :: L1Source where
  "sample_source = \<lparr>latest_block_number = Inr 10,
     block_header_by_number = (\<lambda>n. Inr \<lparr>number = n, hash = [ucast n], parent_hash = [ucast (n - 1)]\<rparr>),
     logs_in_block_by_hash = (\<lambda>_ _. Inr [])\<rparr>"

definition sample_watcher :: Watcher where
  "sample_watcher = \<lparr>watcher_config = sample_config, reorg_window = \<lparr>capacity = 2, buffer = []\<rparr>, last_confirmed_block = Some 6\<rparr>"

theorem watcher_delivers_exactly_witness:
  "\<exists>it w'. watcher_run_iteration (\<lambda>_. []) sample_source sample_watcher = (Inr it, w') \<and> new_last_confirmed it = Some 8 \<and>
     \<not> reorg_absorbed it \<and> iteration_exact (\<lambda>_. []) sample_source sample_watcher it w'"
proof -
  let ?k = "\<lambda>_ :: bytes. [] :: bytes"
  have "watcher_new sample_config = Inr (Val (sample_watcher\<lparr>last_confirmed_block := None\<rparr>))"
    by (simp add: watcher_new_def watcher_validate_def sample_config_def sample_watcher_def window_new_def
      MAX_REORG_WINDOW_CAPACITY_def MAX_CONFIRMATION_DEPTH_def MAX_BLOCKS_PER_ITERATION_def Let_def)
  from started [OF this, of ?k "Some 6"] have w: "watching ?k sample_config sample_watcher"
    by (simp add: set_last_confirmed_def sample_watcher_def)
  have src: "numbered sample_source" by (simp add: numbered_def sample_source_def)
  have "block_range 7 8 = [7, 8]" by (simp add: block_range_def upt_rec)
  then have "\<exists>it w'. watcher_run_iteration ?k sample_source sample_watcher = (Inr it, w') \<and> new_last_confirmed it = Some 8"
    by (simp add: watcher_run_iteration_def watcher_run_inner_def sample_source_def sample_watcher_def sample_config_def
      wsat_add_def wsat_sub_def wchecked_add_def wchecked_sub_def observe_header_def advance_def window_head_def window_tail_def
      block_events_def push_bounded_def Let_def)
  then obtain it w' where r: "watcher_run_iteration ?k sample_source sample_watcher = (Inr it, w')" "new_last_confirmed it = Some 8"
    by blast
  show ?thesis using watcher_delivers_exactly [OF w src r(1)] r by (intro exI [of _ it] exI [of _ w']) simp
qed

end
