(* ===== verification/State_Reader.thy ===== *)
theory State_Reader
  imports Game
begin

text \<open>
  Reading a game from the contract (\<open>knomosis-faultproof-observer/src/state_reader.rs\<close>): the call
  data, the decoder of the 18 words the contract answers with, and the checks on the decoded state.
  The node's answer is an argument, and so are the external hexadecimal codec's \<open>encode\<close> and
  \<open>decode\<close>; a \<open>String\<close> here is its UTF-8 bytes.  The lemmas give what a validated state guarantees
  and that the decoder inverts the contract's layout.
\<close>

record ObservedGame =
  obs_state :: GameState
  obs_turn_deadline :: u64
  obs_disputed_log_index :: u64

datatype malformed_reason = NotAString | OddLength usize | BadHex bytes

datatype GameStateReadError =
    RpcTransport bytes
  | Malformed malformed_reason
  | WrongLength usize usize
  | InvalidTurn u8
  | InvalidStatus u8
  | InvalidBool u8
  | DepthOutOfRange u64
  | ZeroSequencer
  | ZeroChallenger
  | SequencerChallengerCollision u64
  | DeploymentIdMismatch bytes bytes
  | DegenerateRange u64 u64

definition GAMES_RESPONSE_SLOTS :: usize where "GAMES_RESPONSE_SLOTS = 18"
definition GAMES_RESPONSE_BYTES :: usize where "GAMES_RESPONSE_BYTES = GAMES_RESPONSE_SLOTS * 32"
definition GAMES_SELECTOR :: bytes where "GAMES_SELECTOR = [0x11, 0x7a, 0x5b, 0x90]"

definition encode_games_calldata :: "u128 \<Rightarrow> bytes" where
  "encode_games_calldata game_id = GAMES_SELECTOR @ replicate 16 0 @ to_be game_id"

definition strip_0x :: "bytes \<Rightarrow> bytes" where
  "strip_0x s = (if take 2 s = [0x30, 0x78] then drop 2 s else s)"

definition decode_hex_response :: "(bytes \<Rightarrow> bytes + bytes) \<Rightarrow> bytes \<Rightarrow> GameStateReadError + bytes" where
  "decode_hex_response hex_decode hex_str =
     (let trimmed = strip_0x hex_str in
      if GAMES_RESPONSE_BYTES * 2 < length trimmed then Inl (WrongLength GAMES_RESPONSE_BYTES (length trimmed div 2))
      else if length trimmed mod 2 \<noteq> 0 then Inl (Malformed (OddLength (length trimmed)))
      else map_err (\<lambda>e. Malformed (BadHex e)) (hex_decode trimmed))"

definition read_u64_from_slot :: "bytes \<Rightarrow> u64" where
  "read_u64_from_slot s = from_be (drop 24 s)"

definition read_u128_from_slot :: "bytes \<Rightarrow> u128" where
  "read_u128_from_slot s = from_be (drop 16 s)"

definition read_address_as_actor_id :: "bytes \<Rightarrow> u64" where
  "read_address_as_actor_id s = from_be (drop 24 s)"

definition read_full_address_from_slot :: "bytes \<Rightarrow> bytes" where
  "read_full_address_from_slot s = drop 12 s"

definition read_strict_bool_from_slot :: "bytes \<Rightarrow> u8 + bool" where
  "read_strict_bool_from_slot s =
     (if list_ex (\<lambda>b. b \<noteq> 0) (take 31 s) then Inl (s ! 31)
      else if s ! 31 = 0 then Inr False
      else if s ! 31 = 1 then Inr True
      else Inl (s ! 31))"

definition turn_of_slot :: "bytes \<Rightarrow> GameStateReadError + TurnSide" where
  "turn_of_slot s =
     (if list_ex (\<lambda>b. b \<noteq> 0) (take 31 s) then Inl (InvalidTurn (s ! 31))
      else if s ! 31 = 0 then Inr Sequencer
      else if s ! 31 = 1 then Inr Challenger
      else Inl (InvalidTurn (s ! 31)))"

definition status_of_slot :: "bytes \<Rightarrow> GameStateReadError + GameStatus" where
  "status_of_slot s =
     (let b = s ! 31 in
      if list_ex (\<lambda>b. b \<noteq> 0) (take 31 s) then Inl (InvalidStatus b)
      else if b = 0 then Inr InProgress else if b = 1 then Inr SequencerWon else if b = 2 then Inr ChallengerWon
      else if b = 3 then Inr TimedOutSequencer else if b = 4 then Inr TimedOutChallenger
      else Inl (InvalidStatus b))"

definition decode_game_state_with_addresses :: "bytes \<Rightarrow> GameStateReadError + ObservedGame \<times> bytes \<times> bytes" where
  "decode_game_state_with_addresses bs =
     (if length bs \<noteq> GAMES_RESPONSE_BYTES then Inl (WrongLength GAMES_RESPONSE_BYTES (length bs))
      else let slot = (\<lambda>i. take 32 (drop (i * 32) bs)) in
        res_bind (map_err InvalidBool (read_strict_bool_from_slot (slot 6))) (\<lambda>has_pending.
        let pending = (if has_pending then Some \<lparr>claim_idx = read_u64_from_slot (slot 7), claim_commit = slot 8\<rparr> else None);
            depth_u64 = read_u64_from_slot (slot 9)
        in if 2 ^ 32 \<le> unat depth_u64 then Inl (DepthOutOfRange depth_u64)
        else
          res_bind (turn_of_slot (slot 10)) (\<lambda>trn.
          res_bind (status_of_slot (slot 14)) (\<lambda>status.
          Inr (\<lparr>obs_state = \<lparr>
                  sequencer = read_address_as_actor_id (slot 0),
                  challenger = read_address_as_actor_id (slot 1),
                  disputed = \<lparr>low = \<lparr>claim_idx = read_u64_from_slot (slot 2), claim_commit = slot 3\<rparr>,
                              high = \<lparr>claim_idx = read_u64_from_slot (slot 4), claim_commit = slot 5\<rparr>\<rparr>,
                  pending_midpoint = pending,
                  game_depth = ucast depth_u64,
                  turn = trn,
                  sequencer_bond = read_u128_from_slot (slot 12),
                  challenger_bond = read_u128_from_slot (slot 13),
                  game_status = status,
                  game_deployment_id = slot 15,
                  actions_root = replicate 32 0\<rparr>,
                obs_turn_deadline = read_u64_from_slot (slot 11),
                obs_disputed_log_index = read_u64_from_slot (slot 17)\<rparr>,
               read_full_address_from_slot (slot 0), read_full_address_from_slot (slot 1))))))"

definition decode_game_state :: "bytes \<Rightarrow> GameStateReadError + GameState" where
  "decode_game_state bs = map_sum id (\<lambda>(g, _, _). obs_state g) (decode_game_state_with_addresses bs)"

text \<open>
  The node's answer to \<open>eth_call\<close>: a transport error, a JSON string or another JSON value.
\<close>

datatype rpc_value = RpcString bytes | RpcOther

definition contract_read_and_validate ::
    "(bytes \<Rightarrow> bytes) \<Rightarrow> (bytes \<Rightarrow> bytes + bytes) \<Rightarrow> (bytes \<Rightarrow> bytes + rpc_value) \<Rightarrow> u128 \<Rightarrow> bytes \<Rightarrow> GameStateReadError + ObservedGame" where
  "contract_read_and_validate hex_encode hex_decode eth_call game_id expected_deployment_id =
     res_bind (map_err RpcTransport (eth_call (encode_games_calldata game_id))) (\<lambda>response.
     res_bind (case response of RpcString s \<Rightarrow> Inr s | RpcOther \<Rightarrow> Inl (Malformed NotAString)) (\<lambda>hex_str.
     res_bind (decode_hex_response hex_decode hex_str) (\<lambda>bs.
     res_bind (decode_game_state_with_addresses bs) (\<lambda>(observed, sequencer_addr, challenger_addr).
     let gs = obs_state observed; l = claim_idx (low (disputed gs)); h = claim_idx (high (disputed gs)) in
     if game_deployment_id gs \<noteq> expected_deployment_id
     then Inl (DeploymentIdMismatch (hex_encode (game_deployment_id gs)) (hex_encode expected_deployment_id))
     else if h \<le> l then Inl (DegenerateRange l h)
     else if sequencer_addr = replicate 20 0 then Inl ZeroSequencer
     else if challenger_addr = replicate 20 0 then Inl ZeroChallenger
     else if sequencer_addr = challenger_addr then Inl (SequencerChallengerCollision (sequencer gs))
     else Inr observed))))"

section \<open>What the reader guarantees\<close>

text \<open>
  The contract of the \<open>GameStateReader\<close> trait: a state that is returned belongs to the expected
  deployment and has a non-empty range.
\<close>

definition observed_ok :: "bytes \<Rightarrow> ObservedGame \<Rightarrow> bool" where
  "observed_ok dep obs \<longleftrightarrow> game_deployment_id (obs_state obs) = dep \<and>
     claim_idx (low (disputed (obs_state obs))) < claim_idx (high (disputed (obs_state obs)))"

locale game_state_reader =
  fixes read_validated :: "'n \<Rightarrow> u128 \<Rightarrow> bytes \<Rightarrow> GameStateReadError + ObservedGame"
  assumes validated: "read_validated n game_id dep = Inr obs \<Longrightarrow> observed_ok dep obs"

begin

lemma validated_bisects:
  assumes "read_validated n game_id dep = Inr obs"
  shows "lo (disputed (obs_state obs)) < hi (disputed (obs_state obs))"
  using validated [OF assms] by (simp add: observed_ok_def word_less_nat_alt)

end

interpretation contract: game_state_reader "\<lambda>eth_call. contract_read_and_validate hex_encode hex_decode eth_call"
  by unfold_locales
    (auto simp: contract_read_and_validate_def observed_ok_def res_bind_Inr_iff Let_def not_le split: if_splits prod.splits)

text \<open>The layout of the contract's answer, word by word.\<close>

definition word_u64 :: "u64 \<Rightarrow> bytes" where "word_u64 v = replicate 24 0 @ to_be v"
definition word_u128 :: "u128 \<Rightarrow> bytes" where "word_u128 v = replicate 16 0 @ to_be v"
definition word_u8 :: "u8 \<Rightarrow> bytes" where "word_u8 v = replicate 31 0 @ [v]"
definition word_address :: "bytes \<Rightarrow> bytes" where "word_address a = replicate 12 0 @ a"

definition status_code :: "GameStatus \<Rightarrow> u8" where
  "status_code s = (case s of InProgress \<Rightarrow> 0 | SequencerWon \<Rightarrow> 1 | ChallengerWon \<Rightarrow> 2 | TimedOutSequencer \<Rightarrow> 3
     | TimedOutChallenger \<Rightarrow> 4)"

definition game_words :: "ObservedGame \<Rightarrow> Claim \<Rightarrow> bytes \<Rightarrow> bytes \<Rightarrow> u64 \<Rightarrow> bytes list" where
  "game_words obs stale seq_addr chal_addr last_step =
     (let gs = obs_state obs;
          mp = (case pending_midpoint gs of None \<Rightarrow> stale | Some m \<Rightarrow> m)
      in [word_address seq_addr, word_address chal_addr,
          word_u64 (claim_idx (low (disputed gs))), claim_commit (low (disputed gs)),
          word_u64 (claim_idx (high (disputed gs))), claim_commit (high (disputed gs)),
          word_u8 (if pending_midpoint gs = None then 0 else 1), word_u64 (claim_idx mp), claim_commit mp,
          word_u64 (ucast (game_depth gs)), word_u8 (if turn gs = Sequencer then 0 else 1), word_u64 (obs_turn_deadline obs),
          word_u128 (sequencer_bond gs), word_u128 (challenger_bond gs), word_u8 (status_code (game_status gs)),
          game_deployment_id gs, word_u64 last_step, word_u64 (obs_disputed_log_index obs)])"

lemma word_lengths [simp]:
  "length (word_u64 v) = 32" "length (word_u128 x) = 32" "length (word_u8 b) = 32" "length (word_address a) = 12 + length a"
  by (simp_all add: word_u64_def word_u128_def word_u8_def word_address_def)

lemma slot_at:
  assumes "\<forall>w \<in> set ws. length w = 32" "i < length ws"
  shows "take 32 (drop (i * 32) (concat ws)) = ws ! i"
  using assms
proof (induction ws arbitrary: i)
  case (Cons w ws)
  then show ?case by (cases i) simp_all
qed simp

lemma word_reads:
  "read_u64_from_slot (word_u64 v) = v" "read_u128_from_slot (word_u128 x) = x"
  "read_full_address_from_slot (word_address a) = a" "read_strict_bool_from_slot (word_u8 (if p then 0 else 1)) = Inr (\<not> p)"
  "turn_of_slot (word_u8 (if side = Sequencer then 0 else 1)) = Inr side" "status_of_slot (word_u8 (status_code s)) = Inr s"
  by (cases side; cases s; simp add: read_u64_from_slot_def read_u128_from_slot_def read_full_address_from_slot_def
    read_strict_bool_from_slot_def turn_of_slot_def status_of_slot_def word_u64_def word_u128_def word_u8_def word_address_def
    status_code_def be64.dec_enc be128.dec_enc nth_append list_ex_iff in_set_replicate)+

text \<open>
  The decoder inverts the layout: every game the contract can hold, with whatever it left in the
  unused midpoint words, comes back as it is.
\<close>

lemma decode_game_roundtrip:
  assumes l: "\<forall>w \<in> set (game_words obs stale seq_addr chal_addr last_step). length w = 32"
    and a: "sequencer (obs_state obs) = from_be (drop 12 seq_addr)" "challenger (obs_state obs) = from_be (drop 12 chal_addr)"
    and r: "actions_root (obs_state obs) = replicate 32 0"
  shows "decode_game_state_with_addresses (concat (game_words obs stale seq_addr chal_addr last_step)) =
    Inr (obs, seq_addr, chal_addr)"
proof -
  define ws where "ws = game_words obs stale seq_addr chal_addr last_step"
  define gs where "gs = obs_state obs"
  have n: "length ws = 18" by (simp add: ws_def game_words_def Let_def)
  have l: "\<forall>w \<in> set ws. length w = 32" using l by (simp add: ws_def)
  then have "map length ws = replicate 18 32" using n by (metis map_replicate_const map_cong)
  then have len: "length (concat ws) = GAMES_RESPONSE_BYTES"
    by (simp add: length_concat GAMES_RESPONSE_BYTES_def GAMES_RESPONSE_SLOTS_def sum_list_replicate)
  have s: "take 32 (drop k (concat ws)) = ws ! (k div 32)" if "k mod 32 = 0" "k < 576" for k
    using slot_at [OF l, of "k div 32"] that n by (auto simp: dvd_div_mult_self mod_eq_0_iff_dvd)
  have s0: "take 32 (concat ws) = ws ! 0" using s [of 0] by simp
  have d: "unat (ucast (game_depth gs) :: u64) < 2 ^ 32"
    using unat_lt [of "game_depth gs"] by (simp add: unat_ucast_up)
  have addr: "read_address_as_actor_id (word_address x) = from_be (drop 12 x)" for x
    by (simp add: read_address_as_actor_id_def word_address_def)
  have w: "ws ! 0 = word_address seq_addr" "ws ! 1 = word_address chal_addr"
    "ws ! 2 = word_u64 (claim_idx (low (disputed gs)))" "ws ! 3 = claim_commit (low (disputed gs))"
    "ws ! 4 = word_u64 (claim_idx (high (disputed gs)))" "ws ! 5 = claim_commit (high (disputed gs))"
    "ws ! 6 = word_u8 (if pending_midpoint gs = None then 0 else 1)"
    "ws ! 7 = word_u64 (claim_idx (case pending_midpoint gs of None \<Rightarrow> stale | Some m \<Rightarrow> m))"
    "ws ! 8 = claim_commit (case pending_midpoint gs of None \<Rightarrow> stale | Some m \<Rightarrow> m)" "ws ! 9 = word_u64 (ucast (game_depth gs))"
    "ws ! 10 = word_u8 (if turn gs = Sequencer then 0 else 1)" "ws ! 11 = word_u64 (obs_turn_deadline obs)"
    "ws ! 12 = word_u128 (sequencer_bond gs)" "ws ! 13 = word_u128 (challenger_bond gs)"
    "ws ! 14 = word_u8 (status_code (game_status gs))" "ws ! 15 = game_deployment_id gs"
    "ws ! 17 = word_u64 (obs_disputed_log_index obs)"
    by (simp_all add: ws_def gs_def game_words_def Let_def)
  have c: "ucast (ucast (game_depth gs) :: u64) = game_depth gs" by (simp add: word_unat_eq_iff unsigned_ucast_eq take_bit_word_eq_self)
  have "decode_game_state_with_addresses (concat ws) = Inr (obs\<lparr>obs_state := gs\<rparr>, seq_addr, chal_addr)"
    unfolding decode_game_state_with_addresses_def Let_def using len a r d c
    by (cases "pending_midpoint gs")
      (auto simp: s s0 w w(2) [simplified] word_reads word_reads(4) [of True, simplified] word_reads(4) [of False, simplified]
        addr gs_def [symmetric] intro!: ObservedGame.equality GameState.equality DisputedRange.equality Claim.equality)
  then show ?thesis by (simp add: ws_def gs_def)
qed

end
