(* ===== verification/Observer_Store.thy ===== *)
theory Observer_Store
  imports Watcher State_Reader BTree_Map
begin

text \<open>
  What the fault-proof observer keeps on disk (\<open>knomosis-faultproof-observer/src/persistence.rs\<close>): the
  records of games, batches and responses, the cursor with its reorg window, and the atomic batch.
  The SQLite file and the JSON of the records are below this model: a prefix of the key space is a
  table by key, and a key is the typed value it encodes.  Every call on the store may fail; whether the \<open>i\<close>-th
  call of a process succeeds is \<open>disk i\<close>, with the number of calls made so far in \<open>ops\<close>.
\<close>

section \<open>Records\<close>

record BatchRecord =
  end_index :: u64
  prev_end_index :: u64
  batch_actions_root :: bytes
  batch_state_commit :: bytes
  batch_block_number :: u64

record GameRecord =
  rec_game_id :: u128
  rec_state :: GameState
  rec_me :: TurnSide
  last_updated_block :: u64
  state_known :: bool
  turn_deadline :: "u64 option"
  disputed_log_index :: "u64 option"

datatype MoveKind = Unknown | Submit | Respond | Terminate | Timeout

datatype ResponseStatus = Intent | Pending | Confirmed | Dropped | Failed

type_synonym pivot = "u128 \<times> MoveKind \<times> u64 option"

record ResponseRecord =
  tx_hash_hex :: bytes
  raw_tx_hex :: "bytes option"
  resp_game_id :: u128
  resp_status :: ResponseStatus
  submitted_at_block :: u64
  resp_depth :: u32
  resp_pivot_idx :: "u64 option"
  resp_move_kind :: MoveKind

definition resp_key :: "ResponseRecord \<Rightarrow> pivot" where
  "resp_key r = (resp_game_id r, resp_move_kind r, resp_pivot_idx r)"

datatype PersistenceError = StorageFailed | TxHashNotHex bytes | TxHashLength usize

section \<open>The store\<close>

record Persistence =
  st_games :: "(u128, GameRecord) btree"
  st_responses :: "(bytes, ResponseRecord) btree"
  st_batches :: "(u64, BatchRecord) btree"
  st_cursor :: "u64 option"
  st_reorg_window :: "BlockHeader list"
  disk :: "nat \<Rightarrow> bool"
  ops :: nat

definition disk_read :: "Persistence \<Rightarrow> (Persistence \<Rightarrow> 'a) \<Rightarrow> (PersistenceError + 'a) \<times> Persistence" where
  "disk_read p f = (if disk p (ops p) then Inr (f p) else Inl StorageFailed, p\<lparr>ops := Suc (ops p)\<rparr>)"

definition disk_write :: "Persistence \<Rightarrow> (Persistence \<Rightarrow> Persistence) \<Rightarrow> (PersistenceError + unit) \<times> Persistence" where
  "disk_write p f =
     (let p' = p\<lparr>ops := Suc (ops p)\<rparr> in if disk p (ops p) then (Inr (), f p') else (Inl StorageFailed, p'))"

definition read_cursor :: "Persistence \<Rightarrow> (PersistenceError + u64 option) \<times> Persistence" where
  "read_cursor p = disk_read p st_cursor"

definition read_reorg_window :: "Persistence \<Rightarrow> (PersistenceError + BlockHeader list) \<times> Persistence" where
  "read_reorg_window p = disk_read p st_reorg_window"

definition list_games :: "Persistence \<Rightarrow> (PersistenceError + GameRecord list) \<times> Persistence" where
  "list_games p = disk_read p (\<lambda>p. map snd (st_games p))"

definition list_batches :: "Persistence \<Rightarrow> (PersistenceError + BatchRecord list) \<times> Persistence" where
  "list_batches p = disk_read p (\<lambda>p. map snd (st_batches p))"

definition list_responses :: "Persistence \<Rightarrow> (PersistenceError + ResponseRecord list) \<times> Persistence" where
  "list_responses p = disk_read p (\<lambda>p. map snd (st_responses p))"

definition load_response :: "Persistence \<Rightarrow> bytes \<Rightarrow> (PersistenceError + ResponseRecord option) \<times> Persistence" where
  "load_response p h = disk_read p (\<lambda>p. bt_get (st_responses p) h)"

definition parse_hex_tx_hash :: "(bytes \<Rightarrow> bytes + bytes) \<Rightarrow> bytes \<Rightarrow> PersistenceError + bytes" where
  "parse_hex_tx_hash hex_decode s =
     res_bind (map_err TxHashNotHex (hex_decode (strip_0x s))) (\<lambda>b.
     if length b \<noteq> 32 then Inl (TxHashLength (length b)) else Inr b)"

definition store_response ::
    "(bytes \<Rightarrow> bytes) \<Rightarrow> (bytes \<Rightarrow> bytes + bytes) \<Rightarrow> Persistence \<Rightarrow> ResponseRecord \<Rightarrow> (PersistenceError + unit) \<times> Persistence" where
  "store_response hex_encode hex_decode p r =
     (case parse_hex_tx_hash hex_decode (tx_hash_hex r) of
        Inl e \<Rightarrow> (Inl e, p)
      | Inr h \<Rightarrow> disk_write p (\<lambda>p. p\<lparr>st_responses := bt_insert h (r\<lparr>tx_hash_hex := hex_encode h\<rparr>) (st_responses p)\<rparr>))"

section \<open>The atomic batch\<close>

record PersistBatch =
  pb_games :: "GameRecord list"
  pb_responses :: "ResponseRecord list"
  pb_batches :: "BatchRecord list"
  pb_cursor :: "u64 option"
  pb_reorg_window :: "BlockHeader list option"

definition batch_new :: PersistBatch where
  "batch_new = \<lparr>pb_games = [], pb_responses = [], pb_batches = [], pb_cursor = None, pb_reorg_window = None\<rparr>"

definition upsert_game :: "PersistBatch \<Rightarrow> GameRecord \<Rightarrow> PersistBatch" where
  "upsert_game b r = b\<lparr>pb_games := pb_games b @ [r]\<rparr>"

definition upsert_response :: "PersistBatch \<Rightarrow> ResponseRecord \<Rightarrow> PersistBatch" where
  "upsert_response b r = b\<lparr>pb_responses := pb_responses b @ [r]\<rparr>"

definition upsert_batch :: "PersistBatch \<Rightarrow> BatchRecord \<Rightarrow> PersistBatch" where
  "upsert_batch b r = b\<lparr>pb_batches := pb_batches b @ [r]\<rparr>"

definition set_cursor :: "PersistBatch \<Rightarrow> u64 \<Rightarrow> PersistBatch" where
  "set_cursor b c = b\<lparr>pb_cursor := Some c\<rparr>"

definition set_reorg_window :: "PersistBatch \<Rightarrow> BlockHeader list \<Rightarrow> PersistBatch" where
  "set_reorg_window b hs = b\<lparr>pb_reorg_window := Some hs\<rparr>"

definition batch_is_empty :: "PersistBatch \<Rightarrow> bool" where
  "batch_is_empty b \<longleftrightarrow> pb_games b = [] \<and> pb_responses b = [] \<and> pb_batches b = [] \<and> pb_cursor b = None \<and> pb_reorg_window b = None"

text \<open>The responses of a batch by their parsed hashes; a malformed hash fails the whole batch.\<close>

fun put_responses ::
    "(bytes \<Rightarrow> bytes) \<Rightarrow> (bytes \<Rightarrow> bytes + bytes) \<Rightarrow> ResponseRecord list \<Rightarrow> (bytes, ResponseRecord) btree \<Rightarrow>
     PersistenceError + (bytes, ResponseRecord) btree" where
  "put_responses hex_encode hex_decode [] t = Inr t"
| "put_responses hex_encode hex_decode (r # rs) t =
     res_bind (parse_hex_tx_hash hex_decode (tx_hash_hex r)) (\<lambda>h.
     put_responses hex_encode hex_decode rs (bt_insert h (r\<lparr>tx_hash_hex := hex_encode h\<rparr>) t))"

definition commit_batch ::
    "(bytes \<Rightarrow> bytes) \<Rightarrow> (bytes \<Rightarrow> bytes + bytes) \<Rightarrow> Persistence \<Rightarrow> PersistBatch \<Rightarrow> (PersistenceError + unit) \<times> Persistence" where
  "commit_batch hex_encode hex_decode p b =
     (case put_responses hex_encode hex_decode (pb_responses b) (st_responses p) of
        Inl e \<Rightarrow> (Inl e, p\<lparr>ops := Suc (ops p)\<rparr>)
      | Inr responses \<Rightarrow> disk_write p (\<lambda>p. p\<lparr>
          st_games := fold (\<lambda>r. bt_insert (rec_game_id r) r) (pb_games b) (st_games p),
          st_responses := responses,
          st_batches := fold (\<lambda>r. bt_insert (end_index r) r) (pb_batches b) (st_batches p),
          st_cursor := (case pb_cursor b of None \<Rightarrow> st_cursor p | Some c \<Rightarrow> Some c),
          st_reorg_window := (case pb_reorg_window b of None \<Rightarrow> st_reorg_window p | Some w \<Rightarrow> w)\<rparr>))"

end
