(* ===== verification/Observer.thy ===== *)
theory Observer
  imports Observer_Store
begin

text \<open>
  The orchestrator of the fault-proof observer (\<open>knomosis-faultproof-observer/src/observer.rs\<close>): start-up
  from the store, the handlers of the contract events, the sweeps for owed moves and lapsed deadlines,
  the queue of signed transactions, their broadcast and recovery, and the iteration that ties them
  together.  What lies outside the process is a value \<open>world\<close> and the functions of an \<open>Env\<close> on it: the transaction
  submitter, the truth oracle and the terminate-bundle oracle, the contract reader, the order in which
  a hash map is iterated, and the external hash and hexadecimal codec.  Log lines are not modelled, and
  handlers whose Rust result type has an error they never return have none here.
\<close>

section \<open>State\<close>

record PreparedTx =
  ptx_hash :: bytes
  ptx_raw :: bytes

datatype TerminateBundleError = Missed LogIndex | BundleMalformed LogIndex ustr | Oversize LogIndex usize usize

record 'n Env =
  keccak :: "bytes \<Rightarrow> bytes"
  hex_encode :: "bytes \<Rightarrow> bytes"
  hex_decode :: "bytes \<Rightarrow> bytes + bytes"
  build_and_sign :: "'n \<Rightarrow> bytes \<Rightarrow> (SubmitError + PreparedTx) \<times> 'n"
  broadcast :: "'n \<Rightarrow> PreparedTx \<Rightarrow> (SubmitError + unit) \<times> 'n"
  invalidate_nonce_cache :: "'n \<Rightarrow> 'n"
  commit_at :: "'n \<Rightarrow> LogIndex \<Rightarrow> StateCommit option"
  terminate_bundle_at :: "'n \<Rightarrow> LogIndex \<Rightarrow> (u64 \<times> u64) option \<Rightarrow> TerminateBundleError + TerminateBundle"
  read_and_validate :: "'n \<Rightarrow> u128 \<Rightarrow> bytes \<Rightarrow> (GameStateReadError + ObservedGame) \<times> 'n"
  iter_order :: "'n \<Rightarrow> u128 list \<Rightarrow> u128 list"

record ObserverConfig =
  oc_watcher :: WatcherConfig
  play_as :: TurnSide
  oc_deployment_id :: bytes
  max_broadcast_attempts :: u32

record PendingBroadcast =
  prepared :: PreparedTx
  pb_game_id :: u128
  pb_pivot_idx :: "u64 option"
  pb_move_kind :: MoveKind

definition pending_key :: "PendingBroadcast \<Rightarrow> pivot" where
  "pending_key p = (pb_game_id p, pb_move_kind p, pb_pivot_idx p)"

record QueuedCall =
  qc_game_id :: u128
  qc_depth :: u32
  qc_calldata :: bytes
  qc_move_kind :: MoveKind
  qc_pivot_idx :: "u64 option"

record 'n Observer =
  ob_config :: ObserverConfig
  ob_watcher :: Watcher
  persistence :: Persistence
  has_bundle_oracle :: bool
  has_state_reader :: bool
  games :: "(u128, GameRecord) btree"
  batches :: "(u64, BatchRecord) btree"
  submitted_pivots :: "pivot set"
  iteration_pivot_inserts :: "pivot list"
  broadcast_failures :: "pivot \<rightharpoonup> u32"
  pending_broadcasts :: "PendingBroadcast list"
  world :: 'n

datatype invariant_problem = CrossDeployment u128 | SettledOverwrite u128 | DegenerateGame u128

datatype ObserverError = OSource SourceError | OReorg ReorgError | OEventDecode EventDecodeError | OGame GameError
  | OStrategy HonestMoveError | OStorage PersistenceError | OSubmitter ustr | OCrypto ustr | OConfig WatcherError
  | OInvariant invariant_problem

datatype OperatorExitCode = ExitTransient | ExitOperatorAction | ExitUnavailable

fun exit_code :: "ObserverError \<Rightarrow> OperatorExitCode" where
  "exit_code (OSource (SourceError.Transport _)) = ExitTransient"
| "exit_code (OSource (BlockNotFound _)) = ExitTransient"
| "exit_code (OReorg (NonMonotone _ _)) = ExitTransient"
| "exit_code (OReorg (DeepReorg _ _)) = ExitOperatorAction"
| "exit_code (OReorg (OrphanedParent _)) = ExitOperatorAction"
| "exit_code (OConfig _) = ExitOperatorAction"
| "exit_code (OCrypto _) = ExitOperatorAction"
| "exit_code (OInvariant _) = ExitOperatorAction"
| "exit_code (OSource (SourceError.Malformed _)) = ExitUnavailable"
| "exit_code (OEventDecode _) = ExitUnavailable"
| "exit_code (OGame _) = ExitOperatorAction"
| "exit_code (OStrategy _) = ExitOperatorAction"
| "exit_code (OStorage _) = ExitOperatorAction"
| "exit_code (OSubmitter _) = ExitOperatorAction"

datatype EventHandling = Recorded | Submitted | Skipped

record IterationOutcome =
  event_count :: usize
  submitted_moves :: u32
  out_reorg_absorbed :: bool
  new_cursor :: "u64 option"

section \<open>Start-up\<close>

fun count_responses :: "ResponseRecord list \<Rightarrow> (pivot \<rightharpoonup> u32) \<times> pivot set \<Rightarrow> (pivot \<rightharpoonup> u32) \<times> pivot set" where
  "count_responses [] acc = acc"
| "count_responses (r # rs) (fails, subm) = count_responses rs
     (case resp_status r of
        Failed \<Rightarrow> (fails(resp_key r \<mapsto> (case fails (resp_key r) of None \<Rightarrow> 0 | Some n \<Rightarrow> n) + 1), subm)
      | Dropped \<Rightarrow> (fails(resp_key r \<mapsto> (case fails (resp_key r) of None \<Rightarrow> 0 | Some n \<Rightarrow> n) + 1), subm)
      | _ \<Rightarrow> (fails, insert (resp_key r) subm))"

text \<open>
  \<open>Observer::new\<close> with the two optional parts attached afterwards by the builder methods.  The process
  starts on the store with the calls of its own schedule.
\<close>

definition observer_new ::
    "ObserverConfig \<Rightarrow> bool \<Rightarrow> bool \<Rightarrow> 'n \<Rightarrow> Persistence \<Rightarrow> (ObserverError + 'n Observer rust) \<times> Persistence" where
  "observer_new c bundle_oracle reader n p =
     (case watcher_new (oc_watcher c) of
        Inl e \<Rightarrow> (Inl (OConfig e), p)
      | Inr Panic \<Rightarrow> (Inr Panic, p)
      | Inr (Val w) \<Rightarrow>
     (case read_cursor p of (Inl e, p) \<Rightarrow> (Inl (OStorage e), p) | (Inr cursor, p) \<Rightarrow>
     (case read_reorg_window p of (Inl e, p) \<Rightarrow> (Inl (OStorage e), p) | (Inr headers, p) \<Rightarrow>
     (case list_games p of (Inl e, p) \<Rightarrow> (Inl (OStorage e), p) | (Inr game_records, p) \<Rightarrow>
     (case list_batches p of (Inl e, p) \<Rightarrow> (Inl (OStorage e), p) | (Inr batch_records, p) \<Rightarrow>
     (case list_responses p of (Inl e, p) \<Rightarrow> (Inl (OStorage e), p) | (Inr response_records, p) \<Rightarrow>
        let w = set_last_confirmed w cursor;
            w = (if headers = [] then w else seed_window w headers);
            (fails, subm) = count_responses response_records (Map.empty, {})
        in (Inr (Val \<lparr>ob_config = c, ob_watcher = w, persistence = p,
              has_bundle_oracle = bundle_oracle, has_state_reader = reader,
              games = fold (\<lambda>r. bt_insert (rec_game_id r) r) game_records [],
              batches = fold (\<lambda>r. bt_insert (end_index r) r) batch_records [],
              submitted_pivots = subm, iteration_pivot_inserts = [],
              broadcast_failures = (\<lambda>k. if k \<in> subm then None else fails k),
              pending_broadcasts = [], world = n\<rparr>), p)))))))"

section \<open>Moves and the queue\<close>

fun move_kind_of :: "HonestMove \<Rightarrow> MoveKind" where
  "move_kind_of HonestMove.NoMove = Unknown"
| "move_kind_of (HonestMove.Submit _) = MoveKind.Submit"
| "move_kind_of HonestMove.RespondAgree = Respond"
| "move_kind_of HonestMove.RespondDisagree = Respond"
| "move_kind_of (HonestMove.TerminateOnSingleStep _) = Terminate"

fun pivot_for_move :: "GameState \<Rightarrow> HonestMove \<Rightarrow> u64 option" where
  "pivot_for_move gs HonestMove.NoMove = None"
| "pivot_for_move gs (HonestMove.Submit c) = Some (claim_idx c)"
| "pivot_for_move gs HonestMove.RespondAgree = map_option claim_idx (pending_midpoint gs)"
| "pivot_for_move gs HonestMove.RespondDisagree = map_option claim_idx (pending_midpoint gs)"
| "pivot_for_move gs (HonestMove.TerminateOnSingleStep _) = Some (claim_idx (high (disputed gs)))"

definition has_submitted_for_pivot :: "'n Observer \<Rightarrow> u128 \<Rightarrow> MoveKind \<Rightarrow> u64 option \<Rightarrow> bool" where
  "has_submitted_for_pivot ob g k i \<longleftrightarrow> (g, k, i) \<in> submitted_pivots ob"

definition build_terminate_calldata :: "'n Env \<Rightarrow> 'n Observer \<Rightarrow> GameRecord \<Rightarrow> HonestMove \<Rightarrow> bytes option" where
  "build_terminate_calldata E ob r mv =
     (if \<not> has_bundle_oracle ob then None
      else let pivot = claim_idx (low (disputed (rec_state r))) in
      case disputed_log_index r of
        None \<Rightarrow> None
      | Some disputed_end \<Rightarrow>
     (case bt_get (batches ob) disputed_end of
        None \<Rightarrow> None
      | Some batch_rec \<Rightarrow>
          if pivot < prev_end_index batch_rec \<or> end_index batch_rec \<le> pivot then None
          else (case terminate_bundle_at E (world ob) pivot (Some (prev_end_index batch_rec, end_index batch_rec)) of
            Inl _ \<Rightarrow> None
          | Inr bundle \<Rightarrow>
              (case encode_calldata_with_bundle (keccak E) (rec_game_id r) mv (Some bundle) of
                 Inl _ \<Rightarrow> None
               | Inr c \<Rightarrow> Some c))))"

definition build_calldata_for_move :: "'n Env \<Rightarrow> 'n Observer \<Rightarrow> GameRecord \<Rightarrow> HonestMove \<Rightarrow> bytes option" where
  "build_calldata_for_move E ob r mv =
     (case mv of
        HonestMove.TerminateOnSingleStep _ \<Rightarrow> build_terminate_calldata E ob r mv
      | _ \<Rightarrow> (case encode_calldata (keccak E) (rec_game_id r) mv of Inl _ \<Rightarrow> None | Inr c \<Rightarrow> Some c))"

definition queue_l1_call ::
    "'n Env \<Rightarrow> 'n Observer \<Rightarrow> QueuedCall \<Rightarrow> u64 \<Rightarrow> PersistBatch \<Rightarrow> bool \<times> 'n Observer \<times> PersistBatch" where
  "queue_l1_call E ob call block batch =
     (case build_and_sign E (world ob) (qc_calldata call) of
        (Inl _, n) \<Rightarrow> (False, ob\<lparr>world := n\<rparr>, batch)
      | (Inr tx, n) \<Rightarrow>
          let batch = upsert_response batch \<lparr>tx_hash_hex = hex_encode E (ptx_hash tx),
                raw_tx_hex = Some (hex_encode E (ptx_raw tx)), resp_game_id = qc_game_id call, resp_status = Intent,
                submitted_at_block = block, resp_depth = qc_depth call, resp_pivot_idx = qc_pivot_idx call,
                resp_move_kind = qc_move_kind call\<rparr>;
              pivot_key = (qc_game_id call, qc_move_kind call, qc_pivot_idx call);
              inserts = (if pivot_key \<in> submitted_pivots ob then iteration_pivot_inserts ob
                         else iteration_pivot_inserts ob @ [pivot_key])
          in (True, ob\<lparr>world := n, submitted_pivots := insert pivot_key (submitted_pivots ob),
                iteration_pivot_inserts := inserts,
                pending_broadcasts := pending_broadcasts ob @ [\<lparr>prepared = tx, pb_game_id = qc_game_id call,
                  pb_pivot_idx = qc_pivot_idx call, pb_move_kind = qc_move_kind call\<rparr>]\<rparr>, batch))"

definition maybe_play_move ::
    "'n Env \<Rightarrow> 'n Observer \<Rightarrow> GameRecord \<Rightarrow> u64 \<Rightarrow> PersistBatch \<Rightarrow> bool option \<times> 'n Observer \<times> PersistBatch" where
  "maybe_play_move E ob r block batch =
     (if \<not> is_in_progress (game_status (rec_state r)) then (None, ob, batch)
      else if turn (rec_state r) \<noteq> rec_me r then (None, ob, batch)
      else if \<not> state_known r then (Some False, ob, batch)
      else case compute_next_move (commit_at E (world ob)) (rec_state r) (rec_me r) of
        Inl (TruthOracleMissed _) \<Rightarrow> (Some False, ob, batch)
      | Inr mv \<Rightarrow>
          if mv = HonestMove.NoMove then (Some False, ob, batch)
          else (case build_calldata_for_move E ob r mv of
            None \<Rightarrow> (Some False, ob, batch)
          | Some calldata \<Rightarrow>
              let pivot_idx = pivot_for_move (rec_state r) mv; move_kind = move_kind_of mv in
              if has_submitted_for_pivot ob (rec_game_id r) move_kind pivot_idx then (Some False, ob, batch)
              else
                let (queued, ob, batch) = queue_l1_call E ob \<lparr>qc_game_id = rec_game_id r,
                      qc_depth = game_depth (rec_state r), qc_calldata = calldata, qc_move_kind = move_kind,
                      qc_pivot_idx = pivot_idx\<rparr> block batch
                in (Some queued, ob, batch)))"

section \<open>Event handlers\<close>

definition put_game :: "'n Observer \<Rightarrow> PersistBatch \<Rightarrow> u128 \<Rightarrow> GameRecord \<Rightarrow> 'n Observer \<times> PersistBatch" where
  "put_game ob batch g r = (ob\<lparr>games := bt_insert g r (games ob)\<rparr>, upsert_game batch r)"

text \<open>The record of a game just opened: placeholders until its state is read from the contract.\<close>

definition adopted_record :: "ObserverConfig \<Rightarrow> u128 \<Rightarrow> StateCommit \<Rightarrow> u64 \<Rightarrow> GameRecord" where
  "adopted_record c g disputed_state_root block =
     \<lparr>rec_game_id = g,
      rec_state = \<lparr>sequencer = 0, challenger = 0,
        disputed = \<lparr>low = \<lparr>claim_idx = 0, claim_commit = replicate 32 0\<rparr>,
                    high = \<lparr>claim_idx = 0, claim_commit = disputed_state_root\<rparr>\<rparr>,
        pending_midpoint = None, game_depth = 0, turn = Sequencer, sequencer_bond = 0, challenger_bond = 0,
        game_status = InProgress, game_deployment_id = oc_deployment_id c, actions_root = replicate 32 0\<rparr>,
      rec_me = play_as c, last_updated_block = block, state_known = False, turn_deadline = None, disputed_log_index = None\<rparr>"

definition handle_game_opened ::
    "'n Observer \<Rightarrow> u128 \<Rightarrow> StateCommit \<Rightarrow> u64 \<Rightarrow> PersistBatch \<Rightarrow> EventHandling \<times> 'n Observer \<times> PersistBatch" where
  "handle_game_opened ob g disputed_state_root block batch =
     (if bt_get (games ob) g \<noteq> None then (Skipped, ob, batch)
      else (Recorded, put_game ob batch g (adopted_record (ob_config ob) g disputed_state_root block)))"

text \<open>The move after a transition was applied, as both bisection handlers make it.\<close>

definition play_after ::
    "'n Env \<Rightarrow> 'n Observer \<Rightarrow> u128 \<Rightarrow> GameRecord \<Rightarrow> GameState \<Rightarrow> u64 \<Rightarrow> PersistBatch \<Rightarrow> EventHandling \<times> 'n Observer \<times> PersistBatch" where
  "play_after E ob g r new_state block batch =
     (let new_rec = r\<lparr>rec_state := new_state, last_updated_block := block, turn_deadline := None\<rparr>;
          (ob, batch) = put_game ob batch g new_rec;
          (played, ob, batch) = maybe_play_move E ob new_rec block batch
      in (if played = Some True then Submitted else Recorded, ob, batch))"

definition handle_midpoint_submitted ::
    "'n Env \<Rightarrow> 'n Observer \<Rightarrow> u128 \<Rightarrow> LogIndex \<Rightarrow> StateCommit \<Rightarrow> u64 \<Rightarrow> PersistBatch \<Rightarrow> EventHandling \<times> 'n Observer \<times> PersistBatch" where
  "handle_midpoint_submitted E ob g idx c block batch =
     (case bt_get (games ob) g of
        None \<Rightarrow> (Skipped, ob, batch)
      | Some r \<Rightarrow>
          if \<not> state_known r then
            if \<not> is_in_progress (game_status (rec_state r)) then (Skipped, ob, batch)
            else
              let gs = rec_state r;
                  new_rec = r\<lparr>rec_state := gs\<lparr>pending_midpoint := Some \<lparr>claim_idx = idx, claim_commit = c\<rparr>, turn := flip (turn gs)\<rparr>,
                    last_updated_block := block\<rparr>
              in (Recorded, put_game ob batch g new_rec)
          else if idx \<noteq> midpoint_idx (disputed (rec_state r)) then (Recorded, ob, batch)
          else (case apply_transition (rec_state r) (GameTransition.SubmitMidpoint c) of
            Inl _ \<Rightarrow> (Skipped, ob, batch)
          | Inr new_state \<Rightarrow> play_after E ob g r new_state block batch))"

definition handle_response_submitted ::
    "'n Env \<Rightarrow> 'n Observer \<Rightarrow> u128 \<Rightarrow> bool \<Rightarrow> u64 \<Rightarrow> PersistBatch \<Rightarrow> EventHandling \<times> 'n Observer \<times> PersistBatch" where
  "handle_response_submitted E ob g agree block batch =
     (case bt_get (games ob) g of
        None \<Rightarrow> (Skipped, ob, batch)
      | Some r \<Rightarrow>
          if \<not> state_known r then
            if \<not> is_in_progress (game_status (rec_state r)) then (Skipped, ob, batch)
            else
              let gs = rec_state r;
                  new_rec = r\<lparr>rec_state := gs\<lparr>pending_midpoint := None, turn := flip (turn gs),
                      game_depth := min (wsat_add (game_depth gs) 1) (MAX_BISECTION_DEPTH + 1)\<rparr>,
                    last_updated_block := block\<rparr>
              in (Recorded, put_game ob batch g new_rec)
          else (case apply_transition (rec_state r) (if agree then GameTransition.RespondAgree else GameTransition.RespondDisagree) of
            Inl _ \<Rightarrow> (Skipped, ob, batch)
          | Inr new_state \<Rightarrow> play_after E ob g r new_state block batch))"

definition handle_game_settled ::
    "'n Observer \<Rightarrow> u128 \<Rightarrow> GameStatus \<Rightarrow> u64 \<Rightarrow> PersistBatch \<Rightarrow> EventHandling \<times> 'n Observer \<times> PersistBatch" where
  "handle_game_settled ob g status block batch =
     (case bt_get (games ob) g of
        None \<Rightarrow> (Skipped, ob, batch)
      | Some r \<Rightarrow>
          if is_in_progress status then (Skipped, ob, batch)
          else (case apply_settlement (rec_state r) status of
            Inl _ \<Rightarrow> (Skipped, ob, batch)
          | Inr new_state \<Rightarrow> (Recorded, put_game ob batch g
              (r\<lparr>rec_state := new_state, last_updated_block := block, turn_deadline := None\<rparr>))))"

fun handle_event :: "'n Env \<Rightarrow> 'n Observer \<Rightarrow> GameEvent \<Rightarrow> PersistBatch \<Rightarrow> EventHandling \<times> 'n Observer \<times> PersistBatch" where
  "handle_event E ob (GameOpened g _ disputed_root _ block _ _) batch = handle_game_opened ob g disputed_root block batch"
| "handle_event E ob (MidpointSubmitted g _ idx c block _ _) batch = handle_midpoint_submitted E ob g idx c block batch"
| "handle_event E ob (ResponseSubmitted g _ agree block _ _) batch = handle_response_submitted E ob g agree block batch"
| "handle_event E ob (GameSettled g status _ _ block _ _) batch = handle_game_settled ob g status block batch"
| "handle_event E ob (StateRootSubmitted claim c _ prev_end root block _ _) batch =
     (let r = \<lparr>end_index = claim, prev_end_index = prev_end, batch_actions_root = root, batch_state_commit = c,
            batch_block_number = block\<rparr>
      in (Recorded, ob\<lparr>batches := bt_insert claim r (batches ob)\<rparr>, upsert_batch batch r))"

section \<open>Broadcast and recovery\<close>

definition release_pivot_after_broadcast_failure :: "'n Observer \<Rightarrow> PendingBroadcast \<Rightarrow> 'n Observer" where
  "release_pivot_after_broadcast_failure ob pending =
     (let key = pending_key pending;
          failures = (case broadcast_failures ob key of None \<Rightarrow> 0 | Some n \<Rightarrow> n) + 1;
          ob = ob\<lparr>broadcast_failures := (broadcast_failures ob)(key \<mapsto> failures)\<rparr>
      in if max_broadcast_attempts (ob_config ob) \<le> failures then ob
         else ob\<lparr>submitted_pivots := Set.remove key (submitted_pivots ob),
                iteration_pivot_inserts := filter (\<lambda>k. k \<noteq> key) (iteration_pivot_inserts ob)\<rparr>)"

text \<open>The status of a transaction after its broadcast, with the effects of a failure.\<close>

definition broadcast_pending :: "'n Env \<Rightarrow> 'n Observer \<Rightarrow> PendingBroadcast \<Rightarrow> ResponseStatus \<times> 'n Observer" where
  "broadcast_pending E ob pending =
     (case broadcast E (world ob) (prepared pending) of
        (Inr _, n) \<Rightarrow> (Pending, ob\<lparr>world := n\<rparr>)
      | (Inl _, n) \<Rightarrow> (Failed, release_pivot_after_broadcast_failure (ob\<lparr>world := invalidate_nonce_cache E n\<rparr>) pending))"

definition broadcast_and_update_status :: "'n Env \<Rightarrow> 'n Observer \<Rightarrow> PendingBroadcast \<Rightarrow> (ObserverError + unit) \<times> 'n Observer" where
  "broadcast_and_update_status E ob pending =
     (let (new_status, ob) = broadcast_pending E ob pending in
      case load_response (persistence ob) (ptx_hash (prepared pending)) of
        (Inl e, p) \<Rightarrow> (Inl (OStorage e), ob\<lparr>persistence := p\<rparr>)
      | (Inr None, p) \<Rightarrow> (Inr (), ob\<lparr>persistence := p\<rparr>)
      | (Inr (Some existing), p) \<Rightarrow>
          (case store_response (hex_encode E) (hex_decode E) p (existing\<lparr>resp_status := new_status\<rparr>) of
             (r, p) \<Rightarrow> (map_err OStorage r, ob\<lparr>persistence := p\<rparr>)))"

definition intent_broadcast :: "'n Env \<Rightarrow> ResponseRecord \<Rightarrow> PendingBroadcast option" where
  "intent_broadcast E r =
     (if resp_status r \<noteq> Intent then None
      else case raw_tx_hex r of
        None \<Rightarrow> None
      | Some raw_hex \<Rightarrow>
     (case hex_decode E raw_hex of
        Inl _ \<Rightarrow> None
      | Inr raw \<Rightarrow>
     (case hex_decode E (tx_hash_hex r) of
        Inl _ \<Rightarrow> None
      | Inr h \<Rightarrow>
          if length h = 32
          then Some \<lparr>prepared = \<lparr>ptx_hash = h, ptx_raw = raw\<rparr>, pb_game_id = resp_game_id r, pb_pivot_idx = resp_pivot_idx r,
                 pb_move_kind = resp_move_kind r\<rparr>
          else None)))"

fun rebroadcast :: "'n Env \<Rightarrow> ResponseRecord list \<Rightarrow> 'n Observer \<Rightarrow> 'n Observer" where
  "rebroadcast E [] ob = ob"
| "rebroadcast E (r # rs) ob = rebroadcast E rs
     (case intent_broadcast E r of None \<Rightarrow> ob | Some pending \<Rightarrow> snd (broadcast_and_update_status E ob pending))"

definition recover_intent_records :: "'n Env \<Rightarrow> 'n Observer \<Rightarrow> (ObserverError + unit) \<times> 'n Observer" where
  "recover_intent_records E ob =
     (case list_responses (persistence ob) of
        (Inl e, p) \<Rightarrow> (Inl (OStorage e), ob\<lparr>persistence := p\<rparr>)
      | (Inr all_responses, p) \<Rightarrow> (Inr (), rebroadcast E all_responses (ob\<lparr>persistence := p\<rparr>)))"

fun drain_broadcasts :: "'n Env \<Rightarrow> PendingBroadcast list \<Rightarrow> 'n Observer \<Rightarrow> (ObserverError + unit) \<times> 'n Observer" where
  "drain_broadcasts E [] ob = (Inr (), ob)"
| "drain_broadcasts E (p # ps) ob =
     (case broadcast_and_update_status E ob p of
        (Inl e, ob) \<Rightarrow> (Inl e, ob)
      | (Inr _, ob) \<Rightarrow> drain_broadcasts E ps ob)"

section \<open>Hydration\<close>

definition mark_state_known ::
    "'n Env \<Rightarrow> 'n Observer \<Rightarrow> u128 \<Rightarrow> ObservedGame \<Rightarrow> u64 \<Rightarrow> (ObserverError + bool) \<times> 'n Observer" where
  "mark_state_known E ob g observed block =
     (let full_state = obs_state observed in
      case bt_get (games ob) g of
        None \<Rightarrow> (Inr False, ob)
      | Some r \<Rightarrow>
          if game_deployment_id full_state \<noteq> oc_deployment_id (ob_config ob) then (Inl (OInvariant (CrossDeployment g)), ob)
          else if is_terminal (game_status (rec_state r)) \<and> is_in_progress (game_status full_state)
          then (Inl (OInvariant (SettledOverwrite g)), ob)
          else if claim_idx (high (disputed full_state)) \<le> claim_idx (low (disputed full_state))
          then (Inl (OInvariant (DegenerateGame g)), ob)
          else
            let new_rec = \<lparr>rec_game_id = rec_game_id r, rec_state = full_state, rec_me = rec_me r,
                  last_updated_block = block, state_known = True, turn_deadline = Some (obs_turn_deadline observed),
                  disputed_log_index = Some (obs_disputed_log_index observed)\<rparr>;
                ob = ob\<lparr>games := bt_insert g new_rec (games ob)\<rparr>
            in (case commit_batch (hex_encode E) (hex_decode E) (persistence ob) (upsert_game batch_new new_rec) of
                  (Inl e, p) \<Rightarrow> (Inl (OStorage e), ob\<lparr>persistence := p\<rparr>)
                | (Inr _, p) \<Rightarrow> (Inr True, ob\<lparr>persistence := p\<rparr>)))"

fun hydrate_games :: "'n Env \<Rightarrow> u64 \<Rightarrow> u128 list \<Rightarrow> 'n Observer \<Rightarrow> usize \<times> usize \<Rightarrow> (usize \<times> usize) \<times> 'n Observer" where
  "hydrate_games E block [] ob counts = (counts, ob)"
| "hydrate_games E block (g # gs) ob (hydrated, errors) =
     (case read_and_validate E (world ob) g (oc_deployment_id (ob_config ob)) of
        (Inl _, n) \<Rightarrow> hydrate_games E block gs (ob\<lparr>world := n\<rparr>) (hydrated, errors + 1)
      | (Inr observed, n) \<Rightarrow>
          (case mark_state_known E (ob\<lparr>world := n\<rparr>) g observed block of
             (Inr True, ob) \<Rightarrow> hydrate_games E block gs ob (hydrated + 1, errors)
           | (Inr False, ob) \<Rightarrow> hydrate_games E block gs ob (hydrated, errors)
           | (Inl _, ob) \<Rightarrow> hydrate_games E block gs ob (hydrated, errors + 1)))"

text \<open>The entries of the games map a filter keeps, in the order the map is iterated.\<close>

definition games_where :: "'n Env \<Rightarrow> 'n Observer \<Rightarrow> (GameRecord \<Rightarrow> bool) \<Rightarrow> (u128 \<times> GameRecord) list" where
  "games_where E ob P =
     filter (P \<circ> snd) (List.map_filter (\<lambda>g. map_option (Pair g) (bt_get (games ob) g))
       (iter_order E (world ob) (map fst (games ob))))"

definition hydrate_cold_start_games :: "'n Env \<Rightarrow> 'n Observer \<Rightarrow> u64 \<Rightarrow> (usize \<times> usize) \<times> 'n Observer" where
  "hydrate_cold_start_games E ob block = hydrate_games E block (map fst (games_where E ob (\<lambda>r. \<not> state_known r))) ob (0, 0)"

section \<open>Sweeps\<close>

fun play_owed :: "'n Env \<Rightarrow> u64 \<Rightarrow> GameRecord list \<Rightarrow> 'n Observer \<Rightarrow> PersistBatch \<Rightarrow> u32 \<Rightarrow> u32 \<times> 'n Observer \<times> PersistBatch" where
  "play_owed E block [] ob batch submitted = (submitted, ob, batch)"
| "play_owed E block (r # rs) ob batch submitted =
     (let (played, ob, batch) = maybe_play_move E ob r block batch
      in play_owed E block rs ob batch (if played = Some True then submitted + 1 else submitted))"

definition cursor_or_zero :: "'n Observer \<Rightarrow> u64" where
  "cursor_or_zero ob = (case last_confirmed_block (ob_watcher ob) of None \<Rightarrow> 0 | Some b \<Rightarrow> b)"

definition sweep_owed_moves :: "'n Env \<Rightarrow> 'n Observer \<Rightarrow> PersistBatch \<Rightarrow> u32 \<times> 'n Observer \<times> PersistBatch" where
  "sweep_owed_moves E ob batch =
     (let owed = map snd (games_where E ob (\<lambda>r. is_in_progress (game_status (rec_state r)) \<and> turn (rec_state r) = rec_me r))
      in play_owed E (cursor_or_zero ob) owed ob batch 0)"

definition claim_if_lapsed ::
    "'n Env \<Rightarrow> u64 \<Rightarrow> u128 \<Rightarrow> 'n Observer \<Rightarrow> PersistBatch \<Rightarrow> bool \<times> 'n Observer \<times> PersistBatch" where
  "claim_if_lapsed E now g ob batch =
     (case read_and_validate E (world ob) g (oc_deployment_id (ob_config ob)) of
        (Inl _, n) \<Rightarrow> (False, ob\<lparr>world := n\<rparr>, batch)
      | (Inr observed, n) \<Rightarrow>
          let ob = ob\<lparr>world := n\<rparr> in
          (case bt_get (games ob) g of
             None \<Rightarrow> (False, ob, batch)
           | Some r \<Rightarrow>
               let r = r\<lparr>rec_state := obs_state observed, turn_deadline := Some (obs_turn_deadline observed),
                     last_updated_block := now\<rparr>;
                   (ob, batch) = put_game ob batch g r
               in if \<not> is_in_progress (game_status (rec_state r)) then (False, ob, batch)
               else if turn (rec_state r) = rec_me r then (False, ob, batch)
               else if now \<le> obs_turn_deadline observed then (False, ob, batch)
               else queue_l1_call E ob \<lparr>qc_game_id = g, qc_depth = game_depth (rec_state r),
                      qc_calldata = encode_claim_timeout_calldata (keccak E) g, qc_move_kind = Timeout,
                      qc_pivot_idx = None\<rparr> now batch))"

fun claim_lapsed :: "'n Env \<Rightarrow> u64 \<Rightarrow> u128 list \<Rightarrow> 'n Observer \<Rightarrow> PersistBatch \<Rightarrow> u32 \<Rightarrow> u32 \<times> 'n Observer \<times> PersistBatch" where
  "claim_lapsed E now [] ob batch claimed = (claimed, ob, batch)"
| "claim_lapsed E now (g # gs) ob batch claimed =
     (let (queued, ob, batch) = claim_if_lapsed E now g ob batch
      in claim_lapsed E now gs ob batch (if queued then claimed + 1 else claimed))"

definition sweep_timeout_claims :: "'n Env \<Rightarrow> 'n Observer \<Rightarrow> PersistBatch \<Rightarrow> u32 \<times> 'n Observer \<times> PersistBatch" where
  "sweep_timeout_claims E ob batch =
     (if \<not> has_state_reader ob then (0, ob, batch)
      else
        let now = cursor_or_zero ob;
            candidates = map (rec_game_id \<circ> snd) (games_where E ob (\<lambda>r. state_known r \<and> is_in_progress (game_status (rec_state r)) \<and>
              turn (rec_state r) \<noteq> rec_me r \<and> (case turn_deadline r of None \<Rightarrow> True | Some d \<Rightarrow> d < now) \<and>
              \<not> has_submitted_for_pivot ob (rec_game_id r) Timeout None))
        in claim_lapsed E now candidates ob batch 0)"

section \<open>The iteration\<close>

fun handle_events :: "'n Env \<Rightarrow> GameEvent list \<Rightarrow> 'n Observer \<Rightarrow> PersistBatch \<Rightarrow> u32 \<Rightarrow> u32 \<times> 'n Observer \<times> PersistBatch" where
  "handle_events E [] ob batch submitted = (submitted, ob, batch)"
| "handle_events E (e # es) ob batch submitted =
     (let (h, ob, batch) = handle_event E ob e batch
      in handle_events E es ob batch (if h = Submitted then submitted + 1 else submitted))"

fun watcher_error :: "WatcherError \<Rightarrow> ObserverError" where
  "watcher_error (WSource e) = OSource e"
| "watcher_error (WReorg e) = OReorg e"
| "watcher_error (WDecode e) = OEventDecode e"
| "watcher_error (WConfig m) = OConfig (WConfig m)"

text \<open>The handlers and sweeps of one iteration, up to the commit.\<close>

definition staged :: "'n Env \<Rightarrow> 'n Observer \<Rightarrow> WatcherIteration \<Rightarrow> u32 \<times> 'n Observer \<times> PersistBatch" where
  "staged E ob watch =
     (let (submitted, ob, batch) = handle_events E (watch_events watch) ob batch_new 0;
          (owed, ob, batch) = sweep_owed_moves E ob batch;
          (claimed, ob, batch) = sweep_timeout_claims E ob batch
      in (submitted + owed + claimed, ob, batch))"

text \<open>What follows a successful poll: the stage, the commit and the broadcasts.\<close>

definition finish_iteration :: "'n Env \<Rightarrow> 'n Observer \<Rightarrow> WatcherIteration \<Rightarrow> (ObserverError + IterationOutcome) \<times> 'n Observer" where
  "finish_iteration E ob watch =
     (let (submitted, ob, batch) = staged E ob watch;
          batch = (case new_last_confirmed watch of
            None \<Rightarrow> batch
          | Some c \<Rightarrow> set_reorg_window (set_cursor batch c) (window_snapshot (ob_watcher ob)));
          (committed, ob) = (if batch_is_empty batch then (Inr (), ob)
            else case commit_batch (hex_encode E) (hex_decode E) (persistence ob) batch of
              (Inr _, p) \<Rightarrow> (Inr (), ob\<lparr>persistence := p, iteration_pivot_inserts := []\<rparr>)
            | (Inl e, p) \<Rightarrow> (Inl (OStorage e), ob\<lparr>persistence := p, pending_broadcasts := []\<rparr>))
      in case committed of
           Inl e \<Rightarrow> (Inl e, ob)
         | Inr _ \<Rightarrow>
             (case drain_broadcasts E (pending_broadcasts ob) (ob\<lparr>pending_broadcasts := []\<rparr>) of
                (Inl e, ob) \<Rightarrow> (Inl e, ob)
              | (Inr _, ob) \<Rightarrow> (Inr \<lparr>event_count = length (watch_events watch), submitted_moves = submitted,
                    out_reorg_absorbed = reorg_absorbed watch, new_cursor = new_last_confirmed watch\<rparr>, ob)))"

definition run_iteration_inner :: "'n Env \<Rightarrow> L1Source \<Rightarrow> 'n Observer \<Rightarrow> (ObserverError + IterationOutcome) \<times> 'n Observer" where
  "run_iteration_inner E src ob =
     (case recover_intent_records E ob of
        (Inl e, ob) \<Rightarrow> (Inl e, ob)
      | (Inr _, ob) \<Rightarrow>
          let ob = (if has_state_reader ob \<and> list_ex (\<lambda>(_, r). \<not> state_known r) (games ob)
                    then snd (hydrate_cold_start_games E ob (cursor_or_zero ob)) else ob)
          in (case watcher_run_iteration (keccak E) src (ob_watcher ob) of
                (Inl e, w) \<Rightarrow> (Inl (watcher_error e), ob\<lparr>ob_watcher := w\<rparr>)
              | (Inr watch, w) \<Rightarrow> finish_iteration E (ob\<lparr>ob_watcher := w\<rparr>) watch))"

definition run_iteration :: "'n Env \<Rightarrow> L1Source \<Rightarrow> 'n Observer \<Rightarrow> (ObserverError + IterationOutcome) \<times> 'n Observer" where
  "run_iteration E src ob =
     (case run_iteration_inner E src (ob\<lparr>iteration_pivot_inserts := []\<rparr>) of
        (Inr out, ob) \<Rightarrow> (Inr out, ob)
      | (Inl e, ob) \<Rightarrow> (Inl e, ob\<lparr>submitted_pivots := submitted_pivots ob - set (iteration_pivot_inserts ob),
            iteration_pivot_inserts := []\<rparr>))"

end
