(* ===== verification/Observer_Safety.thy ===== *)
theory Observer_Safety
  imports Observer
begin

text \<open>
  What the fault-proof observer guarantees across crashes and restarts: at most one live transaction
  for every move, moves that are queued only when they are due and honest, and well-formed records
  of games.
\<close>

section \<open>The table of responses\<close>

definition live :: "ResponseRecord \<Rightarrow> bool" where
  "live r \<longleftrightarrow> resp_status r \<in> {Intent, Pending, Confirmed}"

type_synonym responses = "(bytes, ResponseRecord) btree"

text \<open>At most one live transaction for a move of a game.\<close>

definition one_live :: "responses \<Rightarrow> bool" where
  "one_live t \<longleftrightarrow> (\<forall>h h' r r'. bt_get t h = Some r \<and> bt_get t h' = Some r' \<and> live r \<and> live r' \<and>
     resp_key r = resp_key r' \<longrightarrow> h = h')"

definition reserved :: "responses \<Rightarrow> pivot set \<Rightarrow> bool" where
  "reserved t S \<longleftrightarrow> (\<forall>h r. bt_get t h = Some r \<and> live r \<longrightarrow> resp_key r \<in> S)"

text \<open>
  A list of broadcasts still to make, each the hash of a transaction and the move it is for: the moves
  are distinct and reserved, the record under a hash is for the last move queued with it, and
  whatever is live for one of the moves is one of these transactions.
\<close>

definition owes :: "responses \<Rightarrow> pivot set \<Rightarrow> (bytes \<times> pivot) list \<Rightarrow> bool" where
  "owes t S hks \<longleftrightarrow> distinct (map snd hks) \<and> set (map snd hks) \<subseteq> S \<and>
     (\<forall>h k. map_of (rev hks) h = Some k \<longrightarrow> (\<exists>r. bt_get t h = Some r \<and> resp_key r = k)) \<and>
     (\<forall>h r. bt_get t h = Some r \<and> live r \<and> resp_key r \<in> set (map snd hks) \<longrightarrow> (h, resp_key r) \<in> set hks)"

lemma distinct_snd: "distinct (map snd xs) \<Longrightarrow> (a, k) \<in> set xs \<Longrightarrow> (b, k) \<in> set xs \<Longrightarrow> a = b"
  by (induction xs) (auto simp: rev_image_eqI)

lemma owes_head:
  assumes "owes t S ((h, k) # hks)"
  shows "\<exists>r. bt_get t h = Some r \<and> (h, resp_key r) \<in> set ((h, k) # hks)"
proof -
  have "map_of (rev ((h, k) # hks)) h \<noteq> None" by (simp add: map_of_eq_None_iff)
  then obtain k' where k: "map_of (rev ((h, k) # hks)) h = Some k'" by blast
  then have "(h, k') \<in> set ((h, k) # hks)" using map_of_SomeD [OF k] by simp
  then show ?thesis using assms k unfolding owes_def by blast
qed

text \<open>One broadcast: the status changes, and a failed one may give the move up for a retry.\<close>

lemma owes_step:
  assumes o: "owes t S ((h, k) # hks)" and one: "one_live t" and res: "reserved t S"
    and ex: "bt_get t h = Some ex" "(h, resp_key ex) \<in> set ((h, k) # hks)"
    and new: "resp_key new = resp_key ex" and S: "live new \<Longrightarrow> S' = S" "S - {k} \<subseteq> S'"
  defines "t' \<equiv> bt_insert h new t"
  shows "one_live t'" "reserved t' S'" "owes t' S' hks"
proof -
  note o' = o [unfolded owes_def]
  note d = conjunct1 [OF o'] and sub = conjunct1 [OF conjunct2 [OF o']]
  have M: "\<exists>r. bt_get t x = Some r \<and> resp_key r = k'" if "map_of (rev ((h, k) # hks)) x = Some k'" for x k'
    using conjunct1 [OF conjunct2 [OF conjunct2 [OF o']]] that by blast
  have U: "(x, resp_key r) \<in> set ((h, k) # hks)"
    if "bt_get t x = Some r" "live r" "resp_key r \<in> set (map snd ((h, k) # hks))" for x r
    using conjunct2 [OF conjunct2 [OF conjunct2 [OF o']]] that by blast
  let ?K = "resp_key ex"
  have K: "?K \<in> set (map snd ((h, k) # hks))" using imageI [OF ex(2), of snd] by simp
  have k: "k \<notin> set (map snd hks)" using d by simp
  have at_h: "x = h" if "bt_get t x = Some r" "live r" "resp_key r = ?K" for x r
  proof -
    have "(x, ?K) \<in> set ((h, k) # hks)" using U [OF that(1,2)] that(3) K by simp
    then show ?thesis using distinct_snd [OF d _ ex(2)] by blast
  qed
  show "one_live t'"
    unfolding one_live_def t'_def
  proof (intro allI impI, elim conjE)
    fix a b r r'
    assume a: "bt_get (bt_insert h new t) a = Some r" "live r" and b: "bt_get (bt_insert h new t) b = Some r'" "live r'"
      and e: "resp_key r = resp_key r'"
    consider "a = h" "b = h" | "a = h" "b \<noteq> h" | "a \<noteq> h" "b = h" | "a \<noteq> h" "b \<noteq> h" by blast
    then show "a = b"
    proof cases
      case 2
      then have "r = new" "bt_get t b = Some r'" using a(1) b(1) by simp_all
      then show ?thesis using at_h [OF _ b(2)] e new 2 by metis
    next
      case 3
      then have "r' = new" "bt_get t a = Some r" using a(1) b(1) by simp_all
      then show ?thesis using at_h [OF _ a(2)] e new 3 by metis
    next
      case 4
      then have "bt_get t a = Some r" "bt_get t b = Some r'" using a(1) b(1) by simp_all
      then show ?thesis using one a(2) b(2) e unfolding one_live_def by blast
    qed simp
  qed
  have off_k: "x = h" if "bt_get t x = Some r" "live r" "resp_key r = k" for x r
  proof -
    have "(x, k) \<in> set ((h, k) # hks)" using U [OF that(1,2)] that(3) by simp
    then show ?thesis using distinct_snd [OF d, of x k h] by simp
  qed
  show "reserved t' S'"
    unfolding reserved_def t'_def
  proof (intro allI impI, elim conjE)
    fix x r assume x: "bt_get (bt_insert h new t) x = Some r" and l: "live r"
    show "resp_key r \<in> S'"
    proof (cases "x = h")
      case True
      then show ?thesis using x l S(1) new K sub by auto
    next
      case False
      then have "bt_get t x = Some r" using x by simp
      then show ?thesis using res l off_k False S(2) unfolding reserved_def by blast
    qed
  qed
  have "(\<exists>r. bt_get t' x = Some r \<and> resp_key r = k')" if "map_of (rev hks) x = Some k'" for x k'
    using M [of x k'] that ex(1) new by (auto simp: t'_def)
  moreover have "(x, resp_key r) \<in> set hks" if "bt_get t' x = Some r" "live r" "resp_key r \<in> set (map snd hks)" for x r
  proof (cases "x = h")
    case True
    then show ?thesis using that ex(2) new k by (auto simp: t'_def)
  next
    case False
    then have "(x, resp_key r) \<in> set ((h, k) # hks)" using U [of x r] that by (auto simp: t'_def)
    then show ?thesis using False by auto
  qed
  moreover have "set (map snd hks) \<subseteq> S'" using sub S(2) k by auto
  ultimately show "owes t' S' hks"
    using d unfolding owes_def by simp
qed

section \<open>The store under failures\<close>

text \<open>
  What is relied on outside the process: the hexadecimal codec inverts itself and its output has no
  prefix to strip, a transaction hash has 32 bytes, a map is iterated key by key, and the reader
  keeps its contract, as the contract reader does (\<open>contract.validated\<close>).
\<close>

definition env_ok :: "'n Env \<Rightarrow> bool" where
  "env_ok E \<longleftrightarrow> (\<forall>b. hex_decode E (hex_encode E b) = Inr b \<and> strip_0x (hex_encode E b) = hex_encode E b) \<and>
     (\<forall>n c tx n'. build_and_sign E n c = (Inr tx, n') \<longrightarrow> length (ptx_hash tx) = 32) \<and>
     (\<forall>n xs. distinct xs \<longrightarrow> distinct (iter_order E n xs)) \<and>
     (\<forall>n g dep obs. fst (read_and_validate E n g dep) = Inr obs \<longrightarrow> observed_ok dep obs)"

lemma env_read: "env_ok E \<Longrightarrow> read_and_validate E n g dep = (Inr obs, n') \<Longrightarrow> observed_ok dep obs"
  by (simp add: env_ok_def) (metis fst_conv)

lemma env_iter: "env_ok E \<Longrightarrow> distinct xs \<Longrightarrow> distinct (iter_order E n xs)"
  by (simp add: env_ok_def)

lemma env_sign: "env_ok E \<Longrightarrow> build_and_sign E n c = (Inr tx, n') \<Longrightarrow> length (ptx_hash tx) = 32"
  unfolding env_ok_def by blast

text \<open>
  A process loses its store at some point or never: after one failed call all its later calls
  fail.  This is a crash at any call, seen from the store.
\<close>

definition fail_stop :: "(nat \<Rightarrow> bool) \<Rightarrow> bool" where
  "fail_stop d \<longleftrightarrow> (\<forall>i. \<not> d i \<longrightarrow> \<not> d (Suc i))"

definition up :: "Persistence \<Rightarrow> bool" where
  "up p \<longleftrightarrow> (\<forall>i < ops p. disk p i)"

lemma fail_stop_later: "fail_stop d \<Longrightarrow> \<not> d i \<Longrightarrow> i \<le> j \<Longrightarrow> \<not> d j"
  by (induction j) (auto simp: fail_stop_def le_Suc_eq)

lemma down_fails: "fail_stop (disk p) \<Longrightarrow> \<not> up p \<Longrightarrow> \<not> disk p (ops p)"
  by (auto simp: up_def dest: fail_stop_later intro: less_imp_le)

text \<open>Calls on the store: the schedule stays, the count grows, and once it is lost nothing changes.\<close>

definition store_ext :: "Persistence \<Rightarrow> Persistence \<Rightarrow> bool" where
  "store_ext p p' \<longleftrightarrow> disk p' = disk p \<and> ops p \<le> ops p' \<and>
     (fail_stop (disk p) \<and> \<not> up p \<longrightarrow> st_responses p' = st_responses p)"

lemma store_ext_refl [simp]: "store_ext p p"
  by (simp add: store_ext_def)

lemma up_back: "store_ext p p' \<Longrightarrow> up p' \<Longrightarrow> up p"
  by (auto simp: store_ext_def up_def)

lemma store_ext_trans: "store_ext p q \<Longrightarrow> store_ext q r \<Longrightarrow> store_ext p r"
  using up_back [of p q] by (auto simp: store_ext_def)

lemma disk_read_ext: "disk_read p f = (r, p') \<Longrightarrow> store_ext p p' \<and> st_responses p' = st_responses p \<and> st_games p' = st_games p \<and>
    (case r of Inr v \<Rightarrow> v = f p | Inl e \<Rightarrow> \<not> up p')"
  by (auto simp: disk_read_def store_ext_def up_def split: if_splits)

lemma commit_ext:
  assumes "commit_batch enc dec p b = (r, p')"
  shows "store_ext p p'" "r = Inl e \<Longrightarrow> st_responses p' = st_responses p"
    "r = Inr u \<Longrightarrow> put_responses enc dec (pb_responses b) (st_responses p) = Inr (st_responses p')"
  using assms down_fails [of p]
  by (auto simp: commit_batch_def disk_write_def store_ext_def Let_def split: sum.splits if_splits)

definition table_ok :: "'n Env \<Rightarrow> responses \<Rightarrow> bool" where
  "table_ok E t \<longleftrightarrow> bt_wf t \<and> (\<forall>h r. bt_get t h = Some r \<longrightarrow> length h = 32 \<and> tx_hash_hex r = hex_encode E h)"

lemma parse_canonical:
  assumes "env_ok E" "length h = 32"
  shows "parse_hex_tx_hash (hex_decode E) (hex_encode E h) = Inr h"
  using assms by (simp add: parse_hex_tx_hash_def env_ok_def)

lemma table_ok_insert:
  assumes "table_ok E t" "length h = 32"
  shows "table_ok E (bt_insert h (r\<lparr>tx_hash_hex := hex_encode E h\<rparr>) t)"
  using assms by (simp add: table_ok_def)

text \<open>The state of the table and of the reservations that a process keeps while it has its store.\<close>

definition tracked :: "'n Env \<Rightarrow> 'n Observer \<Rightarrow> (bytes \<times> pivot) list \<Rightarrow> bool" where
  "tracked E ob hks \<longleftrightarrow> fail_stop (disk (persistence ob)) \<and> table_ok E (st_responses (persistence ob)) \<and>
     one_live (st_responses (persistence ob)) \<and>
     (up (persistence ob) \<longrightarrow> reserved (st_responses (persistence ob)) (submitted_pivots ob) \<and>
        owes (st_responses (persistence ob)) (submitted_pivots ob) hks)"

definition hash_key :: "PendingBroadcast \<Rightarrow> bytes \<times> pivot" where
  "hash_key p = (ptx_hash (prepared p), pending_key p)"

lemma broadcast_pending_effect:
  assumes "broadcast_pending E ob pending = (st, ob')"
  shows "persistence ob' = persistence ob" "pending_broadcasts ob' = pending_broadcasts ob" "games ob' = games ob"
    "ob_config ob' = ob_config ob" "st \<in> {Pending, Failed}" "st = Pending \<Longrightarrow> submitted_pivots ob' = submitted_pivots ob"
    "submitted_pivots ob - {pending_key pending} \<subseteq> submitted_pivots ob'"
    "set (iteration_pivot_inserts ob') \<subseteq> set (iteration_pivot_inserts ob)"
  using assms
  by (auto simp: broadcast_pending_def release_pivot_after_broadcast_failure_def Let_def split: prod.splits sum.splits if_splits)

lemma tracked_down:
  assumes "tracked E ob hks" "store_ext (persistence ob) (persistence ob')" "\<not> up (persistence ob')"
    "st_responses (persistence ob') = st_responses (persistence ob)"
  shows "tracked E ob' hks'"
  using assms by (simp add: tracked_def store_ext_def)

lemma broadcast_frame:
  assumes "broadcast_and_update_status E ob p = (r, ob')"
  shows "games ob' = games ob" "pending_broadcasts ob' = pending_broadcasts ob" "ob_config ob' = ob_config ob"
    "st_games (persistence ob') = st_games (persistence ob)"
    "set (iteration_pivot_inserts ob') \<subseteq> set (iteration_pivot_inserts ob)"
proof -
  obtain st ob1 where b: "broadcast_pending E ob p = (st, ob1)" by fastforce
  note e = broadcast_pending_effect [OF b]
  show "games ob' = games ob" "pending_broadcasts ob' = pending_broadcasts ob" "ob_config ob' = ob_config ob"
    "st_games (persistence ob') = st_games (persistence ob)"
    "set (iteration_pivot_inserts ob') \<subseteq> set (iteration_pivot_inserts ob)"
    using assms b e
    by (auto simp: broadcast_and_update_status_def load_response_def disk_read_def store_response_def disk_write_def Let_def
      split: prod.splits sum.splits option.splits if_splits)
qed

lemma broadcast_step:
  assumes env: "env_ok E" and tr: "tracked E ob (hash_key p # hks)" and b: "broadcast_and_update_status E ob p = (r, ob')"
  shows "tracked E ob' hks \<and> store_ext (persistence ob) (persistence ob') \<and> (\<forall>e. r = Inl e \<longrightarrow> \<not> up (persistence ob'))"
proof -
  let ?h = "ptx_hash (prepared p)" and ?P = "persistence ob"
  let ?t = "st_responses ?P" and ?P1 = "?P\<lparr>ops := Suc (ops ?P)\<rparr>" and ?P2 = "?P\<lparr>ops := Suc (Suc (ops ?P))\<rparr>"
  obtain st ob1 where bp: "broadcast_pending E ob p = (st, ob1)" by fastforce
  note eff = broadcast_pending_effect [OF bp]
  have fs: "fail_stop (disk ?P)" and tok: "table_ok E ?t" and one: "one_live ?t" using tr by (simp_all add: tracked_def)
  show ?thesis
  proof (cases "disk ?P (ops ?P)")
    case False
    then have ob': "ob' = ob1\<lparr>persistence := ?P1\<rparr>" and d: "\<not> up ?P1" "store_ext ?P ?P1"
      using b bp eff(1) by (auto simp: broadcast_and_update_status_def load_response_def disk_read_def up_def store_ext_def)
    show ?thesis using tracked_down [OF tr, of ob' hks] d by (simp add: ob')
  next
    case True
    then have "up ?P" using down_fails [OF fs] by blast
    then have res: "reserved ?t (submitted_pivots ob)" and owe: "owes ?t (submitted_pivots ob) ((?h, pending_key p) # hks)"
      using tr by (simp_all add: tracked_def hash_key_def)
    obtain ex where ex: "bt_get ?t ?h = Some ex" "(?h, resp_key ex) \<in> set ((?h, pending_key p) # hks)"
      using owes_head [OF owe] by blast
    have h: "length ?h = 32" "tx_hash_hex ex = hex_encode E ?h" using tok ex(1) by (simp_all add: table_ok_def)
    let ?new = "ex\<lparr>resp_status := st, tx_hash_hex := hex_encode E ?h\<rparr>"
    have parse: "parse_hex_tx_hash (hex_decode E) (tx_hash_hex (ex\<lparr>resp_status := st\<rparr>)) = Inr ?h"
      using parse_canonical [OF env h(1)] h(2) by simp
    show ?thesis
    proof (cases "disk ?P (Suc (ops ?P))")
      case False
      then have ob': "ob' = ob1\<lparr>persistence := ?P2\<rparr>" and d: "\<not> up ?P2" "store_ext ?P ?P2"
        using b bp eff(1) True ex(1) parse
        by (auto simp: broadcast_and_update_status_def load_response_def disk_read_def store_response_def disk_write_def Let_def
          up_def store_ext_def)
      show ?thesis using tracked_down [OF tr, of ob' hks] d by (simp add: ob')
    next
      case ok: True
      have ob': "ob' = ob1\<lparr>persistence := ?P2\<lparr>st_responses := bt_insert ?h ?new ?t\<rparr>\<rparr>" "r = Inr ()"
        using b bp eff(1) True ok ex(1) parse
        by (auto simp: broadcast_and_update_status_def load_response_def disk_read_def store_response_def disk_write_def Let_def)
      have k: "resp_key ?new = resp_key ex" by (simp add: resp_key_def)
      have "live ?new \<Longrightarrow> submitted_pivots ob1 = submitted_pivots ob" using eff(5,6) by (auto simp: live_def)
      note step = owes_step [OF owe one res ex k this eff(7)]
      have "table_ok E (bt_insert ?h ?new ?t)" using table_ok_insert [OF tok h(1), of "ex\<lparr>resp_status := st\<rparr>"] by simp
      then show ?thesis using step fs \<open>up ?P\<close> by (simp add: tracked_def ob' store_ext_def)
    qed
  qed
qed

lemma tracked_weaken: "tracked E ob hks \<Longrightarrow> \<not> up (persistence ob) \<Longrightarrow> tracked E ob hks'"
  by (simp add: tracked_def)

lemma drain_tracked:
  assumes "env_ok E" "tracked E ob (map hash_key ps)" "drain_broadcasts E ps ob = (r, ob')"
  shows "tracked E ob' [] \<and> store_ext (persistence ob) (persistence ob') \<and> (\<forall>e. r = Inl e \<longrightarrow> \<not> up (persistence ob')) \<and>
    games ob' = games ob \<and> pending_broadcasts ob' = pending_broadcasts ob \<and> ob_config ob' = ob_config ob \<and>
    st_games (persistence ob') = st_games (persistence ob)"
  using assms
proof (induction ps arbitrary: ob)
  case (Cons p ps)
  obtain r1 ob1 where b: "broadcast_and_update_status E ob p = (r1, ob1)" by fastforce
  note s = broadcast_step [OF Cons.prems(1) Cons.prems(2) [unfolded list.map] b] and f = broadcast_frame [OF b]
  show ?case
  proof (cases r1)
    case (Inl e)
    then show ?thesis using Cons.prems(3) b s f tracked_weaken [of E ob1 _ "[]"] by auto
  next
    case (Inr u)
    then have "drain_broadcasts E ps ob1 = (r, ob')" using Cons.prems(3) b by simp
    note ih = Cons.IH [OF Cons.prems(1) conjunct1 [OF s] this]
    show ?thesis using ih f store_ext_trans [OF conjunct1 [OF conjunct2 [OF s]], of "persistence ob'"] by simp
  qed
qed auto

lemma rebroadcast_tracked:
  assumes "env_ok E" "tracked E ob (map hash_key (List.map_filter (intent_broadcast E) rs))"
  shows "tracked E (rebroadcast E rs ob) [] \<and> store_ext (persistence ob) (persistence (rebroadcast E rs ob)) \<and>
    games (rebroadcast E rs ob) = games ob \<and> pending_broadcasts (rebroadcast E rs ob) = pending_broadcasts ob \<and>
    ob_config (rebroadcast E rs ob) = ob_config ob \<and> st_games (persistence (rebroadcast E rs ob)) = st_games (persistence ob) \<and>
    set (iteration_pivot_inserts (rebroadcast E rs ob)) \<subseteq> set (iteration_pivot_inserts ob)"
  using assms(2)
proof (induction rs arbitrary: ob)
  case Nil
  then show ?case by (simp add: map_filter_def)
next
  case (Cons x rs)
  show ?case
  proof (cases "intent_broadcast E x")
    case None
    then show ?thesis using Cons by (simp add: map_filter_simps)
  next
    case (Some p)
    obtain r1 ob1 where b: "broadcast_and_update_status E ob p = (r1, ob1)" by fastforce
    have "tracked E ob (hash_key p # map hash_key (List.map_filter (intent_broadcast E) rs))"
      using Cons.prems Some by (simp add: map_filter_simps)
    note s = broadcast_step [OF assms(1) this b] and f = broadcast_frame [OF b]
    have "rebroadcast E (x # rs) ob = rebroadcast E rs ob1" using Some b by simp
    then show ?thesis
      using Cons.IH [OF conjunct1 [OF s]] f store_ext_trans [OF conjunct1 [OF conjunct2 [OF s]]] by auto
  qed
qed

text \<open>The recovery owes exactly the transactions recorded as intended.\<close>

lemma intent_hash_key:
  assumes "env_ok E" "table_ok E t" "bt_get t h = Some r" "intent_broadcast E r = Some p"
  shows "hash_key p = (h, resp_key r)" "live r"
  using assms
  by (auto simp: intent_broadcast_def table_ok_def env_ok_def hash_key_def pending_key_def resp_key_def live_def
    split: if_splits option.splits sum.splits)

lemma bt_get_mem: "bt_wf t \<Longrightarrow> (h, r) \<in> set t \<longleftrightarrow> bt_get t h = Some r"
  by (simp add: bt_get_def bt_wf_distinct)

lemma recovery_list:
  assumes "env_ok E" "table_ok E t"
  shows "map hash_key (List.map_filter (intent_broadcast E) (map snd t)) =
    map (\<lambda>(h, r). (h, resp_key r)) (filter (\<lambda>(h, r). intent_broadcast E r \<noteq> None) t)"
proof -
  have wf: "bt_wf t" using assms(2) by (simp add: table_ok_def)
  have e: "map hash_key (List.map_filter (intent_broadcast E) (map snd t)) =
      map (\<lambda>(h, r). hash_key (the (intent_broadcast E r))) (filter (\<lambda>(h, r). intent_broadcast E r \<noteq> None) t)"
    by (induction t) (auto simp: map_filter_simps split: option.split)
  show ?thesis unfolding e
    using intent_hash_key(1) [OF assms] by (auto simp: bt_get_mem [OF wf] intro!: map_cong)
qed

lemma owes_recovery:
  assumes "env_ok E" "table_ok E t" "one_live t" "reserved t S"
  shows "owes t S (map hash_key (List.map_filter (intent_broadcast E) (map snd t)))"
proof -
  let ?f = "\<lambda>(h :: bytes, r). (h, resp_key r)" and ?xs = "filter (\<lambda>(h, r). intent_broadcast E r \<noteq> None) t"
  have wf: "bt_wf t" using assms(2) by (simp add: table_ok_def)
  have mem: "bt_get t h = Some r \<and> live r" if "(h, r) \<in> set ?xs" for h r
    using that intent_hash_key(2) [OF assms(1,2)] bt_get_mem [OF wf] by auto
  have same: "h = h'" if "bt_get t h = Some r" "live r" "bt_get t h' = Some r'" "live r'" "resp_key r = resp_key r'" for h h' r r'
    using assms(3) that unfolding one_live_def by blast
  have "distinct t" using bt_wf_distinct [OF wf] by (simp add: distinct_map)
  moreover have "inj_on (\<lambda>x. snd (?f x)) (set ?xs)"
  proof (rule inj_onI)
    fix x y assume x: "x \<in> set ?xs" "y \<in> set ?xs" "snd (?f x) = snd (?f y)"
    obtain h r h' r' where xy: "x = (h, r)" "y = (h', r')" by (cases x; cases y)
    then have "h = h'" using same [of h r h' r'] mem [of h r] mem [of h' r'] x by simp
    then show "x = y" using mem [of h r] mem [of h' r'] x xy by auto
  qed
  ultimately have "distinct (map snd (map ?f ?xs))" by (simp add: distinct_map comp_def)
  moreover have "set (map snd (map ?f ?xs)) \<subseteq> S"
  proof
    fix k assume "k \<in> set (map snd (map ?f ?xs))"
    then obtain x where x: "x \<in> set ?xs" "k = snd (?f x)" unfolding set_map by blast
    obtain h r where "x = (h, r)" by (cases x)
    then have "bt_get t h = Some r \<and> live r" "k = resp_key r" using mem [of h r] x by simp_all
    then show "k \<in> S" using assms(4) unfolding reserved_def by blast
  qed
  moreover have "\<exists>r. bt_get t h = Some r \<and> resp_key r = k" if "map_of (rev (map ?f ?xs)) h = Some k" for h k
    using map_of_SomeD [OF that] mem by auto
  moreover have "(h, resp_key r) \<in> set (map ?f ?xs)" if a: "bt_get t h = Some r" "live r" "resp_key r \<in> set (map snd (map ?f ?xs))" for h r
  proof -
    obtain x where x: "x \<in> set ?xs" "resp_key r = snd (?f x)" using a(3) unfolding set_map by blast
    obtain h' r' where "x = (h', r')" by (cases x)
    then have b: "(h', r') \<in> set ?xs" "resp_key r' = resp_key r" using x by simp_all
    then have "h' = h" using same [OF a(1,2), of h' r'] mem [OF b(1)] by simp
    then show ?thesis using b image_eqI [of "(h, resp_key r)" ?f "(h', r')" "set ?xs"] by simp
  qed
  ultimately show ?thesis unfolding owes_def recovery_list [OF assms(1,2)] by blast
qed

lemma recover_tracked:
  assumes env: "env_ok E" and tr: "tracked E ob []" and r: "recover_intent_records E ob = (r, ob')"
  shows "tracked E ob' [] \<and> store_ext (persistence ob) (persistence ob') \<and> (\<forall>e. r = Inl e \<longrightarrow> \<not> up (persistence ob')) \<and>
    games ob' = games ob \<and> pending_broadcasts ob' = pending_broadcasts ob \<and> ob_config ob' = ob_config ob \<and>
    st_games (persistence ob') = st_games (persistence ob) \<and>
    set (iteration_pivot_inserts ob') \<subseteq> set (iteration_pivot_inserts ob)"
proof -
  obtain l p where l: "list_responses (persistence ob) = (l, p)" by fastforce
  note d = disk_read_ext [OF l [unfolded list_responses_def]]
  let ?ob = "ob\<lparr>persistence := p\<rparr>"
  show ?thesis
  proof (cases l)
    case (Inl e)
    then show ?thesis using d r l tracked_down [OF tr, of ?ob "[]"] by (auto simp: recover_intent_records_def)
  next
    case (Inr rs)
    then have rs: "rs = map snd (st_responses p)" and ob': "ob' = rebroadcast E rs ?ob" "r = Inr ()"
      using d r l by (auto simp: recover_intent_records_def)
    have "tracked E ?ob (map hash_key (List.map_filter (intent_broadcast E) rs))"
      using tr d owes_recovery [OF env, of "st_responses p" "submitted_pivots ob"] up_back [of "persistence ob" p]
      by (simp add: tracked_def store_ext_def rs)
    from rebroadcast_tracked [OF env this] show ?thesis
      using d store_ext_trans [of "persistence ob" p] by (simp add: ob')
  qed
qed

section \<open>What an iteration may do\<close>

text \<open>A record of a game, as it is kept in memory and on disk under the game's id.\<close>

definition record_ok :: "ObserverConfig \<Rightarrow> u128 \<Rightarrow> GameRecord \<Rightarrow> bool" where
  "record_ok c g r \<longleftrightarrow> rec_game_id r = g \<and> rec_me r = play_as c \<and> game_deployment_id (rec_state r) = oc_deployment_id c \<and>
     (state_known r \<longleftrightarrow> disputed_log_index r \<noteq> None)"

definition call_key :: "QueuedCall \<Rightarrow> pivot" where
  "call_key call = (qc_game_id call, qc_move_kind call, qc_pivot_idx call)"

text \<open>
  A call that is due: the honest move of a game whose state is known, in progress and waiting for
  this side, or the claim of a win when the opponent's deadline, as just read, has passed.
\<close>

definition honest_call :: "'n Env \<Rightarrow> 'n Observer \<Rightarrow> GameRecord \<Rightarrow> QueuedCall \<Rightarrow> bool" where
  "honest_call E ob r call \<longleftrightarrow> (\<exists>mv. state_known r \<and> is_in_progress (game_status (rec_state r)) \<and> turn (rec_state r) = rec_me r \<and>
     compute_next_move (commit_at E (world ob)) (rec_state r) (rec_me r) = Inr mv \<and> mv \<noteq> HonestMove.NoMove \<and>
     build_calldata_for_move E ob r mv = Some (qc_calldata call) \<and>
     call_key call = (rec_game_id r, move_kind_of mv, pivot_for_move (rec_state r) mv))"

definition timeout_call :: "'n Env \<Rightarrow> 'n Observer \<Rightarrow> u128 \<Rightarrow> GameRecord \<Rightarrow> QueuedCall \<Rightarrow> bool" where
  "timeout_call E ob g r call \<longleftrightarrow> is_in_progress (game_status (rec_state r)) \<and> turn (rec_state r) \<noteq> rec_me r \<and>
     (\<exists>d. turn_deadline r = Some d \<and> d < cursor_or_zero ob) \<and>
     qc_calldata call = encode_claim_timeout_calldata (keccak E) g \<and> call_key call = (g, Timeout, None)"

definition justified :: "'n Env \<Rightarrow> 'n Observer \<Rightarrow> QueuedCall \<Rightarrow> bool" where
  "justified E ob call \<longleftrightarrow> (\<exists>g r. bt_get (games ob) g = Some r \<and> (honest_call E ob r call \<or> timeout_call E ob g r call))"

text \<open>The single steps of the handlers and sweeps.\<close>

inductive act :: "'n Env \<Rightarrow> 'n Observer \<times> PersistBatch \<Rightarrow> 'n Observer \<times> PersistBatch \<Rightarrow> bool" for E where
  outside: "act E (ob, b) (ob\<lparr>world := n\<rparr>, b)"
| game: "(case bt_get (games ob) g of None \<Rightarrow> record_ok (ob_config ob) g r
      | Some r0 \<Rightarrow> record_ok (ob_config ob) g r0 \<longrightarrow> record_ok (ob_config ob) g r) \<Longrightarrow> act E (ob, b) (put_game ob b g r)"
| root: "act E (ob, b) (ob\<lparr>batches := bt_insert (end_index br) br (batches ob)\<rparr>, upsert_batch b br)"
| queue: "justified E ob call \<Longrightarrow> call_key call \<notin> submitted_pivots ob \<Longrightarrow> queue_l1_call E ob call block b = (q, ob', b') \<Longrightarrow>
    act E (ob, b) (ob', b')"

abbreviation acts :: "'n Env \<Rightarrow> 'n Observer \<times> PersistBatch \<Rightarrow> 'n Observer \<times> PersistBatch \<Rightarrow> bool" where
  "acts E \<equiv> (act E)\<^sup>*\<^sup>*"

lemma acts_game:
  assumes "case bt_get (games ob) g of None \<Rightarrow> record_ok (ob_config ob) g r
      | Some r0 \<Rightarrow> record_ok (ob_config ob) g r0 \<longrightarrow> record_ok (ob_config ob) g r"
  shows "acts E (ob, b) (put_game ob b g r)"
  using game [OF assms] by blast

lemma play_acts:
  assumes m: "maybe_play_move E ob r block b = (res, ob', b')" and g: "bt_get (games ob) g = Some r"
  shows "acts E (ob, b) (ob', b')"
proof (cases "ob' = ob \<and> b' = b")
  case False
  then obtain mv calldata q where h: "is_in_progress (game_status (rec_state r))" "turn (rec_state r) = rec_me r" "state_known r"
      "compute_next_move (commit_at E (world ob)) (rec_state r) (rec_me r) = Inr mv" "mv \<noteq> HonestMove.NoMove"
      "build_calldata_for_move E ob r mv = Some calldata"
      "\<not> has_submitted_for_pivot ob (rec_game_id r) (move_kind_of mv) (pivot_for_move (rec_state r) mv)"
    and q: "queue_l1_call E ob \<lparr>qc_game_id = rec_game_id r, qc_depth = game_depth (rec_state r), qc_calldata = calldata,
        qc_move_kind = move_kind_of mv, qc_pivot_idx = pivot_for_move (rec_state r) mv\<rparr> block b = (q, ob', b')"
    using m by (auto simp: maybe_play_move_def Let_def split: if_splits sum.splits HonestMoveError.splits option.splits prod.splits)
  let ?call = "\<lparr>qc_game_id = rec_game_id r, qc_depth = game_depth (rec_state r), qc_calldata = calldata,
        qc_move_kind = move_kind_of mv, qc_pivot_idx = pivot_for_move (rec_state r) mv\<rparr>"
  have "honest_call E ob r ?call" unfolding honest_call_def using h by (intro exI [of _ mv]) (simp add: call_key_def)
  then have "justified E ob ?call" unfolding justified_def using g by blast
  moreover have "call_key ?call \<notin> submitted_pivots ob" using h(7) by (simp add: call_key_def has_submitted_for_pivot_def)
  ultimately show ?thesis using queue [OF _ _ q] by blast
qed simp

lemma transition_deployment: "apply_transition gs tr = Inr gs' \<Longrightarrow> game_deployment_id gs' = game_deployment_id gs"
  by (cases tr) (auto simp: apply_submit_midpoint_def apply_respond_def apply_terminate_on_single_step_def apply_timeout_def
    Let_def res_bind_Inr_iff split: if_splits)

lemma play_after_acts:
  assumes p: "play_after E ob g r gs' block b = (h, ob', b')" and g: "bt_get (games ob) g = Some r"
    and d: "game_deployment_id gs' = game_deployment_id (rec_state r)"
  shows "acts E (ob, b) (ob', b')"
proof -
  let ?r = "r\<lparr>rec_state := gs', last_updated_block := block, turn_deadline := None\<rparr>"
  obtain ob1 b1 where pg: "put_game ob b g ?r = (ob1, b1)" by fastforce
  obtain res where m: "maybe_play_move E ob1 ?r block b1 = (res, ob', b')"
    using p pg by (auto simp: play_after_def Let_def split: prod.splits)
  have "acts E (ob, b) (ob1, b1)"
    using acts_game [of ob g ?r E b] g d pg by (simp add: record_ok_def)
  moreover have "bt_get (games ob1) g = Some ?r" using pg by (auto simp: put_game_def)
  ultimately show ?thesis using play_acts [OF m] by (meson rtranclp_trans)
qed

lemma bisection_acts:
  assumes g: "bt_get (games ob) g = Some r"
    and c: "(ob', b') = (ob, b) \<or> (ob', b') = put_game ob b g r' \<or>
      (\<exists>gs'. apply_transition (rec_state r) tr = Inr gs' \<and> play_after E ob g r gs' block b = (h, ob', b'))"
    and ok: "record_ok (ob_config ob) g r \<Longrightarrow> record_ok (ob_config ob) g r'"
  shows "acts E (ob, b) (ob', b')"
  using c
proof (elim disjE exE conjE)
  assume "(ob', b') = put_game ob b g r'"
  then show ?thesis using acts_game [of ob g r' E b] g ok by simp
next
  fix gs' assume "apply_transition (rec_state r) tr = Inr gs'" "play_after E ob g r gs' block b = (h, ob', b')"
  then show ?thesis using play_after_acts [OF _ g transition_deployment] by blast
qed simp

lemma midpoint_acts:
  assumes "handle_midpoint_submitted E ob g i c block b = (h, ob', b')"
  shows "acts E (ob, b) (ob', b')"
proof (cases "bt_get (games ob) g")
  case None
  then show ?thesis using assms by (simp add: handle_midpoint_submitted_def)
next
  case (Some r)
  define tr where "tr = GameTransition.SubmitMidpoint c"
  let ?cold = "r\<lparr>rec_state := rec_state r\<lparr>pending_midpoint := Some \<lparr>claim_idx = i, claim_commit = c\<rparr>,
    turn := flip (turn (rec_state r))\<rparr>, last_updated_block := block\<rparr>"
  have "(ob', b') = (ob, b) \<or> (ob', b') = put_game ob b g ?cold \<or>
      (\<exists>gs'. apply_transition (rec_state r) tr = Inr gs' \<and> play_after E ob g r gs' block b = (h, ob', b'))"
    using assms Some unfolding handle_midpoint_submitted_def tr_def [symmetric] Let_def
    by (auto split: if_splits sum.splits)
  then show ?thesis by (rule bisection_acts [OF Some]) (simp add: record_ok_def)
qed

lemma response_acts:
  assumes "handle_response_submitted E ob g agree block b = (h, ob', b')"
  shows "acts E (ob, b) (ob', b')"
proof (cases "bt_get (games ob) g")
  case None
  then show ?thesis using assms by (simp add: handle_response_submitted_def)
next
  case (Some r)
  define tr where "tr = (if agree then GameTransition.RespondAgree else GameTransition.RespondDisagree)"
  let ?cold = "r\<lparr>rec_state := rec_state r\<lparr>pending_midpoint := None, turn := flip (turn (rec_state r)),
    game_depth := min (wsat_add (game_depth (rec_state r)) 1) (MAX_BISECTION_DEPTH + 1)\<rparr>, last_updated_block := block\<rparr>"
  have "(ob', b') = (ob, b) \<or> (ob', b') = put_game ob b g ?cold \<or>
      (\<exists>gs'. apply_transition (rec_state r) tr = Inr gs' \<and> play_after E ob g r gs' block b = (h, ob', b'))"
    using assms Some unfolding handle_response_submitted_def tr_def [symmetric] Let_def
    by (auto split: if_splits sum.splits)
  then show ?thesis by (rule bisection_acts [OF Some]) (simp add: record_ok_def)
qed

lemma settled_acts:
  assumes "handle_game_settled ob g s block b = (h, ob', b')"
  shows "acts E (ob, b) (ob', b')"
proof -
  have "(ob', b') = (ob, b) \<or> (\<exists>r gs'. bt_get (games ob) g = Some r \<and> apply_settlement (rec_state r) s = Inr gs' \<and>
      (ob', b') = put_game ob b g (r\<lparr>rec_state := gs', last_updated_block := block, turn_deadline := None\<rparr>))"
    using assms by (auto simp: handle_game_settled_def split: option.splits if_splits sum.splits)
  then show ?thesis
  proof (elim disjE exE conjE)
    fix r gs' assume "bt_get (games ob) g = Some r" "apply_settlement (rec_state r) s = Inr gs'"
      "(ob', b') = put_game ob b g (r\<lparr>rec_state := gs', last_updated_block := block, turn_deadline := None\<rparr>)"
    then show ?thesis using acts_game [of ob g "r\<lparr>rec_state := gs', last_updated_block := block, turn_deadline := None\<rparr>" E b]
      by (auto simp: record_ok_def apply_settlement_def split: if_splits)
  qed simp
qed

lemma opened_acts:
  assumes "handle_game_opened ob g root block b = (h, ob', b')"
  shows "acts E (ob, b) (ob', b')"
proof (cases "bt_get (games ob) g = None")
  case True
  let ?r = "adopted_record (ob_config ob) g root block"
  have "record_ok (ob_config ob) g ?r" by (simp add: record_ok_def adopted_record_def)
  then show ?thesis using acts_game [of ob g ?r E b] True assms by (simp add: handle_game_opened_def)
next
  case False
  then show ?thesis using assms by (simp add: handle_game_opened_def)
qed

lemma event_acts:
  assumes "handle_event E ob e b = (h, ob', b')"
  shows "acts E (ob, b) (ob', b')"
  using assms
proof (cases e)
  case (StateRootSubmitted i c s p a blk tx l)
  let ?br = "\<lparr>end_index = i, prev_end_index = p, batch_actions_root = a, batch_state_commit = c, batch_block_number = blk\<rparr>"
  show ?thesis using assms root [of E ob b ?br] by (auto simp: StateRootSubmitted Let_def)
qed (auto intro: opened_acts midpoint_acts response_acts settled_acts)

lemma events_acts: "handle_events E es ob b n = (n', ob', b') \<Longrightarrow> acts E (ob, b) (ob', b')"
proof (induction es arbitrary: ob b n)
  case (Cons e es)
  obtain h ob1 b1 where e: "handle_event E ob e b = (h, ob1, b1)" using prod_cases3 by blast
  then show ?case using Cons event_acts [OF e] by (auto simp: Let_def intro: rtranclp_trans)
qed simp

lemma play_keeps_games: "maybe_play_move E ob r block b = (res, ob', b') \<Longrightarrow> games ob' = games ob"
  by (auto simp: maybe_play_move_def queue_l1_call_def Let_def
    split: if_splits sum.splits HonestMoveError.splits option.splits prod.splits)

lemma owed_acts:
  "play_owed E block rs ob b n = (n', ob', b') \<Longrightarrow> \<forall>r \<in> set rs. \<exists>g. bt_get (games ob) g = Some r \<Longrightarrow> acts E (ob, b) (ob', b')"
proof (induction rs arbitrary: ob b n)
  case (Cons r rs)
  obtain res ob1 b1 where m: "maybe_play_move E ob r block b = (res, ob1, b1)" using prod_cases3 by blast
  obtain g where "bt_get (games ob) g = Some r" using Cons.prems(2) by auto
  then show ?case using Cons.IH [of ob1 b1] Cons.prems m play_acts [OF m] play_keeps_games [OF m]
    by (auto simp: Let_def intro: rtranclp_trans)
qed simp

lemma games_where_mem: "(g, r) \<in> set (games_where E ob P) \<Longrightarrow> bt_get (games ob) g = Some r \<and> P r"
  by (auto simp: games_where_def map_filter_def)

lemma games_where_records:
  assumes "r \<in> set (map snd (games_where E ob P))"
  shows "\<exists>g. bt_get (games ob) g = Some r"
proof -
  obtain g where "(g, r) \<in> set (games_where E ob P)" using assms by auto
  from games_where_mem [OF this] show ?thesis by blast
qed

lemma sweep_owed_acts: "sweep_owed_moves E ob b = (n, ob', b') \<Longrightarrow> acts E (ob, b) (ob', b')"
  unfolding sweep_owed_moves_def Let_def by (erule owed_acts) (use games_where_records in blast)

lemma queue_frame:
  assumes "queue_l1_call E ob call block b = (q, ob', b')"
  shows "games ob' = games ob" "ob_config ob' = ob_config ob" "persistence ob' = persistence ob" "ob_watcher ob' = ob_watcher ob"
    "pb_games b' = pb_games b" "submitted_pivots ob' \<subseteq> insert (call_key call) (submitted_pivots ob)"
  using assms by (auto simp: queue_l1_call_def call_key_def upsert_response_def Let_def split: prod.splits sum.splits)

lemma claim_acts:
  assumes env: "env_ok E" and c: "claim_if_lapsed E now g ob b = (q, ob', b')" and now: "now = cursor_or_zero ob"
    and fresh: "(g, Timeout, None) \<notin> submitted_pivots ob"
  shows "acts E (ob, b) (ob', b') \<and> submitted_pivots ob' \<subseteq> insert (g, Timeout, None) (submitted_pivots ob) \<and> ob_watcher ob' = ob_watcher ob"
proof -
  obtain res n where rd: "read_and_validate E (world ob) g (oc_deployment_id (ob_config ob)) = (res, n)" by fastforce
  let ?ob = "ob\<lparr>world := n\<rparr>"
  have out: "acts E (ob, b) (?ob, b)" using outside [of E ob b n] by (rule r_into_rtranclp)
  show ?thesis
  proof (cases "\<exists>obs r. res = Inr obs \<and> bt_get (games ob) g = Some r")
    case False
    then show ?thesis using c rd out by (auto simp: claim_if_lapsed_def Let_def split: sum.splits option.splits)
  next
    case True
    then obtain obs r where o: "res = Inr obs" "bt_get (games ob) g = Some r" by blast
    let ?r = "r\<lparr>rec_state := obs_state obs, turn_deadline := Some (obs_turn_deadline obs), last_updated_block := now\<rparr>"
    obtain ob1 b1 where pg: "put_game ?ob b g ?r = (ob1, b1)" by fastforce
    have "observed_ok (oc_deployment_id (ob_config ob)) obs" using env_read [OF env] rd o(1) by simp
    then have "acts E (?ob, b) (put_game ?ob b g ?r)" using o(2)
      by (intro acts_game) (simp add: record_ok_def observed_ok_def)
    then have a: "acts E (ob, b) (ob1, b1)" using out pg by (metis rtranclp_trans)
    have f: "submitted_pivots ob1 = submitted_pivots ob" "ob_watcher ob1 = ob_watcher ob" "bt_get (games ob1) g = Some ?r"
      using pg by (auto simp: put_game_def)
    let ?call = "\<lparr>qc_game_id = g, qc_depth = game_depth (obs_state obs), qc_calldata = encode_claim_timeout_calldata (keccak E) g,
      qc_move_kind = Timeout, qc_pivot_idx = None\<rparr>"
    show ?thesis
    proof (cases "is_in_progress (game_status (obs_state obs)) \<and> turn (obs_state obs) \<noteq> rec_me r \<and> obs_turn_deadline obs < now")
      case False
      then have "ob' = ob1 \<and> b' = b1" using c rd o pg
        by (auto simp: claim_if_lapsed_def Let_def split: if_splits)
      then show ?thesis using a f by auto
    next
      case True
      then have q: "queue_l1_call E ob1 ?call now b1 = (q, ob', b')" using c rd o pg
        by (auto simp: claim_if_lapsed_def Let_def split: if_splits)
      have "timeout_call E ob1 g ?r ?call" using True now f(2) by (simp add: timeout_call_def call_key_def cursor_or_zero_def)
      then have "justified E ob1 ?call" unfolding justified_def using f(3) by blast
      then have "act E (ob1, b1) (ob', b')" using queue [OF _ _ q] fresh f(1) by (simp add: call_key_def)
      then show ?thesis using a f queue_frame [OF q] by (auto simp: call_key_def intro: rtranclp.rtrancl_into_rtrancl)
    qed
  qed
qed

lemma lapsed_acts:
  assumes "env_ok E" "claim_lapsed E now gs ob b n = (n', ob', b')" "now = cursor_or_zero ob" "distinct gs"
    "\<forall>g \<in> set gs. (g, Timeout, None) \<notin> submitted_pivots ob"
  shows "acts E (ob, b) (ob', b')"
  using assms(2-)
proof (induction gs arbitrary: ob b n)
  case (Cons g gs)
  obtain q ob1 b1 where c: "claim_if_lapsed E now g ob b = (q, ob1, b1)" using prod_cases3 by blast
  have s: "acts E (ob, b) (ob1, b1)" "submitted_pivots ob1 \<subseteq> insert (g, Timeout, None) (submitted_pivots ob)" "ob_watcher ob1 = ob_watcher ob"
    using claim_acts [OF assms(1) c Cons.prems(2)] Cons.prems(4) by auto
  have "acts E (ob1, b1) (ob', b')"
    using Cons.prems c s by (intro Cons.IH) (auto simp: Let_def cursor_or_zero_def)
  then show ?case using s(1) by (rule rtranclp_trans [rotated])
qed simp

text \<open>The records in memory, those waiting in the batch and those on disk.\<close>

definition games_ok :: "ObserverConfig \<Rightarrow> (u128, GameRecord) btree \<Rightarrow> bool" where
  "games_ok c m \<longleftrightarrow> bt_wf m \<and> (\<forall>g r. bt_get m g = Some r \<longrightarrow> record_ok c g r)"

lemma games_ok_insert: "games_ok c m \<Longrightarrow> record_ok c g r \<Longrightarrow> games_ok c (bt_insert g r m)"
  by (simp add: games_ok_def)

lemma candidates_distinct:
  assumes "env_ok E" "games_ok c (games ob)"
  shows "distinct (map (rec_game_id \<circ> snd) (games_where E ob P))"
proof -
  let ?ks = "iter_order E (world ob) (map fst (games ob))"
  have d: "distinct ?ks" using env_iter [OF assms(1)] bt_wf_distinct [of "games ob"] assms(2) by (simp add: games_ok_def)
  have "distinct (map fst (List.map_filter (\<lambda>g. map_option (Pair g) (bt_get (games ob) g)) ks))" if "distinct ks" for ks
    using that by (induction ks) (auto simp: map_filter_def)
  then have "distinct (map fst (games_where E ob P))" using d by (simp add: games_where_def distinct_map_filter)
  moreover have "map (rec_game_id \<circ> snd) (games_where E ob P) = map fst (games_where E ob P)"
  proof (rule map_cong [OF refl])
    fix x assume x: "x \<in> set (games_where E ob P)"
    obtain g r where "x = (g, r)" by (cases x)
    then show "(rec_game_id \<circ> snd) x = fst x"
      using games_where_mem [of g r E ob P] x assms(2) by (simp add: games_ok_def record_ok_def)
  qed
  ultimately show ?thesis by (simp only:)
qed

lemma sweep_timeout_acts:
  assumes "env_ok E" "games_ok c (games ob)" "sweep_timeout_claims E ob b = (n, ob', b')"
  shows "acts E (ob, b) (ob', b')"
proof (cases "has_state_reader ob")
  case True
  let ?P = "\<lambda>r. state_known r \<and> is_in_progress (game_status (rec_state r)) \<and>
    turn (rec_state r) \<noteq> rec_me r \<and> (case turn_deadline r of None \<Rightarrow> True | Some d \<Rightarrow> d < cursor_or_zero ob) \<and>
    \<not> has_submitted_for_pivot ob (rec_game_id r) Timeout None"
  have run: "claim_lapsed E (cursor_or_zero ob) (map (rec_game_id \<circ> snd) (games_where E ob ?P)) ob b 0 = (n, ob', b')"
    using assms(3) True unfolding sweep_timeout_claims_def Let_def by simp
  have "(g, Timeout, None) \<notin> submitted_pivots ob" if m: "g \<in> set (map (rec_game_id \<circ> snd) (games_where E ob ?P))" for g
  proof -
    obtain x where x: "x \<in> set (games_where E ob ?P)" "g = (rec_game_id \<circ> snd) x" using m unfolding set_map by blast
    obtain h r where hr: "x = (h, r)" by (cases x)
    have "\<not> has_submitted_for_pivot ob (rec_game_id r) Timeout None" using games_where_mem [of h r E ob ?P] x(1) hr by blast
    then show ?thesis using x(2) hr by (simp add: has_submitted_for_pivot_def)
  qed
  then show ?thesis using lapsed_acts [OF assms(1) run refl candidates_distinct [OF assms(1,2)]] by blast
qed (use assms in \<open>simp add: sweep_timeout_claims_def\<close>)

section \<open>What the steps keep\<close>

definition staged_ok :: "ObserverConfig \<Rightarrow> 'n Observer \<times> PersistBatch \<Rightarrow> bool" where
  "staged_ok c s \<longleftrightarrow> ob_config (fst s) = c \<and> games_ok c (games (fst s)) \<and> (\<forall>r \<in> set (pb_games (snd s)). record_ok c (rec_game_id r) r)"

lemma act_staged: "act E s s' \<Longrightarrow> staged_ok c s \<Longrightarrow> staged_ok c s'"
proof (induction rule: act.induct)
  case (game ob g r b)
  then have "record_ok c g r" by (auto simp: staged_ok_def games_ok_def split: option.splits)
  then show ?case using game by (auto simp: staged_ok_def put_game_def upsert_game_def games_ok_insert record_ok_def)
next
  case (queue ob call block b q ob' b')
  then show ?case using queue_frame [OF queue.hyps(3)] by (simp add: staged_ok_def)
qed (auto simp: staged_ok_def upsert_batch_def)

lemma act_store: "act E s s' \<Longrightarrow> persistence (fst s') = persistence (fst s) \<and> ob_watcher (fst s') = ob_watcher (fst s)"
  by (induction rule: act.induct) (auto simp: put_game_def dest: queue_frame)

text \<open>The responses in the batch match the broadcasts to make, and their moves are new.\<close>

definition matches :: "'n Env \<Rightarrow> ResponseRecord \<Rightarrow> PendingBroadcast \<Rightarrow> bool" where
  "matches E r p \<longleftrightarrow> resp_status r = Intent \<and> resp_key r = pending_key p \<and> length (ptx_hash (prepared p)) = 32 \<and>
     tx_hash_hex r = hex_encode E (ptx_hash (prepared p))"

definition queue_ok :: "'n Env \<Rightarrow> 'n Observer \<times> PersistBatch \<Rightarrow> bool" where
  "queue_ok E s \<longleftrightarrow> (let t = st_responses (persistence (fst s)); S = submitted_pivots (fst s); ps = pending_broadcasts (fst s) in
     reserved t S \<and> list_all2 (matches E) (pb_responses (snd s)) ps \<and> distinct (map pending_key ps) \<and>
     set (map pending_key ps) \<subseteq> S \<and> (\<forall>h r. bt_get t h = Some r \<and> live r \<longrightarrow> resp_key r \<notin> set (map pending_key ps)))"

lemma act_queue:
  assumes "env_ok E"
  shows "act E s s' \<Longrightarrow> queue_ok E s \<Longrightarrow> queue_ok E s'"
proof (induction rule: act.induct)
  case (queue ob call block b q ob' b')
  obtain res n where bs: "build_and_sign E (world ob) (qc_calldata call) = (res, n)" by fastforce
  show ?case
  proof (cases res)
    case (Inl e)
    then show ?thesis using queue bs by (auto simp: queue_l1_call_def queue_ok_def)
  next
    case (Inr tx)
    let ?p = "\<lparr>prepared = tx, pb_game_id = qc_game_id call, pb_pivot_idx = qc_pivot_idx call, pb_move_kind = qc_move_kind call\<rparr>"
    let ?r = "\<lparr>tx_hash_hex = hex_encode E (ptx_hash tx), raw_tx_hex = Some (hex_encode E (ptx_raw tx)),
      resp_game_id = qc_game_id call, resp_status = Intent, submitted_at_block = block, resp_depth = qc_depth call,
      resp_pivot_idx = qc_pivot_idx call, resp_move_kind = qc_move_kind call\<rparr>"
    have o: "pending_broadcasts ob' = pending_broadcasts ob @ [?p]" "submitted_pivots ob' = insert (call_key call) (submitted_pivots ob)"
        "persistence ob' = persistence ob" "pb_responses b' = pb_responses b @ [?r]"
      using queue.hyps(3) bs Inr by (auto simp: queue_l1_call_def call_key_def upsert_response_def Let_def)
    have m: "matches E ?r ?p" "pending_key ?p = call_key call"
      using env_sign [OF assms] bs Inr by (auto simp: matches_def resp_key_def pending_key_def call_key_def)
    have new: "call_key call \<notin> set (map pending_key (pending_broadcasts ob))"
      using queue.prems queue.hyps(2) by (auto simp: queue_ok_def Let_def)
    have fresh: "resp_key r \<notin> set (map pending_key (pending_broadcasts ob @ [?p]))"
      if "bt_get (st_responses (persistence ob)) h = Some r" "live r" for h r
    proof -
      have "resp_key r \<in> submitted_pivots ob" "resp_key r \<notin> set (map pending_key (pending_broadcasts ob))"
        using queue.prems that unfolding queue_ok_def reserved_def Let_def fst_conv by blast+
      then show ?thesis using queue.hyps(2) m(2) by auto
    qed
    have "list_all2 (matches E) (pb_responses b @ [?r]) (pending_broadcasts ob @ [?p])"
      using queue.prems m(1) by (simp add: queue_ok_def Let_def list_all2_appendI)
    moreover have "reserved (st_responses (persistence ob)) (insert (call_key call) (submitted_pivots ob))"
      using queue.prems unfolding queue_ok_def reserved_def Let_def fst_conv by blast
    moreover have "distinct (map pending_key (pending_broadcasts ob @ [?p]))"
        "set (map pending_key (pending_broadcasts ob @ [?p])) \<subseteq> insert (call_key call) (submitted_pivots ob)"
      using queue.prems m(2) new by (auto simp: queue_ok_def Let_def)
    ultimately show ?thesis
      using fresh unfolding queue_ok_def Let_def fst_conv snd_conv o by blast
  qed
qed (auto simp: queue_ok_def put_game_def upsert_game_def upsert_batch_def Let_def)

lemma acts_keep:
  assumes "acts E s s'"
  shows "persistence (fst s') = persistence (fst s) \<and> ob_watcher (fst s') = ob_watcher (fst s)" "staged_ok c s \<Longrightarrow> staged_ok c s'"
    "env_ok E \<Longrightarrow> queue_ok E s \<Longrightarrow> queue_ok E s'"
  using assms by (induction rule: rtranclp_induct) (auto dest: act_store act_staged act_queue)

section \<open>The commit\<close>

lemma put_responses_effect:
  assumes "env_ok E" "list_all2 (matches E) rs ps" "table_ok E t"
  shows "\<exists>t'. put_responses (hex_encode E) (hex_decode E) rs t = Inr t' \<and> table_ok E t' \<and>
    (\<forall>h. h \<notin> set (map fst (map hash_key ps)) \<longrightarrow> bt_get t' h = bt_get t h) \<and>
    (\<forall>h k. map_of (rev (map hash_key ps)) h = Some k \<longrightarrow> (\<exists>r. bt_get t' h = Some r \<and> resp_key r = k)) \<and>
    (\<forall>h r. bt_get t' h = Some r \<longrightarrow> bt_get t h = Some r \<or> (h, resp_key r) \<in> set (map hash_key ps))"
  using assms(2,3)
proof (induction rs ps arbitrary: t rule: list_all2_induct)
  case (Cons r rs p ps)
  let ?h = "ptx_hash (prepared p)" and ?r = "r\<lparr>tx_hash_hex := hex_encode E (ptx_hash (prepared p))\<rparr>"
  have m: "length ?h = 32" "tx_hash_hex r = hex_encode E ?h" "resp_key ?r = pending_key p"
    using Cons.hyps(1) by (auto simp: matches_def resp_key_def)
  obtain t' where t': "put_responses (hex_encode E) (hex_decode E) rs (bt_insert ?h ?r t) = Inr t'" "table_ok E t'"
      "\<And>h. h \<notin> set (map fst (map hash_key ps)) \<Longrightarrow> bt_get t' h = bt_get (bt_insert ?h ?r t) h"
      "\<And>h k. map_of (rev (map hash_key ps)) h = Some k \<Longrightarrow> \<exists>r. bt_get t' h = Some r \<and> resp_key r = k"
      "\<And>h r'. bt_get t' h = Some r' \<Longrightarrow> bt_get (bt_insert ?h ?r t) h = Some r' \<or> (h, resp_key r') \<in> set (map hash_key ps)"
    using Cons.IH [OF table_ok_insert [OF Cons.prems m(1), of r]] by blast
  have put: "put_responses (hex_encode E) (hex_decode E) (r # rs) t = Inr t'"
    using t'(1) parse_canonical [OF assms(1) m(1)] m(2) by simp
  have hk: "hash_key p = (?h, pending_key p)" by (simp add: hash_key_def)
  have last: "\<exists>r. bt_get t' h = Some r \<and> resp_key r = k" if "map_of (rev (map hash_key (p # ps))) h = Some k" for h k
  proof (cases "map_of (rev (map hash_key ps)) h")
    case None
    then have "h = ?h" "k = pending_key p" using that hk by (auto simp: map_add_def split: if_splits)
    moreover have "h \<notin> set (map fst (map hash_key ps))" using None by (simp add: map_of_eq_None_iff image_image)
    ultimately show ?thesis using t'(3) m(3) by simp
  next
    case (Some k')
    then show ?thesis using that t'(4) [OF Some] by (simp add: map_add_def)
  qed
  have "bt_get t h = Some r' \<or> (h, resp_key r') \<in> set (map hash_key (p # ps))" if "bt_get t' h = Some r'" for h r'
    using t'(5) [OF that] m(3) hk by (auto split: if_splits)
  then show ?case using put t'(2,3) last hk by (intro exI [of _ t']) auto
qed (auto intro!: exI [of _ t])

text \<open>A committed batch owes exactly its broadcasts.\<close>

lemma commit_owes:
  assumes env: "env_ok E" and one: "one_live t" and tok: "table_ok E t" and q: "queue_ok E (ob, b)"
    and t: "t = st_responses (persistence ob)"
  shows "\<exists>t'. put_responses (hex_encode E) (hex_decode E) (pb_responses b) t = Inr t' \<and> table_ok E t' \<and> one_live t' \<and>
    reserved t' (submitted_pivots ob) \<and> owes t' (submitted_pivots ob) (map hash_key (pending_broadcasts ob))"
proof -
  let ?S = "submitted_pivots ob" and ?ps = "pending_broadcasts ob" and ?H = "map hash_key (pending_broadcasts ob)"
  have res: "reserved t ?S" and m: "list_all2 (matches E) (pb_responses b) ?ps" and d: "distinct (map snd ?H)"
    and sub: "set (map snd ?H) \<subseteq> ?S"
    and old: "\<And>h r. bt_get t h = Some r \<Longrightarrow> live r \<Longrightarrow> resp_key r \<notin> set (map snd ?H)"
    using q by (auto simp: queue_ok_def Let_def t comp_def hash_key_def)
  obtain t' where t': "put_responses (hex_encode E) (hex_decode E) (pb_responses b) t = Inr t'" "table_ok E t'"
    and M: "\<And>h k. map_of (rev ?H) h = Some k \<Longrightarrow> \<exists>r. bt_get t' h = Some r \<and> resp_key r = k"
    and src: "\<And>h r. bt_get t' h = Some r \<Longrightarrow> bt_get t h = Some r \<or> (h, resp_key r) \<in> set ?H"
    using put_responses_effect [OF env m tok] by blast
  have key: "k \<in> set (map snd ?H)" if "(h, k) \<in> set ?H" for h k
    using imageI [OF that, of snd] by (simp add: image_image)
  have U: "(h, resp_key r) \<in> set ?H" if "bt_get t' h = Some r" "live r" "resp_key r \<in> set (map snd ?H)" for h r
    using src [OF that(1)] old [of h r] that(2,3) by blast
  have "one_live t'"
    unfolding one_live_def
  proof (intro allI impI, elim conjE)
    fix h h' r r'
    assume a: "bt_get t' h = Some r" "live r" and b: "bt_get t' h' = Some r'" "live r'" and e: "resp_key r = resp_key r'"
    show "h = h'"
    proof (cases "resp_key r \<in> set (map snd ?H)")
      case True
      then have "(h, resp_key r) \<in> set ?H" "(h', resp_key r) \<in> set ?H" using U [OF a] U [OF b] e by simp_all
      then show ?thesis using distinct_snd [OF d] by blast
    next
      case False
      then have "bt_get t h = Some r" "bt_get t h' = Some r'" using src [OF a(1)] src [OF b(1)] key e by metis+
      then show ?thesis using one a(2) b(2) e unfolding one_live_def by blast
    qed
  qed
  moreover have "reserved t' ?S"
    using res src key sub unfolding reserved_def by blast
  moreover have "owes t' ?S ?H" unfolding owes_def using d sub M U by blast
  ultimately show ?thesis using t' by blast
qed

lemma games_ok_fold: "games_ok c m \<Longrightarrow> \<forall>r \<in> set rs. record_ok c (rec_game_id r) r \<Longrightarrow>
    games_ok c (fold (\<lambda>r. bt_insert (rec_game_id r) r) rs m)"
  by (induction rs arbitrary: m) (auto intro: games_ok_insert)

lemma commit_games:
  assumes "commit_batch enc dec p b = (r, p')" "games_ok c (st_games p)" "\<forall>r \<in> set (pb_games b). record_ok c (rec_game_id r) r"
  shows "games_ok c (st_games p')"
  using assms games_ok_fold [of c "st_games p" "pb_games b"]
  by (auto simp: commit_batch_def disk_write_def Let_def split: sum.splits if_splits)

lemma commit_tracked:
  assumes env: "env_ok E" and tr: "tracked E ob []" and q: "up (persistence ob) \<Longrightarrow> queue_ok E (ob, b)"
    and c: "commit_batch (hex_encode E) (hex_decode E) (persistence ob) b = (r, p)"
  shows "case r of
      Inl e \<Rightarrow> \<not> up p \<and> tracked E (ob\<lparr>persistence := p\<rparr>) hks
    | Inr u \<Rightarrow> tracked E (ob\<lparr>persistence := p\<rparr>) (map hash_key (pending_broadcasts ob))"
proof -
  let ?P = "persistence ob"
  note ext = commit_ext [OF c]
  have fs: "fail_stop (disk ?P)" and tok: "table_ok E (st_responses ?P)" and one: "one_live (st_responses ?P)"
    using tr by (simp_all add: tracked_def)
  show ?thesis
  proof (cases "disk ?P (ops ?P)")
    case False
    then have "st_responses p = st_responses ?P \<and> \<not> up p"
      using c by (auto simp: commit_batch_def disk_write_def up_def Let_def split: sum.splits if_splits)
    moreover have "r = Inr u \<Longrightarrow> False" for u
      using c False by (auto simp: commit_batch_def disk_write_def Let_def split: sum.splits if_splits)
    ultimately show ?thesis using tracked_down [OF tr, of "ob\<lparr>persistence := p\<rparr>"] ext(1) by (auto split: sum.split)
  next
    case True
    then have "up ?P" using down_fails [OF fs] by blast
    obtain t' where t': "put_responses (hex_encode E) (hex_decode E) (pb_responses b) (st_responses ?P) = Inr t'" "table_ok E t'"
        "one_live t'" "reserved t' (submitted_pivots ob)" "owes t' (submitted_pivots ob) (map hash_key (pending_broadcasts ob))"
      using commit_owes [OF env one tok q [OF \<open>up ?P\<close>] refl] by blast
    have "r = Inr ()" "st_responses p = t'" "disk p = disk ?P"
      using c t'(1) True by (auto simp: commit_batch_def disk_write_def Let_def)
    then show ?thesis using t' fs by (simp add: tracked_def)
  qed
qed

section \<open>An iteration\<close>

text \<open>
  What holds of a process between two iterations, whatever has failed: its table and reservations,
  nothing left to broadcast, and well-formed records of games in memory and on disk.
\<close>

definition sound :: "'n Env \<Rightarrow> ObserverConfig \<Rightarrow> 'n Observer \<Rightarrow> bool" where
  "sound E c ob \<longleftrightarrow> tracked E ob [] \<and> pending_broadcasts ob = [] \<and> ob_config ob = c \<and> games_ok c (games ob) \<and>
     games_ok c (st_games (persistence ob))"

lemma recover_sound:
  assumes "env_ok E" "sound E c ob" "recover_intent_records E ob = (r, ob')"
  shows "sound E c ob' \<and> (\<forall>e. r = Inl e \<longrightarrow> \<not> up (persistence ob')) \<and>
    set (iteration_pivot_inserts ob') \<subseteq> set (iteration_pivot_inserts ob)"
  using recover_tracked [OF assms(1) _ assms(3)] assms(2) by (simp add: sound_def)

lemma mark_sound:
  assumes env: "env_ok E" and s: "sound E c ob" and m: "mark_state_known E ob g observed block = (r, ob')"
  shows "sound E c ob' \<and> iteration_pivot_inserts ob' = iteration_pivot_inserts ob"
proof (cases "ob' = ob")
  case False
  then obtain rec where g: "bt_get (games ob) g = Some rec" "game_deployment_id (obs_state observed) = oc_deployment_id (ob_config ob)"
    using m by (auto simp: mark_state_known_def Let_def split: option.splits if_splits)
  let ?r = "\<lparr>rec_game_id = rec_game_id rec, rec_state = obs_state observed, rec_me = rec_me rec,
    last_updated_block = block, state_known = True, turn_deadline = Some (obs_turn_deadline observed),
    disputed_log_index = Some (obs_disputed_log_index observed)\<rparr>"
  let ?ob = "ob\<lparr>games := bt_insert g ?r (games ob)\<rparr>"
  obtain cr p where c: "commit_batch (hex_encode E) (hex_decode E) (persistence ob) (upsert_game batch_new ?r) = (cr, p)" by fastforce
  then have ob': "ob' = ?ob\<lparr>persistence := p\<rparr>" using m g(1) False
    by (auto simp: mark_state_known_def Let_def split: option.splits if_splits sum.splits)
  have tr: "tracked E ?ob []" and none: "pending_broadcasts ob = []" using s by (simp_all add: sound_def tracked_def)
  have rok: "record_ok c g ?r" using s g by (auto simp: sound_def games_ok_def record_ok_def)
  have q: "queue_ok E (?ob, upsert_game batch_new ?r)" if "up (persistence ?ob)"
    using tr that none by (simp add: tracked_def queue_ok_def upsert_game_def batch_new_def)
  have "tracked E (?ob\<lparr>persistence := p\<rparr>) []"
    using commit_tracked [OF env tr q, of cr p "[]"] c none by (auto split: sum.splits)
  moreover have "games_ok c (st_games p)"
    using commit_games [OF c] s rok by (simp add: sound_def upsert_game_def batch_new_def record_ok_def)
  ultimately show ?thesis using s rok by (simp add: sound_def ob' games_ok_insert)
qed (use s in simp)

lemma world_sound: "sound E c (ob\<lparr>world := n\<rparr>) = sound E c ob" "sound E c (ob\<lparr>ob_watcher := w\<rparr>) = sound E c ob"
  "sound E c (ob\<lparr>iteration_pivot_inserts := ks\<rparr>) = sound E c ob"
  by (simp_all add: sound_def tracked_def)

lemma hydrate_sound:
  assumes "env_ok E"
  shows "sound E c ob \<Longrightarrow> hydrate_games E block gs ob counts = (r, ob') \<Longrightarrow>
    sound E c ob' \<and> iteration_pivot_inserts ob' = iteration_pivot_inserts ob"
proof (induction gs arbitrary: ob counts)
  case (Cons g gs)
  obtain h e where ce: "counts = (h, e)" by fastforce
  obtain res n where rd: "read_and_validate E (world ob) g (oc_deployment_id (ob_config ob)) = (res, n)" by fastforce
  show ?case
  proof (cases res)
    case (Inl x)
    then show ?thesis using Cons.IH [of "ob\<lparr>world := n\<rparr>"] Cons.prems rd ce by (simp add: world_sound)
  next
    case (Inr observed)
    obtain mr ob1 where m: "mark_state_known E (ob\<lparr>world := n\<rparr>) g observed block = (mr, ob1)" by fastforce
    have s1: "sound E c ob1" "iteration_pivot_inserts ob1 = iteration_pivot_inserts ob"
      using mark_sound [OF assms _ m] Cons.prems(1) by (simp_all add: world_sound)
    have "\<exists>counts'. hydrate_games E block gs ob1 counts' = (r, ob')"
      using Cons.prems(2) ce rd Inr m by (auto split: sum.splits bool.splits)
    then show ?thesis using Cons.IH [OF s1(1)] s1(2) by auto
  qed
qed simp

lemma staged_acts:
  assumes env: "env_ok E" and g: "games_ok (ob_config ob) (games ob)" and s: "staged E ob watch = (n, ob', b)"
  shows "acts E (ob, batch_new) (ob', b)"
proof -
  obtain n1 ob1 b1 where e: "handle_events E (watch_events watch) ob batch_new 0 = (n1, ob1, b1)" using prod_cases3 by blast
  obtain n2 ob2 b2 where o: "sweep_owed_moves E ob1 b1 = (n2, ob2, b2)" using prod_cases3 by blast
  obtain n3 ob3 b3 where t: "sweep_timeout_claims E ob2 b2 = (n3, ob3, b3)" using prod_cases3 by blast
  have "staged_ok (ob_config ob) (ob, batch_new)" using g by (simp add: staged_ok_def batch_new_def)
  moreover have a: "acts E (ob, batch_new) (ob2, b2)" using events_acts [OF e] sweep_owed_acts [OF o] by (rule rtranclp_trans)
  ultimately have "games_ok (ob_config ob) (games ob2)" using acts_keep(2) [OF a] by (simp add: staged_ok_def)
  note t' = sweep_timeout_acts [OF env this t]
  have "ob3 = ob'" "b3 = b" using s e o t by (simp_all add: staged_def)
  then show ?thesis using a t' by (auto intro: rtranclp_trans)
qed

lemma owes_nil [simp]: "owes t S []"
  by (simp add: owes_def)

text \<open>The state at the commit.\<close>

lemma staged_sound:
  assumes env: "env_ok E" and s: "sound E c ob" and st: "staged E ob watch = (n, ob', b)"
  shows "tracked E ob' [] \<and> (up (persistence ob') \<longrightarrow> queue_ok E (ob', b)) \<and> staged_ok c (ob', b) \<and>
    persistence ob' = persistence ob"
proof -
  have g: "games_ok (ob_config ob) (games ob)" using s by (simp add: sound_def)
  note a = staged_acts [OF env g st]
  have p: "persistence ob' = persistence ob" using acts_keep(1) [OF a] by simp
  have "staged_ok c (ob, batch_new)" using s by (simp add: sound_def staged_ok_def batch_new_def)
  then have "staged_ok c (ob', b)" by (rule acts_keep(2) [OF a])
  moreover have q: "queue_ok E (ob', b)" if "up (persistence ob)"
  proof -
    have "queue_ok E (ob, batch_new)" using s that by (simp add: sound_def tracked_def queue_ok_def batch_new_def)
    then show ?thesis by (rule acts_keep(3) [OF a env])
  qed
  moreover have "tracked E ob' []" using s q p by (auto simp: sound_def tracked_def queue_ok_def Let_def)
  ultimately show ?thesis using p by simp
qed

lemma drain_sound:
  assumes env: "env_ok E" and tr: "tracked E ob (map hash_key (pending_broadcasts ob))" and c: "ob_config ob = c"
    and g: "games_ok c (games ob)" "games_ok c (st_games (persistence ob))"
    and d: "drain_broadcasts E (pending_broadcasts ob) (ob\<lparr>pending_broadcasts := []\<rparr>) = (r, ob')"
  shows "sound E c ob' \<and> (\<forall>e. r = Inl e \<longrightarrow> \<not> up (persistence ob'))"
proof -
  have "tracked E (ob\<lparr>pending_broadcasts := []\<rparr>) (map hash_key (pending_broadcasts ob))" using tr by (simp add: tracked_def)
  from drain_tracked [OF env this d] show ?thesis using c g by (simp add: sound_def)
qed

text \<open>An iteration is its stage, its commit when there is something to commit, and its broadcasts.\<close>

definition mark_progress :: "WatcherIteration \<Rightarrow> 'n Observer \<Rightarrow> PersistBatch \<Rightarrow> PersistBatch" where
  "mark_progress watch ob b = (case new_last_confirmed watch of None \<Rightarrow> b
    | Some c \<Rightarrow> set_reorg_window (set_cursor b c) (window_snapshot (ob_watcher ob)))"

definition drained :: "'n Env \<Rightarrow> WatcherIteration \<Rightarrow> u32 \<Rightarrow> 'n Observer \<Rightarrow> (ObserverError + IterationOutcome) \<times> 'n Observer" where
  "drained E watch n ob = (case drain_broadcasts E (pending_broadcasts ob) (ob\<lparr>pending_broadcasts := []\<rparr>) of
      (Inl e, ob) \<Rightarrow> (Inl e, ob)
    | (Inr _, ob) \<Rightarrow> (Inr \<lparr>event_count = length (watch_events watch), submitted_moves = n,
          out_reorg_absorbed = reorg_absorbed watch, new_cursor = new_last_confirmed watch\<rparr>, ob))"

lemma finish_stages:
  assumes "staged E ob watch = (n, ob', b)"
  shows "finish_iteration E ob watch = (let b = mark_progress watch ob' b in if batch_is_empty b then drained E watch n ob'
      else case commit_batch (hex_encode E) (hex_decode E) (persistence ob') b of
        (Inr _, p) \<Rightarrow> drained E watch n (ob'\<lparr>persistence := p, iteration_pivot_inserts := []\<rparr>)
      | (Inl e, p) \<Rightarrow> (Inl (OStorage e), ob'\<lparr>persistence := p, pending_broadcasts := []\<rparr>))"
  using assms unfolding finish_iteration_def staged_def drained_def mark_progress_def
  by (auto simp: Let_def split: prod.splits sum.splits)

lemma mark_progress_same [simp]:
  "pb_responses (mark_progress watch ob b) = pb_responses b" "pb_games (mark_progress watch ob b) = pb_games b"
  by (simp_all add: mark_progress_def set_reorg_window_def set_cursor_def split: option.split)

lemma drained_sound:
  assumes env: "env_ok E" and tr: "tracked E ob (map hash_key (pending_broadcasts ob))" and c: "ob_config ob = c"
    and g: "games_ok c (games ob)" "games_ok c (st_games (persistence ob))" and d: "drained E watch n ob = (r, ob')"
  shows "sound E c ob' \<and> (\<forall>e. r = Inl e \<longrightarrow> \<not> up (persistence ob'))"
proof -
  obtain dr od where "drain_broadcasts E (pending_broadcasts ob) (ob\<lparr>pending_broadcasts := []\<rparr>) = (dr, od)" by fastforce
  with drain_sound [OF env tr c g this] d show ?thesis by (auto simp: drained_def split: sum.splits)
qed

lemma finish_sound:
  assumes env: "env_ok E" and s: "sound E c ob" and f: "finish_iteration E ob watch = (r, ob')"
  shows "sound E c ob' \<and> (\<forall>e. r = Inl e \<longrightarrow> \<not> up (persistence ob'))"
proof -
  obtain n ob3 b3 where st: "staged E ob watch = (n, ob3, b3)" using prod_cases3 by blast
  let ?b = "mark_progress watch ob3 b3"
  note fin = finish_stages [OF st, unfolded Let_def]
  have "queue_ok E (ob3, ?b) = queue_ok E (ob3, b3)" "staged_ok c (ob3, ?b) = staged_ok c (ob3, b3)"
    by (simp_all add: queue_ok_def staged_ok_def)
  then have tr: "tracked E ob3 []" and q: "up (persistence ob3) \<Longrightarrow> queue_ok E (ob3, ?b)" and so: "staged_ok c (ob3, ?b)"
    and p: "persistence ob3 = persistence ob"
    using staged_sound [OF env s st] by simp_all
  have g: "ob_config ob3 = c" "games_ok c (games ob3)" "games_ok c (st_games (persistence ob3))"
    using so s p by (simp_all add: staged_ok_def sound_def)
  show ?thesis
  proof (cases "batch_is_empty ?b")
    case True
    then have "up (persistence ob3) \<Longrightarrow> pending_broadcasts ob3 = []"
      using q by (simp add: queue_ok_def batch_is_empty_def Let_def)
    then have "tracked E ob3 (map hash_key (pending_broadcasts ob3))" using tr by (auto simp: tracked_def)
    then show ?thesis using drained_sound [OF env _ g] f fin True by simp
  next
    case False
    obtain cr p' where c: "commit_batch (hex_encode E) (hex_decode E) (persistence ob3) ?b = (cr, p')" by fastforce
    have g': "games_ok c (st_games p')" using commit_games [OF c g(3)] so by (simp add: staged_ok_def)
    note ct = commit_tracked [OF env tr q c, of "[]"]
    show ?thesis
    proof (cases cr)
      case (Inl e)
      then show ?thesis using ct f fin False c g g' by (auto simp: sound_def tracked_def)
    next
      case (Inr u)
      let ?ob = "ob3\<lparr>persistence := p', iteration_pivot_inserts := []\<rparr>"
      have "tracked E ?ob (map hash_key (pending_broadcasts ?ob))" using ct Inr by (simp add: tracked_def)
      moreover have "drained E watch n ?ob = (r, ob')" using f fin False c Inr by simp
      ultimately show ?thesis using drained_sound [OF env, of ?ob c watch n r ob'] g g' by simp
    qed
  qed
qed

lemma run_sound:
  assumes env: "env_ok E" and s: "sound E c ob" and r: "run_iteration E src ob = (r, ob')"
  shows "sound E c ob'"
proof -
  let ?ob = "ob\<lparr>iteration_pivot_inserts := []\<rparr>"
  obtain r0 ob0 where inner: "run_iteration_inner E src ?ob = (r0, ob0)" by fastforce
  obtain r1 ob1 where rec: "recover_intent_records E ?ob = (r1, ob1)" by fastforce
  have s1: "sound E c ob1" "\<And>e. r1 = Inl e \<Longrightarrow> \<not> up (persistence ob1)" "iteration_pivot_inserts ob1 = []"
    using recover_sound [OF env _ rec] s by (auto simp: world_sound)
  have k: "sound E c ob0 \<and> (\<forall>e. r0 = Inl e \<longrightarrow> \<not> up (persistence ob0) \<or> iteration_pivot_inserts ob0 = [])"
  proof (cases r1)
    case (Inl e)
    then show ?thesis using inner rec s1 by (simp add: run_iteration_inner_def)
  next
    case (Inr u)
    define ob2 where "ob2 = (if has_state_reader ob1 \<and> list_ex (\<lambda>(_, r). \<not> state_known r) (games ob1)
      then snd (hydrate_cold_start_games E ob1 (cursor_or_zero ob1)) else ob1)"
    have s2: "sound E c ob2" "iteration_pivot_inserts ob2 = []"
      using hydrate_sound [OF env s1(1)] s1 by (auto simp: ob2_def hydrate_cold_start_games_def snd_def split: prod.splits)
    obtain wr w where w: "watcher_run_iteration (keccak E) src (ob_watcher ob2) = (wr, w)" by fastforce
    have inner': "(r0, ob0) = (case wr of Inl e \<Rightarrow> (Inl (watcher_error e), ob2\<lparr>ob_watcher := w\<rparr>)
        | Inr watch \<Rightarrow> finish_iteration E (ob2\<lparr>ob_watcher := w\<rparr>) watch)"
      using inner rec Inr w by (simp add: run_iteration_inner_def Let_def ob2_def [symmetric] split: sum.splits)
    show ?thesis
    proof (cases wr)
      case (Inl e)
      then show ?thesis using inner' s2 by (simp add: world_sound)
    next
      case (Inr watch)
      then show ?thesis using finish_sound [OF env, of c "ob2\<lparr>ob_watcher := w\<rparr>" watch r0 ob0] inner' s2(1) by (simp add: world_sound)
    qed
  qed
  show ?thesis
  proof (cases r0)
    case (Inl e)
    then show ?thesis using k r inner by (auto simp: run_iteration_def sound_def tracked_def)
  next
    case (Inr x)
    then show ?thesis using k r inner by (simp add: run_iteration_def)
  qed
qed




section \<open>The life of an observer\<close>

text \<open>
  A process starts on an empty store or on what an earlier one left, however that one ended, and runs
  iterations on whatever the chain answers.  Each process has a store that fails at some call and
  then for good, or never.
\<close>

definition empty_store :: "(nat \<Rightarrow> bool) \<Rightarrow> Persistence" where
  "empty_store d = \<lparr>st_games = [], st_responses = [], st_batches = [], st_cursor = None, st_reorg_window = [], disk = d, ops = 0\<rparr>"

inductive life :: "'n Env \<Rightarrow> ObserverConfig \<Rightarrow> 'n Observer \<Rightarrow> bool" for E c where
  start: "fail_stop d \<Longrightarrow> fst (observer_new c bundle_oracle reader n (empty_store d)) = Inr (Val ob) \<Longrightarrow> life E c ob"
| iterate: "life E c ob \<Longrightarrow> life E c (snd (run_iteration E src ob))"
| restart: "life E c ob \<Longrightarrow> fail_stop d \<Longrightarrow>
    fst (observer_new c bundle_oracle reader n ((persistence ob)\<lparr>disk := d, ops := 0\<rparr>)) = Inr (Val ob') \<Longrightarrow> life E c ob'"

lemma count_live: "snd (count_responses rs (f, S)) = S \<union> resp_key ` {r \<in> set rs. live r}"
proof (induction rs arbitrary: f S)
  case (Cons r rs)
  then show ?case by (cases "resp_status r") (auto simp: live_def)
qed simp

lemmas store_calls = read_cursor_def read_reorg_window_def list_games_def list_batches_def list_responses_def disk_read_def

lemma new_effect:
  assumes "fst (observer_new c bundle_oracle reader n p) = Inr (Val ob)"
  shows "persistence ob = p\<lparr>ops := ops p + 5\<rparr>" "ob_config ob = c" "pending_broadcasts ob = []"
    "games ob = fold (\<lambda>r. bt_insert (rec_game_id r) r) (map snd (st_games p)) []"
    "submitted_pivots ob = snd (count_responses (map snd (st_responses p)) (Map.empty, {}))"
proof -
  obtain w where w: "watcher_new (oc_watcher c) = Inr (Val w)"
    using assms by (auto simp: observer_new_def split: sum.splits rust.splits)
  obtain fails subm where k: "count_responses (map snd (st_responses p)) (Map.empty, {}) = (fails, subm)" by fastforce
  have d: "disk p (ops p)" "disk p (Suc (ops p))" "disk p (Suc (Suc (ops p)))" "disk p (Suc (Suc (Suc (ops p))))"
      "disk p (Suc (Suc (Suc (Suc (ops p)))))"
    using assms w by (simp_all add: observer_new_def store_calls split: if_splits)
  show "persistence ob = p\<lparr>ops := ops p + 5\<rparr>" "ob_config ob = c" "pending_broadcasts ob = []"
    "games ob = fold (\<lambda>r. bt_insert (rec_game_id r) r) (map snd (st_games p)) []"
    "submitted_pivots ob = snd (count_responses (map snd (st_responses p)) (Map.empty, {}))"
    using assms w k d by (auto simp: observer_new_def store_calls Let_def)
qed

lemma new_sound:
  assumes n: "fst (observer_new c bundle_oracle reader n p) = Inr (Val ob)" and d: "fail_stop (disk p)"
    and t: "table_ok E (st_responses p)" "one_live (st_responses p)" and g: "games_ok c (st_games p)"
  shows "sound E c ob"
proof -
  note e = new_effect [OF n]
  have "reserved (st_responses p) (submitted_pivots ob)"
    using t(1) by (auto simp: reserved_def e(5) count_live table_ok_def bt_get_mem [symmetric] image_iff)
  moreover have "record_ok c (rec_game_id r) r" if m: "r \<in> set (map snd (st_games p))" for r
  proof -
    obtain h where "(h, r) \<in> set (st_games p)" using m by auto
    then have "record_ok c h r" using g bt_get_mem [of "st_games p" h r] by (simp add: games_ok_def)
    then show ?thesis by (simp add: record_ok_def)
  qed
  moreover have "games_ok c []" by (simp add: games_ok_def)
  ultimately show ?thesis
    using e(1-3) d t g games_ok_fold [of c "[]" "map snd (st_games p)"] by (simp add: sound_def tracked_def e(4))
qed

lemma life_sound:
  assumes env: "env_ok E" and l: "life E c ob"
  shows "sound E c ob"
  using l
proof (induction rule: life.induct)
  case (start d bundle_oracle reader n ob)
  show ?case by (rule new_sound [OF start(2)]) (use start(1) in \<open>simp_all add: empty_store_def table_ok_def one_live_def games_ok_def\<close>)
next
  case (iterate ob src)
  obtain r ob' where r: "run_iteration E src ob = (r, ob')" by fastforce
  then show ?case using run_sound [OF env iterate.IH r] by simp
next
  case (restart ob d bundle_oracle reader n ob')
  show ?case by (rule new_sound [OF restart(3)]) (use restart(2,4) in \<open>simp_all add: sound_def tracked_def\<close>)
qed

section \<open>A sample deployment\<close>

text \<open>Lower-case hexadecimal, as the \<open>hex\<close> crate writes it.\<close>

definition hex_digit :: "nat \<Rightarrow> u8" where
  "hex_digit n = of_nat (if n < 10 then 48 + n else 87 + n)"

definition hex_value :: "u8 \<Rightarrow> nat option" where
  "hex_value c = (let n = unat c in if 48 \<le> n \<and> n \<le> 57 then Some (n - 48) else if 97 \<le> n \<and> n \<le> 102 then Some (n - 87) else None)"

definition sample_hex :: "bytes \<Rightarrow> bytes" where
  "sample_hex b = concat (map (\<lambda>x. [hex_digit (unat x div 16), hex_digit (unat x mod 16)]) b)"

fun sample_unhex :: "bytes \<Rightarrow> bytes + bytes" where
  "sample_unhex [] = Inr []"
| "sample_unhex [c] = Inl []"
| "sample_unhex (c # d # cs) =
     (case (hex_value c, hex_value d) of
        (Some x, Some y) \<Rightarrow> res_bind (sample_unhex cs) (\<lambda>b. Inr (of_nat (16 * x + y) # b))
      | _ \<Rightarrow> Inl [])"

lemma hex_value_digit: "n < 16 \<Longrightarrow> hex_value (hex_digit n) = Some n"
  by (auto simp: hex_value_def hex_digit_def unat_of_nat Let_def)

lemma sample_unhex_hex: "sample_unhex (sample_hex b) = Inr b"
proof (induction b)
  case (Cons x b)
  have "unat x div 16 < 16" using unat_lt [of x] by simp
  moreover have "16 * (unat x div 16) + unat x mod 16 = unat x" by simp
  ultimately show ?case using Cons by (simp add: sample_hex_def hex_value_digit del: of_nat_add of_nat_mult)
qed (simp add: sample_hex_def)

lemma sample_hex_unprefixed: "strip_0x (sample_hex b) = sample_hex b"
proof (cases b)
  case (Cons x xs)
  have "hex_value 0x78 = None" by (simp add: hex_value_def)
  then have "hex_digit (unat x mod 16) \<noteq> 0x78" using hex_value_digit [of "unat x mod 16"] by auto
  then show ?thesis by (simp add: strip_0x_def sample_hex_def Cons)
qed (simp add: strip_0x_def sample_hex_def)

text \<open>
  A chain where the game of any id is open over the indices 0 to 8 and waits for the sequencer; the
  numbers the world gives out make the transaction hashes distinct, and the first broadcast fails.
\<close>

definition sample_state :: "bytes \<Rightarrow> GameState" where
  "sample_state dep = \<lparr>sequencer = 1, challenger = 2,
     disputed = \<lparr>low = \<lparr>claim_idx = 0, claim_commit = replicate 32 0\<rparr>, high = \<lparr>claim_idx = 8, claim_commit = replicate 32 1\<rparr>\<rparr>,
     pending_midpoint = None, game_depth = 0, turn = Sequencer, sequencer_bond = 1, challenger_bond = 1,
     game_status = InProgress, game_deployment_id = dep, actions_root = replicate 32 0\<rparr>"

definition sample_env :: "nat Env" where
  "sample_env = \<lparr>keccak = (\<lambda>m. replicate 31 0 @ [m ! 14]), hex_encode = sample_hex, hex_decode = sample_unhex,
     build_and_sign = (\<lambda>n c. (Inr \<lparr>ptx_hash = replicate 31 0 @ [of_nat n], ptx_raw = c\<rparr>, Suc n)),
     broadcast = (\<lambda>n tx. (if n = 0 then Inl MockUnsupported else Inr (), Suc n)),
     invalidate_nonce_cache = (\<lambda>n. n), commit_at = (\<lambda>n i. Some (replicate 32 7)),
     terminate_bundle_at = (\<lambda>n i b. Inl (Missed i)),
     read_and_validate = (\<lambda>n g dep. (Inr \<lparr>obs_state = sample_state dep, obs_turn_deadline = 100, obs_disputed_log_index = 8\<rparr>, n)),
     iter_order = (\<lambda>n xs. xs)\<rparr>"

lemma sample_env_ok: "env_ok sample_env"
  by (simp add: env_ok_def sample_env_def sample_unhex_hex sample_hex_unprefixed observed_ok_def sample_state_def)

definition sample_settings :: ObserverConfig where
  "sample_settings = \<lparr>oc_watcher = sample_config\<lparr>game_contract := [1]\<rparr>, play_as = Sequencer, oc_deployment_id = replicate 32 9,
     max_broadcast_attempts = 3\<rparr>"

definition sample_observer :: "bool \<Rightarrow> Persistence \<Rightarrow> nat Observer" where
  "sample_observer reader p = \<lparr>ob_config = sample_settings,
     ob_watcher = \<lparr>watcher_config = oc_watcher sample_settings, reorg_window = \<lparr>capacity = 2, buffer = []\<rparr>, last_confirmed_block = None\<rparr>,
     persistence = p\<lparr>ops := ops p + 5\<rparr>, has_bundle_oracle = False, has_state_reader = reader,
     games = fold (\<lambda>r. bt_insert (rec_game_id r) r) (map snd (st_games p)) [], batches = [],
     submitted_pivots = snd (count_responses (map snd (st_responses p)) (Map.empty, {})),
     iteration_pivot_inserts = [], broadcast_failures = Map.empty, pending_broadcasts = [], world = 0\<rparr>"

lemma sample_new:
  assumes "\<forall>i < 5. disk p i" "ops p = 0" "st_cursor p = None" "st_reorg_window p = []" "st_batches p = []"
    "fst (count_responses (map snd (st_responses p)) (Map.empty, {})) = Map.empty"
  shows "fst (observer_new sample_settings False reader 0 p) = Inr (Val (sample_observer reader p))"
proof -
  have "watcher_new (oc_watcher sample_settings) = Inr (Val (ob_watcher (sample_observer reader p)))"
    by (simp add: watcher_new_def watcher_validate_def sample_settings_def sample_observer_def sample_config_def window_new_def
      MAX_REORG_WINDOW_CAPACITY_def MAX_CONFIRMATION_DEPTH_def MAX_BLOCKS_PER_ITERATION_def Let_def)
  moreover obtain S where "count_responses (map snd (st_responses p)) (Map.empty, {}) = (Map.empty, S)"
    using assms(6) by (metis prod.collapse)
  ultimately show ?thesis using assms(1-5)
    by (simp add: observer_new_def store_calls sample_observer_def Let_def set_last_confirmed_def)
qed

definition idle_source :: L1Source where
  "idle_source = \<lparr>latest_block_number = Inr 0, block_header_by_number = (\<lambda>n. Inl (BlockNotFound n)),
     logs_in_block_by_hash = (\<lambda>_ _. Inr [])\<rparr>"

lemma idle_watch: "confirmation_depth (watcher_config w) = 2 \<Longrightarrow> watcher_run_iteration k idle_source w = (Inr no_blocks, w)"
  by (simp add: watcher_run_iteration_def watcher_run_inner_def idle_source_def Let_def)

text \<open>The transaction signed at a number of the world for the first midpoint of game 5, and its record.\<close>

definition sample_tx :: "nat \<Rightarrow> PreparedTx" where
  "sample_tx n = \<lparr>ptx_hash = replicate 31 0 @ [of_nat n], ptx_raw = encode_submit_calldata (keccak sample_env) 5 (replicate 32 7)\<rparr>"

definition sample_response :: "nat \<Rightarrow> u64 \<Rightarrow> ResponseRecord" where
  "sample_response n block = \<lparr>tx_hash_hex = sample_hex (ptx_hash (sample_tx n)), raw_tx_hex = Some (sample_hex (ptx_raw (sample_tx n))),
     resp_game_id = 5, resp_status = Intent, submitted_at_block = block, resp_depth = 0, resp_pivot_idx = Some 4, resp_move_kind = MoveKind.Submit\<rparr>"

definition sample_pending :: "nat \<Rightarrow> PendingBroadcast" where
  "sample_pending n = \<lparr>prepared = sample_tx n, pb_game_id = 5, pb_pivot_idx = Some 4, pb_move_kind = MoveKind.Submit\<rparr>"

lemma sample_hash: "parse_hex_tx_hash sample_unhex (sample_hex (ptx_hash (sample_tx n))) = Inr (ptx_hash (sample_tx n))"
  by (simp add: parse_hex_tx_hash_def sample_unhex_hex sample_hex_unprefixed sample_tx_def)

lemma sample_fields [simp]:
  "hex_encode sample_env = sample_hex" "hex_decode sample_env = sample_unhex" "iter_order sample_env n xs = xs"
  "commit_at sample_env n = (\<lambda>i. Some (replicate 32 7))"
  "build_and_sign sample_env n c = (Inr \<lparr>ptx_hash = replicate 31 0 @ [of_nat n], ptx_raw = c\<rparr>, Suc n)"
  "broadcast sample_env n tx = (if n = 0 then Inl MockUnsupported else Inr (), Suc n)" "invalidate_nonce_cache sample_env n = n"
  "read_and_validate sample_env n g dep =
     (Inr \<lparr>obs_state = sample_state dep, obs_turn_deadline = 100, obs_disputed_log_index = 8\<rparr>, n)"
  by (simp_all add: sample_env_def)

text \<open>A game over those indices that waits for this side and has no move made: the first midpoint is played.\<close>

definition waiting :: "nat Observer \<Rightarrow> GameRecord \<Rightarrow> bool" where
  "waiting ob r \<longleftrightarrow> games ob = [(5, r)] \<and> rec_game_id r = 5 \<and> state_known r \<and> rec_me r = Sequencer \<and>
     rec_state r = sample_state (replicate 32 9) \<and> submitted_pivots ob = {} \<and> iteration_pivot_inserts ob = [] \<and>
     pending_broadcasts ob = []"

lemma sample_move: "compute_next_move (\<lambda>_. Some c) (sample_state dep) Sequencer = Inr (HonestMove.Submit \<lparr>claim_idx = 4, claim_commit = c\<rparr>)"
proof -
  have m: "midpoint_idx (disputed (sample_state dep)) = 4"
    by (rule word_unat_eq_iff [THEN iffD2]) (simp add: unat_midpoint sample_state_def)
  then show ?thesis
    by (simp add: compute_next_move_def is_single_step_def sample_state_def wsat_add_def wchecked_add_def is_in_progress_def Let_def)
qed

lemma sample_staged:
  assumes w: "waiting ob r"
  shows "\<exists>k. staged sample_env ob no_blocks = (k, ob\<lparr>submitted_pivots := {(5, MoveKind.Submit, Some 4)},
     iteration_pivot_inserts := [(5, MoveKind.Submit, Some 4)], pending_broadcasts := [sample_pending (world ob)],
     world := Suc (world ob)\<rparr>, upsert_response batch_new (sample_response (world ob) (cursor_or_zero ob)))"
proof -
  note w' = w [unfolded waiting_def]
  have s: "game_status (sample_state dep) = InProgress" "turn (sample_state dep) = Sequencer" "game_depth (sample_state dep) = 0" for dep
    by (simp_all add: sample_state_def)
  have g: "games_where sample_env ob' P = filter (P \<circ> snd) [(5, r)]" if "games ob' = [(5, r)]" for P and ob' :: "nat Observer"
    using that by (simp add: games_where_def map_filter_def)
  show ?thesis using w'
    by (simp add: staged_def no_blocks_def sweep_owed_moves_def sweep_timeout_claims_def g s is_in_progress_def maybe_play_move_def
      sample_move build_calldata_for_move_def has_submitted_for_pivot_def queue_l1_call_def Let_def sample_tx_def sample_response_def
      sample_pending_def)
qed

lemma sample_played:
  assumes w: "waiting ob r" and d: "\<forall>i \<in> {ops (persistence ob)..<ops (persistence ob) + 3}. disk (persistence ob) i"
  defines "h \<equiv> ptx_hash (sample_tx (world ob))" and "r' \<equiv> sample_response (world ob) (cursor_or_zero ob)"
  shows "\<exists>out ob'. finish_iteration sample_env ob no_blocks = (Inr out, ob') \<and> games ob' = games ob \<and>
    st_responses (persistence ob') = bt_insert h (r'\<lparr>resp_status := Pending\<rparr>) (bt_insert h r' (st_responses (persistence ob)))"
proof -
  let ?ob = "ob\<lparr>submitted_pivots := {(5, MoveKind.Submit, Some 4)}, iteration_pivot_inserts := [(5, MoveKind.Submit, Some 4)],
    pending_broadcasts := [sample_pending (world ob)], world := Suc (world ob)\<rparr>"
  let ?P = "persistence ob" and ?b = "upsert_response batch_new r'"
  obtain k where st: "staged sample_env ob no_blocks = (k, ?ob, ?b)" using sample_staged [OF w] by (auto simp: r'_def)
  have e: "mark_progress no_blocks ob' b = b" "\<not> batch_is_empty ?b" for b and ob' :: "nat Observer"
    by (simp_all add: mark_progress_def no_blocks_def batch_is_empty_def upsert_response_def)
  have r': "tx_hash_hex r' = sample_hex h" "r'\<lparr>tx_hash_hex := sample_hex h\<rparr> = r'"
      "r'\<lparr>resp_status := Pending, tx_hash_hex := sample_hex h\<rparr> = r'\<lparr>resp_status := Pending\<rparr>"
    by (simp_all add: r'_def h_def sample_response_def)
  have parse: "parse_hex_tx_hash sample_unhex (sample_hex h) = Inr h" by (simp add: h_def sample_hash)
  have disk: "disk ?P (ops ?P)" "disk ?P (Suc (ops ?P))" "disk ?P (Suc (Suc (ops ?P)))" using d by auto
  obtain p where c: "commit_batch sample_hex sample_unhex ?P ?b = (Inr (), p)"
    and p: "st_responses p = bt_insert h r' (st_responses ?P)" "disk p = disk ?P" "ops p = Suc (ops ?P)"
    using r' parse disk by (simp add: commit_batch_def upsert_response_def batch_new_def disk_write_def)
  have "\<exists>ob'. broadcast_and_update_status sample_env (?ob\<lparr>persistence := p, iteration_pivot_inserts := [], pending_broadcasts := []\<rparr>)
      (sample_pending (world ob)) = (Inr (), ob') \<and> games ob' = games ob \<and>
      st_responses (persistence ob') = bt_insert h (r'\<lparr>resp_status := Pending\<rparr>) (st_responses p)"
    using p disk parse r'(1) by (simp add: r'(3) broadcast_and_update_status_def broadcast_pending_def sample_pending_def h_def [symmetric]
      load_response_def store_response_def disk_read_def disk_write_def Let_def)
  then show ?thesis
    using finish_stages [OF st] e c p(1) by (auto simp: drained_def Let_def)
qed

text \<open>A life with a game opened on the chain, read from the contract and answered.\<close>

definition opening_source :: L1Source where
  "opening_source = \<lparr>latest_block_number = Inr 10,
     block_header_by_number = (\<lambda>n. Inr \<lparr>number = n, hash = [ucast n], parent_hash = [ucast (n - 1)]\<rparr>),
     logs_in_block_by_hash = (\<lambda>_ a. Inr (if a = [1] then [\<lparr>log_address = a,
       topics = [game_topic_hash (keccak sample_env) TGameOpened, u256_be 5, replicate 32 2], data = replicate 64 3,
       block_number = 8, tx_hash = [], log_index = 0\<rparr>] else []))\<rparr>"

definition opening_event :: GameEvent where
  "opening_event = GameOpened 5 (replicate 32 2) (replicate 32 3) (replicate 32 3) 8 [] 0"

lemma opening_decoded: "block_events (keccak sample_env) opening_source (oc_watcher sample_settings) header = Inr [opening_event]"
proof -
  let ?log = "\<lparr>log_address = [1], topics = [game_topic_hash (keccak sample_env) TGameOpened, u256_be 5, replicate 32 2],
    data = replicate 64 3, block_number = 8, tx_hash = [], log_index = 0\<rparr>"
  have "log_ok ?log" by (simp add: log_ok_def isize_max_def game_topic_hash_def sample_env_def)
  then have "decode_game_opened ?log = Inr opening_event"
    by (subst game_decoders_Inr(1)) (auto simp: opening_event_def)
  moreover have "game_topic_from_hash (keccak sample_env) (game_topic_hash (keccak sample_env) TGameOpened) = Some TGameOpened"
    by (simp add: game_topic_from_hash_def)
  ultimately have "decode_game_event (keccak sample_env) ?log = Inr (Some opening_event)" by (simp add: decode_game_event_def)
  then show ?thesis by (simp add: block_events_def opening_source_def sample_settings_def sample_config_def)
qed

lemma opening_watched:
  assumes "ob_watcher ob = ob_watcher (sample_observer True p)"
  shows "\<exists>w. watcher_run_iteration (keccak sample_env) opening_source (ob_watcher ob) =
    (Inr \<lparr>watch_events = [opening_event], new_last_confirmed = Some 8, reorg_absorbed = False\<rparr>, w) \<and>
    confirmation_depth (watcher_config w) = 2"
proof -
  have h: "block_header_by_number opening_source n = Inr \<lparr>number = n, hash = [ucast n], parent_hash = [ucast (n - 1)]\<rparr>" for n
    by (simp add: opening_source_def)
  have "block_range 8 8 = [8]" by (simp add: block_range_def)
  moreover have "latest_block_number opening_source = Inr 10" by (simp add: opening_source_def)
  moreover have "confirmation_depth (oc_watcher sample_settings) = 2" "blocks_per_iteration (oc_watcher sample_settings) = 2"
    by (simp_all add: sample_settings_def sample_config_def)
  ultimately show ?thesis using assms opening_decoded h
    by (simp add: watcher_run_iteration_def watcher_run_inner_def sample_observer_def wsat_add_def wsat_sub_def wchecked_add_def
      wchecked_sub_def observe_header_def Let_def)
qed

text \<open>The state after the opening: the game is adopted with its state unknown.\<close>

definition adopted :: "nat Observer \<Rightarrow> GameRecord \<Rightarrow> bool" where
  "adopted ob r \<longleftrightarrow> games ob = [(5, r)] \<and> rec_game_id r = 5 \<and> \<not> state_known r \<and> rec_me r = Sequencer \<and>
     game_status (rec_state r) = InProgress \<and> submitted_pivots ob = {} \<and> pending_broadcasts ob = [] \<and>
     has_state_reader ob \<and> ob_config ob = sample_settings \<and> confirmation_depth (watcher_config (ob_watcher ob)) = 2 \<and>
     st_responses (persistence ob) = [] \<and> disk (persistence ob) = (\<lambda>_. True)"

lemma recover_nothing:
  assumes "st_responses (persistence ob) = []" "disk (persistence ob) = (\<lambda>_. True)"
  shows "recover_intent_records E ob = (Inr (), ob\<lparr>persistence := (persistence ob)\<lparr>ops := Suc (ops (persistence ob))\<rparr>\<rparr>)"
  using assms by (simp add: recover_intent_records_def list_responses_def disk_read_def)

lemma sample_adopts: "\<exists>ob r. snd (run_iteration sample_env opening_source (sample_observer True (empty_store (\<lambda>_. True)))) = ob \<and> adopted ob r"
proof -
  let ?ob = "sample_observer True (empty_store (\<lambda>_. True))"
  let ?ob1 = "?ob\<lparr>persistence := (persistence ?ob)\<lparr>ops := Suc (ops (persistence ?ob))\<rparr>\<rparr>"
  let ?r = "adopted_record sample_settings 5 (replicate 32 3) 8"
  let ?it = "\<lparr>watch_events = [opening_event], new_last_confirmed = Some 8, reorg_absorbed = False\<rparr>"
  have f: "st_responses (persistence ?ob) = []" "disk (persistence ?ob) = (\<lambda>_. True)" "games ?ob = []" "iteration_pivot_inserts ?ob = []"
    by (simp_all add: sample_observer_def empty_store_def)
  obtain w where w: "watcher_run_iteration (keccak sample_env) opening_source (ob_watcher ?ob1) = (Inr ?it, w)"
      "confirmation_depth (watcher_config w) = 2"
    using opening_watched [of ?ob1] by auto
  let ?ob2 = "?ob1\<lparr>ob_watcher := w\<rparr>"
  have inner: "run_iteration_inner sample_env opening_source ?ob = finish_iteration sample_env ?ob2 ?it"
    using w(1) f by (simp add: run_iteration_inner_def recover_nothing)
  have r: "rec_game_id ?r = 5" "\<not> state_known ?r" "rec_me ?r = Sequencer" "game_status (rec_state ?r) = InProgress" "turn (rec_state ?r) = Sequencer"
    by (simp_all add: adopted_record_def sample_settings_def)
  have "\<exists>k. staged sample_env ?ob2 ?it = (k, ?ob2\<lparr>games := [(5, ?r)]\<rparr>, upsert_game batch_new ?r)"
    using r by (simp add: staged_def opening_event_def handle_game_opened_def put_game_def sweep_owed_moves_def sweep_timeout_claims_def
      games_where_def map_filter_def sample_observer_def is_in_progress_def maybe_play_move_def empty_store_def Let_def)
  then obtain k where st: "staged sample_env ?ob2 ?it = (k, ?ob2\<lparr>games := [(5, ?r)]\<rparr>, upsert_game batch_new ?r)" by blast
  obtain out ob3 where fin: "finish_iteration sample_env ?ob2 ?it = (Inr out, ob3)" and ob3: "adopted ob3 ?r"
    unfolding finish_stages [OF st] using r w(2)
    by (simp add: mark_progress_def set_reorg_window_def set_cursor_def upsert_game_def batch_new_def batch_is_empty_def
      commit_batch_def disk_write_def drained_def adopted_def sample_observer_def empty_store_def Let_def)
  have "?ob\<lparr>iteration_pivot_inserts := []\<rparr> = ?ob" by (simp add: sample_observer_def)
  then have "snd (run_iteration sample_env opening_source ?ob) = ob3" using inner fin by (simp add: run_iteration_def)
  then show ?thesis using ob3 by blast
qed

lemma sample_answered:
  assumes a: "adopted ob r"
  shows "\<exists>out ob' h x. run_iteration sample_env idle_source ob = (Inr out, ob') \<and> games ob' \<noteq> [] \<and>
    bt_get (st_responses (persistence ob')) h = Some x \<and> live x"
proof -
  note a' = a [unfolded adopted_def]
  let ?ob = "ob\<lparr>iteration_pivot_inserts := []\<rparr>"
  let ?ob1 = "?ob\<lparr>persistence := (persistence ob)\<lparr>ops := Suc (ops (persistence ob))\<rparr>\<rparr>"
  let ?r = "\<lparr>rec_game_id = 5, rec_state = sample_state (replicate 32 9), rec_me = Sequencer, last_updated_block = cursor_or_zero ?ob1,
    state_known = True, turn_deadline = Some 100, disputed_log_index = Some 8\<rparr>"
  have rec: "recover_intent_records sample_env ?ob = (Inr (), ?ob1)" using a' recover_nothing [of ?ob] by simp
  have dep: "oc_deployment_id sample_settings = replicate 32 9" by (simp add: sample_settings_def)
  have s: "game_deployment_id (sample_state d) = d" "game_status (sample_state d) = InProgress"
      "claim_idx (high (disputed (sample_state d))) = 8" "claim_idx (low (disputed (sample_state d))) = 0" for d
    by (simp_all add: sample_state_def)
  define ob2 where "ob2 = snd (hydrate_cold_start_games sample_env ?ob1 (cursor_or_zero ?ob1))"
  have ob2: "waiting ob2 ?r" "confirmation_depth (watcher_config (ob_watcher ob2)) = 2" "disk (persistence ob2) = (\<lambda>_. True)"
    using a' dep s by (auto simp: ob2_def hydrate_cold_start_games_def games_where_def map_filter_def mark_state_known_def is_terminal_def
      commit_batch_def disk_write_def upsert_game_def batch_new_def waiting_def Let_def)
  have inner: "run_iteration_inner sample_env idle_source ?ob = finish_iteration sample_env ob2 no_blocks"
    using rec a' idle_watch [OF ob2(2)] by (simp add: run_iteration_inner_def ob2_def [symmetric])
  obtain out ob3 where f: "finish_iteration sample_env ob2 no_blocks = (Inr out, ob3)" "games ob3 = games ob2"
      "bt_get (st_responses (persistence ob3)) (ptx_hash (sample_tx (world ob2))) =
        Some ((sample_response (world ob2) (cursor_or_zero ob2))\<lparr>resp_status := Pending\<rparr>)"
    using sample_played [OF ob2(1)] ob2(3) by auto
  have "run_iteration sample_env idle_source ob = (Inr out, ob3)" using inner f(1) by (simp add: run_iteration_def)
  moreover have "games ob3 \<noteq> []" using f(2) ob2(1) by (simp add: waiting_def)
  moreover have "live ((sample_response n b)\<lparr>resp_status := Pending\<rparr>)" for n b by (simp add: live_def)
  ultimately show ?thesis using f(3) by blast
qed

lemma sample_life:
  "\<exists>ob h x. life sample_env sample_settings ob \<and> games ob \<noteq> [] \<and> bt_get (st_responses (persistence ob)) h = Some x \<and> live x"
proof -
  let ?ob = "sample_observer True (empty_store (\<lambda>_. True))"
  have "fst (observer_new sample_settings False True 0 (empty_store (\<lambda>_. True))) = Inr (Val ?ob)"
    by (rule sample_new) (simp_all add: empty_store_def)
  then have l: "life sample_env sample_settings ?ob" by (rule life.start [rotated]) (simp add: fail_stop_def)
  obtain ob1 r where "snd (run_iteration sample_env opening_source ?ob) = ob1" and a: "adopted ob1 r" using sample_adopts by blast
  then have l1: "life sample_env sample_settings ob1" using life.iterate [OF l, of opening_source] by simp
  obtain out ob2 h x where "run_iteration sample_env idle_source ob1 = (Inr out, ob2)" "games ob2 \<noteq> []"
      "bt_get (st_responses (persistence ob2)) h = Some x" "live x"
    using sample_answered [OF a] by blast
  then show ?thesis using life.iterate [OF l1, of idle_source] by auto
qed

text \<open>
  A store with a known game and the intended transaction of its move, and a process in which only the
  eighth call on the store fails.
\<close>

definition sample_record :: GameRecord where
  "sample_record = \<lparr>rec_game_id = 5, rec_state = sample_state (replicate 32 9), rec_me = Sequencer, last_updated_block = 1,
     state_known = True, turn_deadline = Some 100, disputed_log_index = Some 8\<rparr>"

definition intended :: ResponseRecord where
  "intended = (sample_response 9 1)\<lparr>raw_tx_hex := Some (sample_hex [1])\<rparr>"

definition flaky_store :: Persistence where
  "flaky_store = (empty_store (\<lambda>i. i \<noteq> 7))\<lparr>st_games := [(5, sample_record)], st_responses := [(ptx_hash (sample_tx 9), intended)]\<rparr>"

definition released :: "nat Observer" where
  "released = (sample_observer False flaky_store)\<lparr>persistence := flaky_store\<lparr>ops := 8\<rparr>, submitted_pivots := {},
     broadcast_failures := [(5, MoveKind.Submit, Some 4) \<mapsto> 1], world := 1\<rparr>"

lemma released_waiting: "waiting released sample_record"
  by (simp add: waiting_def released_def sample_observer_def flaky_store_def sample_record_def)

lemma sample_released: "recover_intent_records sample_env (sample_observer False flaky_store) = (Inr (), released)"
proof -
  let ?p = "\<lparr>prepared = \<lparr>ptx_hash = ptx_hash (sample_tx 9), ptx_raw = [1]\<rparr>, pb_game_id = 5, pb_pivot_idx = Some 4, pb_move_kind = MoveKind.Submit\<rparr>"
  let ?ob = "(sample_observer False flaky_store)\<lparr>persistence := flaky_store\<lparr>ops := 6\<rparr>\<rparr>"
  have p: "intent_broadcast sample_env intended = Some ?p"
    by (simp add: intent_broadcast_def intended_def sample_response_def sample_unhex_hex sample_tx_def)
  have subm: "submitted_pivots (sample_observer False flaky_store) = {(5, MoveKind.Submit, Some 4)}"
    by (simp add: sample_observer_def flaky_store_def intended_def sample_response_def resp_key_def)
  have "broadcast_pending sample_env ?ob ?p = (Failed, released\<lparr>persistence := flaky_store\<lparr>ops := 6\<rparr>\<rparr>)"
    using subm by (simp add: broadcast_pending_def release_pivot_after_broadcast_failure_def pending_key_def released_def
      sample_observer_def sample_settings_def word_le_nat_alt Let_def)
  then have "snd (broadcast_and_update_status sample_env ?ob ?p) = released"
    using sample_hash [of 9] by (simp add: broadcast_and_update_status_def load_response_def store_response_def disk_read_def disk_write_def
      flaky_store_def empty_store_def intended_def sample_response_def released_def Let_def)
  with p show ?thesis
    by (simp add: recover_intent_records_def list_responses_def disk_read_def sample_observer_def flaky_store_def empty_store_def)
qed

lemma sample_idle: "run_iteration_inner sample_env idle_source (sample_observer False flaky_store) = finish_iteration sample_env released no_blocks"
proof -
  have "confirmation_depth (watcher_config (ob_watcher released)) = 2" "\<not> has_state_reader released"
    by (simp_all add: released_def sample_observer_def sample_settings_def sample_config_def)
  then show ?thesis using idle_watch [of "ob_watcher released"] by (simp add: run_iteration_inner_def sample_released)
qed

section \<open>The guarantees\<close>

text \<open>
  C8: whatever the chain, the node and the signer answer, and at whichever call a process loses its store
  or is restarted, the store never holds two live transactions (intended, pending or confirmed) for one move of a game.
\<close>

theorem one_live_response:
  assumes "env_ok E" "life E c ob"
  shows "one_live (st_responses (persistence ob))"
  using life_sound [OF assms] by (simp add: sound_def tracked_def)

theorem one_live_response_witness:
  "\<exists>ob h x. life sample_env sample_settings ob \<and> bt_get (st_responses (persistence ob)) h = Some x \<and> live x \<and>
     one_live (st_responses (persistence ob))"
  using one_live_response [OF sample_env_ok] sample_life by blast

text \<open>
  C39: in every state of an observer, in memory and on disk, the games are kept in the order of their ids
  and each record carries its own id, this side and deployment, and knows its disputed index exactly when its state is known.
\<close>

theorem games_well_formed:
  assumes "env_ok E" "life E c ob"
  shows "games_ok c (games ob) \<and> games_ok c (st_games (persistence ob))"
  using life_sound [OF assms] by (simp add: sound_def)

theorem games_well_formed_witness:
  "\<exists>ob. life sample_env sample_settings ob \<and> games ob \<noteq> [] \<and> games_ok sample_settings (games ob) \<and>
     games_ok sample_settings (st_games (persistence ob))"
  using games_well_formed [OF sample_env_ok] sample_life by blast



text \<open>
  C40: the recovery of intended transactions drops the error of the status update, with the move already
  released by the failed broadcast.  After one failing call on the store the same iteration signs
  the move again, reports success and leaves two live transactions for it.
\<close>

theorem swallowed_failure_doubles:
  "let ob = sample_observer False flaky_store; (r, ob') = run_iteration sample_env idle_source ob in
   fst (observer_new sample_settings False False 0 flaky_store) = Inr (Val ob) \<and>
   one_live (st_responses (persistence ob)) \<and> (\<exists>out. r = Inr out) \<and> \<not> one_live (st_responses (persistence ob'))"
proof -
  let ?ob = "sample_observer False flaky_store"
  let ?h = "ptx_hash (sample_tx 1)" and ?h9 = "ptx_hash (sample_tx 9)" and ?r = "(sample_response 1 0)\<lparr>resp_status := Pending\<rparr>"
  have w: "world released = 1" "cursor_or_zero released = 0" "persistence released = flaky_store\<lparr>ops := 8\<rparr>"
    by (simp_all add: released_def sample_observer_def cursor_or_zero_def)
  have t9: "bt_get (st_responses flaky_store) ?h9 = Some intended" by (simp add: flaky_store_def)
  have "\<forall>i \<in> {ops (persistence released)..<ops (persistence released) + 3}. disk (persistence released) i"
    by (auto simp: w(3) flaky_store_def empty_store_def)
  then obtain out ob' where f: "finish_iteration sample_env released no_blocks = (Inr out, ob')"
      "st_responses (persistence ob') = bt_insert ?h ?r (bt_insert ?h (sample_response 1 0) (st_responses flaky_store))"
    using sample_played [OF released_waiting] w by auto
  have "?h \<noteq> ?h9" by (simp add: sample_tx_def)
  then have g: "bt_get (st_responses (persistence ob')) ?h = Some ?r" "bt_get (st_responses (persistence ob')) ?h9 = Some intended"
    using t9 by (simp_all add: f(2))
  have "live ?r" "live intended" "resp_key ?r = resp_key intended"
    by (simp_all add: live_def intended_def sample_response_def resp_key_def)
  then have "\<not> one_live (st_responses (persistence ob'))" using g \<open>?h \<noteq> ?h9\<close> unfolding one_live_def by blast
  moreover have "one_live (st_responses (persistence ?ob))"
    by (auto simp: one_live_def sample_observer_def flaky_store_def split: if_splits)
  moreover have "run_iteration sample_env idle_source ?ob = (Inr out, ob')"
  proof -
    have "?ob\<lparr>iteration_pivot_inserts := []\<rparr> = ?ob" by (simp add: sample_observer_def)
    then show ?thesis using f(1) by (simp add: run_iteration_def sample_idle)
  qed
  moreover have "fst (observer_new sample_settings False False 0 flaky_store) = Inr (Val ?ob)"
    by (rule sample_new) (simp_all add: flaky_store_def empty_store_def intended_def sample_response_def)
  ultimately show ?thesis by simp
qed

end
