(* ===== verification/Indexer_Codec.thy ===== *)
theory Indexer_Codec
  imports Cbe_Wire
begin

text \<open>
  The events the indexer consumes (\<open>knomosis-indexer/src/event.rs\<close>) and their CBE codec
  (\<open>knomosis-indexer/src/decoder.rs\<close>): the event type with its classifiers, the cursor with its readers,
  the decoder and the two encoders.  The lemmas show that the decoder accepts exactly what the checked
  encoder writes.
\<close>

unbundle bit_operations_syntax

section \<open>Events\<close>

datatype Event =
    BalanceChanged u64 u64 u256 u256
  | NonceAdvanced u64 u128 u128
  | IdentityRegistered u64 bytes
  | IdentityRevoked u64
  | TimeRecorded u64
  | DisputeFiled u64 u64
  | DisputeWithdrawn u64
  | VerdictApplied u64 u64
  | RewardIssued u64 u64 u256
  | WithdrawalRequested u64 u64 u256 bytes u64
  | DepositCredited u64 u64 u256 u64
  | LocalPolicyDeclared u64 bytes
  | LocalPolicyRevoked u64
  | FaultProofGameOpened u64 u64 u64 u64 bytes
  | FaultProofBisectionStep u64 u64 u64 u64 bytes
  | FaultProofGameSettled u64 u64 u64 u256
  | DepositWithFeeCredited u64 u64 u64 u256 u256 u128 u64
  | ActionBudgetTopUp u64 u64 u256 u128 u64
  | GasPoolClaim u64 u64 u256
  | DelegatedActionBudgetTopUp u64 u64 u64 u256 u128 u64
  | BudgetConsumed u64 u128
  | AmmReservesReclaimed u64 u256 u64 u64
  | ReserveSwapExecuted u64 u64 u64 u256 u256 u64
  | ReserveSeeded u64 u256 u64 u64

fun event_tag :: "Event \<Rightarrow> u8" where
  "event_tag (BalanceChanged _ _ _ _) = 0"
| "event_tag (NonceAdvanced _ _ _) = 1"
| "event_tag (IdentityRegistered _ _) = 2"
| "event_tag (IdentityRevoked _) = 3"
| "event_tag (TimeRecorded _) = 4"
| "event_tag (DisputeFiled _ _) = 5"
| "event_tag (DisputeWithdrawn _) = 6"
| "event_tag (VerdictApplied _ _) = 7"
| "event_tag (RewardIssued _ _ _) = 8"
| "event_tag (WithdrawalRequested _ _ _ _ _) = 9"
| "event_tag (DepositCredited _ _ _ _) = 10"
| "event_tag (LocalPolicyDeclared _ _) = 11"
| "event_tag (LocalPolicyRevoked _) = 12"
| "event_tag (FaultProofGameOpened _ _ _ _ _) = 13"
| "event_tag (FaultProofBisectionStep _ _ _ _ _) = 14"
| "event_tag (FaultProofGameSettled _ _ _ _) = 15"
| "event_tag (DepositWithFeeCredited _ _ _ _ _ _ _) = 16"
| "event_tag (ActionBudgetTopUp _ _ _ _ _) = 17"
| "event_tag (GasPoolClaim _ _ _) = 18"
| "event_tag (DelegatedActionBudgetTopUp _ _ _ _ _ _) = 19"
| "event_tag (BudgetConsumed _ _) = 20"
| "event_tag (AmmReservesReclaimed _ _ _ _) = 22"
| "event_tag (ReserveSwapExecuted _ _ _ _ _ _) = 23"
| "event_tag (ReserveSeeded _ _ _ _) = 24"

text \<open>The principal actor of an event, its resource, and the two families.\<close>

fun event_actor :: "Event \<Rightarrow> u64 option" where
  "event_actor (BalanceChanged _ actor _ _) = Some actor"
| "event_actor (NonceAdvanced actor _ _) = Some actor"
| "event_actor (IdentityRegistered actor _) = Some actor"
| "event_actor (IdentityRevoked actor) = Some actor"
| "event_actor (LocalPolicyDeclared actor _) = Some actor"
| "event_actor (LocalPolicyRevoked actor) = Some actor"
| "event_actor (BudgetConsumed actor _) = Some actor"
| "event_actor (DisputeFiled challenger _) = Some challenger"
| "event_actor (FaultProofGameOpened _ challenger _ _ _) = Some challenger"
| "event_actor (RewardIssued _ recipient _) = Some recipient"
| "event_actor (DepositCredited _ recipient _ _) = Some recipient"
| "event_actor (DepositWithFeeCredited _ recipient _ _ _ _ _) = Some recipient"
| "event_actor (DelegatedActionBudgetTopUp recipient _ _ _ _ _) = Some recipient"
| "event_actor (WithdrawalRequested _ sender _ _ _) = Some sender"
| "event_actor (FaultProofBisectionStep _ _ party _ _) = Some party"
| "event_actor (FaultProofGameSettled _ winner _ _) = Some winner"
| "event_actor (ActionBudgetTopUp signer _ _ _ _) = Some signer"
| "event_actor (GasPoolClaim _ sequencer _) = Some sequencer"
| "event_actor (AmmReservesReclaimed _ _ reserve_actor _) = Some reserve_actor"
| "event_actor (ReserveSeeded _ _ reserve_actor _) = Some reserve_actor"
| "event_actor (ReserveSwapExecuted _ _ user _ _ _) = Some user"
| "event_actor (TimeRecorded _) = None"
| "event_actor (DisputeWithdrawn _) = None"
| "event_actor (VerdictApplied _ _) = None"

fun event_resource :: "Event \<Rightarrow> u64 option" where
  "event_resource (BalanceChanged resource _ _ _) = Some resource"
| "event_resource (RewardIssued resource _ _) = Some resource"
| "event_resource (WithdrawalRequested resource _ _ _ _) = Some resource"
| "event_resource (DepositCredited resource _ _ _) = Some resource"
| "event_resource (DepositWithFeeCredited resource _ _ _ _ _ _) = Some resource"
| "event_resource (GasPoolClaim resource _ _) = Some resource"
| "event_resource (AmmReservesReclaimed resource _ _ _) = Some resource"
| "event_resource (ReserveSeeded resource _ _ _) = Some resource"
| "event_resource (ActionBudgetTopUp _ gas_resource _ _ _) = Some gas_resource"
| "event_resource (DelegatedActionBudgetTopUp _ _ gas_resource _ _ _) = Some gas_resource"
| "event_resource _ = None"

fun is_balance_change :: "Event \<Rightarrow> bool" where
  "is_balance_change (BalanceChanged _ _ _ _) = True"
| "is_balance_change _ = False"

fun is_gas_pool_family :: "Event \<Rightarrow> bool" where
  "is_gas_pool_family (DepositWithFeeCredited _ _ _ _ _ _ _) = True"
| "is_gas_pool_family (ActionBudgetTopUp _ _ _ _ _) = True"
| "is_gas_pool_family (GasPoolClaim _ _ _) = True"
| "is_gas_pool_family (DelegatedActionBudgetTopUp _ _ _ _ _ _) = True"
| "is_gas_pool_family (BudgetConsumed _ _) = True"
| "is_gas_pool_family _ = False"

section \<open>The cursor\<close>

definition IX_HEAD_LEN :: usize where "IX_HEAD_LEN = 9"
definition IX_AMOUNT_HEAD_LEN :: usize where "IX_AMOUNT_HEAD_LEN = 33"
definition ETH_ADDRESS_BYTES :: usize where "ETH_ADDRESS_BYTES = 20"
definition HARD_MAX_BYTE_STRING_LEN :: u64 where "HARD_MAX_BYTE_STRING_LEN = 1048576"

datatype IxDecodeError =
    IxTruncated usize usize usize
  | BadHeadTag usize u8 u8
  | ByteStringTooLong usize u64 u64
  | UnknownTag u64
  | IxTrailingBytes usize
  | BadByteStringLength usize usize u64

record IxCursor =
  ix_bytes :: bytes
  ix_offset :: usize

type_synonym 'a ix_reader = "(IxCursor, IxDecodeError, 'a) reader"

definition ix_cursor_new :: "bytes \<Rightarrow> IxCursor" where
  "ix_cursor_new bs = \<lparr>ix_bytes = bs, ix_offset = 0\<rparr>"

definition ix_remaining :: "IxCursor \<Rightarrow> usize" where
  "ix_remaining c = length (ix_bytes c) - ix_offset c"

definition ix_read_bytes :: "usize \<Rightarrow> bytes ix_reader" where
  "ix_read_bytes n c =
     (let available = ix_remaining c in
      if available < n then Inl (IxTruncated (ix_offset c) n available)
      else case usize_checked_add (ix_offset c) n of
        None \<Rightarrow> Inl (IxTruncated (ix_offset c) n available)
      | Some e \<Rightarrow> Inr (take n (drop (ix_offset c) (ix_bytes c)), c\<lparr>ix_offset := e\<rparr>))"

definition ix_read_head_raw :: "(u8 \<times> u64) ix_reader" where
  "ix_read_head_raw = rbind (ix_read_bytes IX_HEAD_LEN) (\<lambda>buf. rret (buf ! 0, from_le (drop 1 buf)))"

definition ix_read_uint :: "u64 ix_reader" where
  "ix_read_uint = (\<lambda>c. rbind ix_read_head_raw (\<lambda>(tag, n).
     if tag \<noteq> 0 then rfail (BadHeadTag (ix_offset c) 0 tag) else rret n) c)"

definition ix_read_amount :: "u256 ix_reader" where
  "ix_read_amount = (\<lambda>c. rbind (ix_read_bytes IX_AMOUNT_HEAD_LEN) (\<lambda>buf.
     if buf ! 0 \<noteq> 6 then rfail (BadHeadTag (ix_offset c) 6 (buf ! 0)) else rret (from_le (drop 1 buf))) c)"

definition ix_read_budget_units :: "u128 ix_reader" where
  "ix_read_budget_units = rbind ix_read_uint (\<lambda>n. rret (ucast n))"

definition ix_read_nonce :: "u128 ix_reader" where
  "ix_read_nonce = rbind ix_read_uint (\<lambda>n. rret (ucast n))"

definition ix_read_byte_string :: "bytes ix_reader" where
  "ix_read_byte_string = (\<lambda>c. rbind ix_read_head_raw (\<lambda>(tag, len).
     if tag \<noteq> 2 then rfail (BadHeadTag (ix_offset c) 2 tag)
     else if HARD_MAX_BYTE_STRING_LEN < len then rfail (ByteStringTooLong (ix_offset c) len HARD_MAX_BYTE_STRING_LEN)
     else ix_read_bytes (unat len)) c)"

definition ix_read_byte_string_exact :: "usize \<Rightarrow> bytes ix_reader" where
  "ix_read_byte_string_exact expected = (\<lambda>c. rbind ix_read_head_raw (\<lambda>(tag, len).
     if tag \<noteq> 2 then rfail (BadHeadTag (ix_offset c) 2 tag)
     else if len \<noteq> of_nat expected then rfail (BadByteStringLength (ix_offset c) expected len)
     else ix_read_bytes expected) c)"

definition ix_read_eth_address :: "bytes ix_reader" where
  "ix_read_eth_address = ix_read_byte_string_exact ETH_ADDRESS_BYTES"

section \<open>The decoder\<close>

definition decode_fields :: "u64 \<Rightarrow> Event ix_reader" where
  "decode_fields tag =
     (if tag = 0 then rbind ix_read_uint (\<lambda>resource. rbind ix_read_uint (\<lambda>actor.
        rbind ix_read_amount (\<lambda>old_value. rbind ix_read_amount (\<lambda>new_value.
        rret (BalanceChanged resource actor old_value new_value)))))
      else if tag = 1 then rbind ix_read_uint (\<lambda>actor. rbind ix_read_nonce (\<lambda>old_nonce.
        rbind ix_read_nonce (\<lambda>new_nonce. rret (NonceAdvanced actor old_nonce new_nonce))))
      else if tag = 2 then rbind ix_read_uint (\<lambda>actor. rbind ix_read_byte_string (\<lambda>key.
        rret (IdentityRegistered actor key)))
      else if tag = 3 then rbind ix_read_uint (\<lambda>actor. rret (IdentityRevoked actor))
      else if tag = 4 then rbind ix_read_uint (\<lambda>time. rret (TimeRecorded time))
      else if tag = 5 then rbind ix_read_uint (\<lambda>challenger. rbind ix_read_uint (\<lambda>target_idx.
        rret (DisputeFiled challenger target_idx)))
      else if tag = 6 then rbind ix_read_uint (\<lambda>dispute_idx. rret (DisputeWithdrawn dispute_idx))
      else if tag = 7 then rbind ix_read_uint (\<lambda>dispute_idx. rbind ix_read_uint (\<lambda>outcome_tag.
        rret (VerdictApplied dispute_idx outcome_tag)))
      else if tag = 8 then rbind ix_read_uint (\<lambda>resource. rbind ix_read_uint (\<lambda>recipient.
        rbind ix_read_amount (\<lambda>amount. rret (RewardIssued resource recipient amount))))
      else if tag = 9 then rbind ix_read_uint (\<lambda>resource. rbind ix_read_uint (\<lambda>sender.
        rbind ix_read_amount (\<lambda>amount. rbind ix_read_eth_address (\<lambda>recipient_l1.
        rbind ix_read_uint (\<lambda>withdrawal_id.
        rret (WithdrawalRequested resource sender amount recipient_l1 withdrawal_id))))))
      else if tag = 10 then rbind ix_read_uint (\<lambda>resource. rbind ix_read_uint (\<lambda>recipient.
        rbind ix_read_amount (\<lambda>amount. rbind ix_read_uint (\<lambda>deposit_id.
        rret (DepositCredited resource recipient amount deposit_id)))))
      else if tag = 11 then rbind ix_read_uint (\<lambda>actor. rbind ix_read_byte_string (\<lambda>policy.
        rret (LocalPolicyDeclared actor policy)))
      else if tag = 12 then rbind ix_read_uint (\<lambda>actor. rret (LocalPolicyRevoked actor))
      else if tag = 13 then rbind ix_read_uint (\<lambda>game_id. rbind ix_read_uint (\<lambda>challenger.
        rbind ix_read_uint (\<lambda>disputed_start_idx. rbind ix_read_uint (\<lambda>disputed_end_idx.
        rbind ix_read_byte_string (\<lambda>binding_hash.
        rret (FaultProofGameOpened game_id challenger disputed_start_idx disputed_end_idx binding_hash))))))
      else if tag = 14 then rbind ix_read_uint (\<lambda>game_id. rbind ix_read_uint (\<lambda>round.
        rbind ix_read_uint (\<lambda>party. rbind ix_read_uint (\<lambda>idx.
        rbind ix_read_byte_string (\<lambda>commit. rret (FaultProofBisectionStep game_id round party idx commit))))))
      else if tag = 15 then rbind ix_read_uint (\<lambda>game_id. rbind ix_read_uint (\<lambda>winner.
        rbind ix_read_uint (\<lambda>loser. rbind ix_read_amount (\<lambda>payout.
        rret (FaultProofGameSettled game_id winner loser payout)))))
      else if tag = 16 then rbind ix_read_uint (\<lambda>resource. rbind ix_read_uint (\<lambda>recipient.
        rbind ix_read_uint (\<lambda>pool_actor. rbind ix_read_amount (\<lambda>user_amount.
        rbind ix_read_amount (\<lambda>pool_amount. rbind ix_read_budget_units (\<lambda>budget_grant.
        rbind ix_read_uint (\<lambda>deposit_id.
        rret (DepositWithFeeCredited resource recipient pool_actor user_amount pool_amount budget_grant deposit_id))))))))
      else if tag = 17 then rbind ix_read_uint (\<lambda>signer. rbind ix_read_uint (\<lambda>gas_resource.
        rbind ix_read_amount (\<lambda>gas_amount. rbind ix_read_budget_units (\<lambda>budget_increment.
        rbind ix_read_uint (\<lambda>pool_actor.
        rret (ActionBudgetTopUp signer gas_resource gas_amount budget_increment pool_actor))))))
      else if tag = 18 then rbind ix_read_uint (\<lambda>resource. rbind ix_read_uint (\<lambda>sequencer.
        rbind ix_read_amount (\<lambda>amount. rret (GasPoolClaim resource sequencer amount))))
      else if tag = 19 then rbind ix_read_uint (\<lambda>recipient. rbind ix_read_uint (\<lambda>signer.
        rbind ix_read_uint (\<lambda>gas_resource. rbind ix_read_amount (\<lambda>gas_amount.
        rbind ix_read_budget_units (\<lambda>budget_increment. rbind ix_read_uint (\<lambda>pool_actor.
        rret (DelegatedActionBudgetTopUp recipient signer gas_resource gas_amount budget_increment pool_actor)))))))
      else if tag = 20 then rbind ix_read_uint (\<lambda>actor. rbind ix_read_budget_units (\<lambda>amount.
        rret (BudgetConsumed actor amount)))
      else if tag = 22 then rbind ix_read_uint (\<lambda>resource. rbind ix_read_amount (\<lambda>amount.
        rbind ix_read_uint (\<lambda>reserve_actor. rbind ix_read_uint (\<lambda>pool_actor.
        rret (AmmReservesReclaimed resource amount reserve_actor pool_actor)))))
      else if tag = 23 then rbind ix_read_uint (\<lambda>from_resource. rbind ix_read_uint (\<lambda>to_resource.
        rbind ix_read_uint (\<lambda>user. rbind ix_read_amount (\<lambda>amount_in.
        rbind ix_read_amount (\<lambda>amount_out. rbind ix_read_uint (\<lambda>reserve_actor.
        rret (ReserveSwapExecuted from_resource to_resource user amount_in amount_out reserve_actor)))))))
      else if tag = 24 then rbind ix_read_uint (\<lambda>resource. rbind ix_read_amount (\<lambda>amount.
        rbind ix_read_uint (\<lambda>reserve_actor. rbind ix_read_uint (\<lambda>deposit_id.
        rret (ReserveSeeded resource amount reserve_actor deposit_id)))))
      else rfail (UnknownTag tag))"

definition ix_decode_event :: "bytes \<Rightarrow> IxDecodeError + Event" where
  "ix_decode_event payload =
     (case rbind ix_read_uint decode_fields (ix_cursor_new payload) of
        Inl e \<Rightarrow> Inl e
      | Inr (event, c) \<Rightarrow> if ix_remaining c \<noteq> 0 then Inl (IxTrailingBytes (ix_remaining c)) else Inr event)"

section \<open>The encoders\<close>

datatype IxEncodeError = AmountExceedsBound u128

definition write_uint :: "u64 \<Rightarrow> bytes \<Rightarrow> bytes" where
  "write_uint n out = out @ [0] @ to_le n"

definition write_amount_head :: "u256 \<Rightarrow> bytes \<Rightarrow> bytes" where
  "write_amount_head n out = out @ [6] @ to_le n"

definition write_byte_string :: "bytes \<Rightarrow> bytes \<Rightarrow> bytes" where
  "write_byte_string payload out = out @ [2] @ to_le (of_nat (length payload) :: u64) @ payload"

definition write_amount :: "u256 \<Rightarrow> bytes \<Rightarrow> bytes" where
  "write_amount amount out = write_amount_head amount out"

definition write_budget_units :: "u128 \<Rightarrow> bytes \<Rightarrow> bytes" where
  "write_budget_units units out = write_uint (ucast (units AND ucast (wmax :: u64))) out"

definition write_nonce :: "u128 \<Rightarrow> bytes \<Rightarrow> bytes" where
  "write_nonce nonce out = write_uint (ucast (nonce AND ucast (wmax :: u64))) out"

definition write_nonce_checked :: "u128 \<Rightarrow> bytes \<Rightarrow> IxEncodeError + bytes" where
  "write_nonce_checked nonce out =
     (if push_bit 64 1 \<le> nonce then Inl (AmountExceedsBound nonce) else Inr (write_uint (ucast nonce) out))"

definition write_budget_units_checked :: "u128 \<Rightarrow> bytes \<Rightarrow> IxEncodeError + bytes" where
  "write_budget_units_checked units out =
     (if push_bit 64 1 \<le> units then Inl (AmountExceedsBound units) else Inr (write_uint (ucast units) out))"

definition write_eth_address :: "bytes \<Rightarrow> bytes \<Rightarrow> bytes" where
  "write_eth_address addr out = write_byte_string addr out"

text \<open>The writes of an event in order, each appending to the output so far.\<close>

fun ix_encode_fields :: "Event \<Rightarrow> bytes \<Rightarrow> bytes" where
  "ix_encode_fields (BalanceChanged resource actor old_value new_value) = fold id [write_uint resource,
     write_uint actor, write_amount old_value, write_amount new_value]"
| "ix_encode_fields (NonceAdvanced actor old_nonce new_nonce) = fold id [write_uint actor, write_nonce old_nonce,
     write_nonce new_nonce]"
| "ix_encode_fields (IdentityRegistered actor key) = fold id [write_uint actor, write_byte_string key]"
| "ix_encode_fields (IdentityRevoked actor) = fold id [write_uint actor]"
| "ix_encode_fields (TimeRecorded time) = fold id [write_uint time]"
| "ix_encode_fields (DisputeFiled challenger target_idx) = fold id [write_uint challenger, write_uint target_idx]"
| "ix_encode_fields (DisputeWithdrawn dispute_idx) = fold id [write_uint dispute_idx]"
| "ix_encode_fields (VerdictApplied dispute_idx outcome_tag) = fold id [write_uint dispute_idx, write_uint outcome_tag]"
| "ix_encode_fields (RewardIssued resource recipient amount) = fold id [write_uint resource, write_uint recipient,
     write_amount amount]"
| "ix_encode_fields (WithdrawalRequested resource sender amount recipient_l1 withdrawal_id) = fold id [
     write_uint resource, write_uint sender, write_amount amount, write_eth_address recipient_l1,
     write_uint withdrawal_id]"
| "ix_encode_fields (DepositCredited resource recipient amount deposit_id) = fold id [write_uint resource,
     write_uint recipient, write_amount amount, write_uint deposit_id]"
| "ix_encode_fields (LocalPolicyDeclared actor policy) = fold id [write_uint actor, write_byte_string policy]"
| "ix_encode_fields (LocalPolicyRevoked actor) = fold id [write_uint actor]"
| "ix_encode_fields (FaultProofGameOpened game_id challenger disputed_start_idx disputed_end_idx binding_hash) = fold id [
     write_uint game_id, write_uint challenger, write_uint disputed_start_idx, write_uint disputed_end_idx,
     write_byte_string binding_hash]"
| "ix_encode_fields (FaultProofBisectionStep game_id round party idx commit) = fold id [write_uint game_id,
     write_uint round, write_uint party, write_uint idx, write_byte_string commit]"
| "ix_encode_fields (FaultProofGameSettled game_id winner loser payout) = fold id [write_uint game_id,
     write_uint winner, write_uint loser, write_amount payout]"
| "ix_encode_fields (DepositWithFeeCredited resource recipient pool_actor user_amount pool_amount budget_grant deposit_id) = fold id [
     write_uint resource, write_uint recipient, write_uint pool_actor, write_amount user_amount,
     write_amount pool_amount, write_budget_units budget_grant, write_uint deposit_id]"
| "ix_encode_fields (ActionBudgetTopUp signer gas_resource gas_amount budget_increment pool_actor) = fold id [
     write_uint signer, write_uint gas_resource, write_amount gas_amount, write_budget_units budget_increment,
     write_uint pool_actor]"
| "ix_encode_fields (GasPoolClaim resource sequencer amount) = fold id [write_uint resource, write_uint sequencer,
     write_amount amount]"
| "ix_encode_fields (DelegatedActionBudgetTopUp recipient signer gas_resource gas_amount budget_increment pool_actor) = fold id [
     write_uint recipient, write_uint signer, write_uint gas_resource, write_amount gas_amount,
     write_budget_units budget_increment, write_uint pool_actor]"
| "ix_encode_fields (BudgetConsumed actor amount) = fold id [write_uint actor, write_budget_units amount]"
| "ix_encode_fields (AmmReservesReclaimed resource amount reserve_actor pool_actor) = fold id [write_uint resource,
     write_amount amount, write_uint reserve_actor, write_uint pool_actor]"
| "ix_encode_fields (ReserveSwapExecuted from_resource to_resource user amount_in amount_out reserve_actor) = fold id [
     write_uint from_resource, write_uint to_resource, write_uint user, write_amount amount_in,
     write_amount amount_out, write_uint reserve_actor]"
| "ix_encode_fields (ReserveSeeded resource amount reserve_actor deposit_id) = fold id [write_uint resource,
     write_amount amount, write_uint reserve_actor, write_uint deposit_id]"

definition encode_event :: "Event \<Rightarrow> bytes" where
  "encode_event event = ix_encode_fields event (write_uint (ucast (event_tag event)) [])"

fun run_writers :: "(bytes \<Rightarrow> 'e + bytes) list \<Rightarrow> bytes \<Rightarrow> 'e + bytes" where
  "run_writers [] out = Inr out"
| "run_writers (w # ws) out = res_bind (w out) (run_writers ws)"

fun ix_encode_fields_checked :: "Event \<Rightarrow> bytes \<Rightarrow> IxEncodeError + bytes" where
  "ix_encode_fields_checked (BalanceChanged resource actor old_value new_value) = run_writers [
     Inr \<circ> write_uint resource, Inr \<circ> write_uint actor, Inr \<circ> write_amount old_value,
     Inr \<circ> write_amount new_value]"
| "ix_encode_fields_checked (NonceAdvanced actor old_nonce new_nonce) = run_writers [Inr \<circ> write_uint actor,
     write_nonce_checked old_nonce, write_nonce_checked new_nonce]"
| "ix_encode_fields_checked (IdentityRegistered actor key) = run_writers [Inr \<circ> write_uint actor,
     Inr \<circ> write_byte_string key]"
| "ix_encode_fields_checked (IdentityRevoked actor) = run_writers [Inr \<circ> write_uint actor]"
| "ix_encode_fields_checked (TimeRecorded time) = run_writers [Inr \<circ> write_uint time]"
| "ix_encode_fields_checked (DisputeFiled challenger target_idx) = run_writers [Inr \<circ> write_uint challenger,
     Inr \<circ> write_uint target_idx]"
| "ix_encode_fields_checked (DisputeWithdrawn dispute_idx) = run_writers [Inr \<circ> write_uint dispute_idx]"
| "ix_encode_fields_checked (VerdictApplied dispute_idx outcome_tag) = run_writers [Inr \<circ> write_uint dispute_idx,
     Inr \<circ> write_uint outcome_tag]"
| "ix_encode_fields_checked (RewardIssued resource recipient amount) = run_writers [Inr \<circ> write_uint resource,
     Inr \<circ> write_uint recipient, Inr \<circ> write_amount amount]"
| "ix_encode_fields_checked (WithdrawalRequested resource sender amount recipient_l1 withdrawal_id) = run_writers [
     Inr \<circ> write_uint resource, Inr \<circ> write_uint sender, Inr \<circ> write_amount amount,
     Inr \<circ> write_eth_address recipient_l1, Inr \<circ> write_uint withdrawal_id]"
| "ix_encode_fields_checked (DepositCredited resource recipient amount deposit_id) = run_writers [
     Inr \<circ> write_uint resource, Inr \<circ> write_uint recipient, Inr \<circ> write_amount amount,
     Inr \<circ> write_uint deposit_id]"
| "ix_encode_fields_checked (LocalPolicyDeclared actor policy) = run_writers [Inr \<circ> write_uint actor,
     Inr \<circ> write_byte_string policy]"
| "ix_encode_fields_checked (LocalPolicyRevoked actor) = run_writers [Inr \<circ> write_uint actor]"
| "ix_encode_fields_checked (FaultProofGameOpened game_id challenger disputed_start_idx disputed_end_idx binding_hash) = run_writers [
     Inr \<circ> write_uint game_id, Inr \<circ> write_uint challenger, Inr \<circ> write_uint disputed_start_idx,
     Inr \<circ> write_uint disputed_end_idx, Inr \<circ> write_byte_string binding_hash]"
| "ix_encode_fields_checked (FaultProofBisectionStep game_id round party idx commit) = run_writers [
     Inr \<circ> write_uint game_id, Inr \<circ> write_uint round, Inr \<circ> write_uint party,
     Inr \<circ> write_uint idx, Inr \<circ> write_byte_string commit]"
| "ix_encode_fields_checked (FaultProofGameSettled game_id winner loser payout) = run_writers [
     Inr \<circ> write_uint game_id, Inr \<circ> write_uint winner, Inr \<circ> write_uint loser,
     Inr \<circ> write_amount payout]"
| "ix_encode_fields_checked (DepositWithFeeCredited resource recipient pool_actor user_amount pool_amount budget_grant deposit_id) = run_writers [
     Inr \<circ> write_uint resource, Inr \<circ> write_uint recipient, Inr \<circ> write_uint pool_actor,
     Inr \<circ> write_amount user_amount, Inr \<circ> write_amount pool_amount,
     write_budget_units_checked budget_grant, Inr \<circ> write_uint deposit_id]"
| "ix_encode_fields_checked (ActionBudgetTopUp signer gas_resource gas_amount budget_increment pool_actor) = run_writers [
     Inr \<circ> write_uint signer, Inr \<circ> write_uint gas_resource, Inr \<circ> write_amount gas_amount,
     write_budget_units_checked budget_increment, Inr \<circ> write_uint pool_actor]"
| "ix_encode_fields_checked (GasPoolClaim resource sequencer amount) = run_writers [Inr \<circ> write_uint resource,
     Inr \<circ> write_uint sequencer, Inr \<circ> write_amount amount]"
| "ix_encode_fields_checked (DelegatedActionBudgetTopUp recipient signer gas_resource gas_amount budget_increment pool_actor) = run_writers [
     Inr \<circ> write_uint recipient, Inr \<circ> write_uint signer, Inr \<circ> write_uint gas_resource,
     Inr \<circ> write_amount gas_amount, write_budget_units_checked budget_increment,
     Inr \<circ> write_uint pool_actor]"
| "ix_encode_fields_checked (BudgetConsumed actor amount) = run_writers [Inr \<circ> write_uint actor,
     write_budget_units_checked amount]"
| "ix_encode_fields_checked (AmmReservesReclaimed resource amount reserve_actor pool_actor) = run_writers [
     Inr \<circ> write_uint resource, Inr \<circ> write_amount amount, Inr \<circ> write_uint reserve_actor,
     Inr \<circ> write_uint pool_actor]"
| "ix_encode_fields_checked (ReserveSwapExecuted from_resource to_resource user amount_in amount_out reserve_actor) = run_writers [
     Inr \<circ> write_uint from_resource, Inr \<circ> write_uint to_resource, Inr \<circ> write_uint user,
     Inr \<circ> write_amount amount_in, Inr \<circ> write_amount amount_out, Inr \<circ> write_uint reserve_actor]"
| "ix_encode_fields_checked (ReserveSeeded resource amount reserve_actor deposit_id) = run_writers [
     Inr \<circ> write_uint resource, Inr \<circ> write_amount amount, Inr \<circ> write_uint reserve_actor,
     Inr \<circ> write_uint deposit_id]"

definition encode_event_checked :: "Event \<Rightarrow> IxEncodeError + bytes" where
  "encode_event_checked event = ix_encode_fields_checked event (write_uint (ucast (event_tag event)) [])"

section \<open>Exactness\<close>

text \<open>The wire fields of an event, and the events that have an image.\<close>

fun event_fields :: "Event \<Rightarrow> wfield list" where
  "event_fields (BalanceChanged resource actor old_value new_value) = [FUint resource, FUint actor,
     FAmount old_value, FAmount new_value]"
| "event_fields (NonceAdvanced actor old_nonce new_nonce) = [FUint actor, FUint (ucast old_nonce),
     FUint (ucast new_nonce)]"
| "event_fields (IdentityRegistered actor key) = [FUint actor, FBytes key]"
| "event_fields (IdentityRevoked actor) = [FUint actor]"
| "event_fields (TimeRecorded time) = [FUint time]"
| "event_fields (DisputeFiled challenger target_idx) = [FUint challenger, FUint target_idx]"
| "event_fields (DisputeWithdrawn dispute_idx) = [FUint dispute_idx]"
| "event_fields (VerdictApplied dispute_idx outcome_tag) = [FUint dispute_idx, FUint outcome_tag]"
| "event_fields (RewardIssued resource recipient amount) = [FUint resource, FUint recipient, FAmount amount]"
| "event_fields (WithdrawalRequested resource sender amount recipient_l1 withdrawal_id) = [FUint resource,
     FUint sender, FAmount amount, FBytes recipient_l1, FUint withdrawal_id]"
| "event_fields (DepositCredited resource recipient amount deposit_id) = [FUint resource, FUint recipient,
     FAmount amount, FUint deposit_id]"
| "event_fields (LocalPolicyDeclared actor policy) = [FUint actor, FBytes policy]"
| "event_fields (LocalPolicyRevoked actor) = [FUint actor]"
| "event_fields (FaultProofGameOpened game_id challenger disputed_start_idx disputed_end_idx binding_hash) = [
     FUint game_id, FUint challenger, FUint disputed_start_idx, FUint disputed_end_idx, FBytes binding_hash]"
| "event_fields (FaultProofBisectionStep game_id round party idx commit) = [FUint game_id, FUint round, FUint party,
     FUint idx, FBytes commit]"
| "event_fields (FaultProofGameSettled game_id winner loser payout) = [FUint game_id, FUint winner, FUint loser,
     FAmount payout]"
| "event_fields (DepositWithFeeCredited resource recipient pool_actor user_amount pool_amount budget_grant deposit_id) = [
     FUint resource, FUint recipient, FUint pool_actor, FAmount user_amount, FAmount pool_amount,
     FUint (ucast budget_grant), FUint deposit_id]"
| "event_fields (ActionBudgetTopUp signer gas_resource gas_amount budget_increment pool_actor) = [FUint signer,
     FUint gas_resource, FAmount gas_amount, FUint (ucast budget_increment), FUint pool_actor]"
| "event_fields (GasPoolClaim resource sequencer amount) = [FUint resource, FUint sequencer, FAmount amount]"
| "event_fields (DelegatedActionBudgetTopUp recipient signer gas_resource gas_amount budget_increment pool_actor) = [
     FUint recipient, FUint signer, FUint gas_resource, FAmount gas_amount, FUint (ucast budget_increment),
     FUint pool_actor]"
| "event_fields (BudgetConsumed actor amount) = [FUint actor, FUint (ucast amount)]"
| "event_fields (AmmReservesReclaimed resource amount reserve_actor pool_actor) = [FUint resource, FAmount amount,
     FUint reserve_actor, FUint pool_actor]"
| "event_fields (ReserveSwapExecuted from_resource to_resource user amount_in amount_out reserve_actor) = [
     FUint from_resource, FUint to_resource, FUint user, FAmount amount_in, FAmount amount_out, FUint reserve_actor]"
| "event_fields (ReserveSeeded resource amount reserve_actor deposit_id) = [FUint resource, FAmount amount,
     FUint reserve_actor, FUint deposit_id]"

definition fits64 :: "u128 \<Rightarrow> bool" where
  "fits64 n \<longleftrightarrow> unat n < 2 ^ 64"

fun event_ok :: "Event \<Rightarrow> bool" where
  "event_ok (NonceAdvanced _ old_nonce new_nonce) \<longleftrightarrow> fits64 old_nonce \<and> fits64 new_nonce"
| "event_ok (IdentityRegistered _ key) \<longleftrightarrow> length key \<le> 1048576"
| "event_ok (WithdrawalRequested _ _ _ recipient_l1 _) \<longleftrightarrow> length recipient_l1 = 20"
| "event_ok (LocalPolicyDeclared _ policy) \<longleftrightarrow> length policy \<le> 1048576"
| "event_ok (FaultProofGameOpened _ _ _ _ binding_hash) \<longleftrightarrow> length binding_hash \<le> 1048576"
| "event_ok (FaultProofBisectionStep _ _ _ _ commit) \<longleftrightarrow> length commit \<le> 1048576"
| "event_ok (DepositWithFeeCredited _ _ _ _ _ budget_grant _) \<longleftrightarrow> fits64 budget_grant"
| "event_ok (ActionBudgetTopUp _ _ _ budget_increment _) \<longleftrightarrow> fits64 budget_increment"
| "event_ok (DelegatedActionBudgetTopUp _ _ _ _ budget_increment _) \<longleftrightarrow> fits64 budget_increment"
| "event_ok (BudgetConsumed _ amount) \<longleftrightarrow> fits64 amount"
| "event_ok _ \<longleftrightarrow> True"


definition ix_ok :: "IxCursor \<Rightarrow> bool" where
  "ix_ok c \<longleftrightarrow> ix_offset c \<le> length (ix_bytes c) \<and> length (ix_bytes c) \<le> isize_max"

definition ix_rest :: "IxCursor \<Rightarrow> bytes" where
  "ix_rest c = drop (ix_offset c) (ix_bytes c)"

lemma ix_read_bytes_eq:
  assumes "ix_ok c"
  shows "ix_read_bytes n c = (if n \<le> length (ix_rest c) then Inr (take n (ix_rest c), c\<lparr>ix_offset := ix_offset c + n\<rparr>)
    else Inl (IxTruncated (ix_offset c) n (length (ix_rest c))))"
proof -
  have "ix_offset c + n \<le> usize_max" if "n \<le> length (ix_rest c)"
    using that assms by (auto simp: ix_rest_def ix_ok_def isize_max_def usize_max_def)
  then show ?thesis by (simp add: ix_read_bytes_def ix_remaining_def ix_rest_def usize_checked_add_def Let_def)
qed

lemma ix_rest_advance: "ix_rest (c\<lparr>ix_offset := ix_offset c + n\<rparr>) = drop n (ix_rest c)"
  by (simp add: ix_rest_def add.commute)

lemma ix_ok_advance: "ix_ok c \<Longrightarrow> n \<le> length (ix_rest c) \<Longrightarrow> ix_ok (c\<lparr>ix_offset := ix_offset c + n\<rparr>)"
  by (auto simp: ix_ok_def ix_rest_def)

lemma exact_ix_bytes: "exact_reader ix_ok ix_rest (ix_read_bytes n) (\<lambda>v w. v = w \<and> length w = n)"
proof
  fix c v c' assume "ix_ok c" "ix_read_bytes n c = Inr (v, c')"
  then show "ix_ok c' \<and> (\<exists>w. (v = w \<and> length w = n) \<and> ix_rest c = w @ ix_rest c')"
    by (auto simp: ix_read_bytes_eq ix_rest_advance ix_ok_advance split: if_splits)
next
  fix c v w r assume "ix_ok c" "v = w \<and> length w = n" "ix_rest c = w @ r"
  then show "\<exists>c'. ix_read_bytes n c = Inr (v, c') \<and> ix_ok c' \<and> ix_rest c' = r"
    by (auto simp: ix_read_bytes_eq ix_rest_advance ix_ok_advance)
qed

lemma exact_with_offset:
  assumes "\<And>x. exact_reader ok rest (p x) img"
  shows "exact_reader ok rest (\<lambda>c. p (f c) c) img"
proof
  fix c v c' assume "ok c" "p (f c) c = Inr (v, c')"
  then show "ok c' \<and> (\<exists>w. img v w \<and> rest c = w @ rest c')" by (rule exact_reader.get_sound [OF assms])
next
  fix c v w r assume "ok c" "img v w" "rest c = w @ r"
  then show "\<exists>c'. p (f c) c = Inr (v, c') \<and> ok c' \<and> rest c' = r" by (rule exact_reader.get_complete [OF assms])
qed

lemma head_image:
  assumes "byte_codec enc dec n"
  shows "length w = Suc n \<and> w ! 0 = t \<and> v = dec (drop 1 w) \<longleftrightarrow> w = t # enc v"
  using byte_codec.enc_dec [OF assms, of "tl w"] byte_codec.width_enc [OF assms] byte_codec.dec_enc [OF assms]
  by (cases w) auto

lemma exact_ix_head: "exact_reader ix_ok ix_rest ix_read_head_raw (\<lambda>x w. w = fst x # to_le (snd x))"
  unfolding ix_read_head_raw_def IX_HEAD_LEN_def
proof (rule exact_cong [OF exact_bind [OF exact_ix_bytes exact_ret]])
  fix x :: "u8 \<times> u64" and w :: bytes
  show "(\<exists>v a b. (v = a \<and> length a = 9) \<and> (x = (v ! 0, from_le (drop 1 v)) \<and> b = []) \<and> w = a @ b) \<longleftrightarrow>
      w = fst x # to_le (snd x)"
    using head_image [OF le64.byte_codec_axioms, of w "fst x" "snd x"] by (cases x) auto
qed

lemma exact_guard:
  assumes "\<not> b \<Longrightarrow> exact_reader ok rest p img"
  shows "exact_reader ok rest (if b then rfail e else p) (\<lambda>v w. \<not> b \<and> img v w)"
  using assms exact_fail by (cases b) auto

lemma exact_ix_uint: "exact_reader ix_ok ix_rest ix_read_uint (\<lambda>v w. w = cbe_uint v)"
  unfolding ix_read_uint_def
proof (rule exact_with_offset [where f = ix_offset], rule exact_cong [OF exact_bind [OF exact_ix_head]])
  show "exact_reader ix_ok ix_rest (case v of (tag, n) \<Rightarrow> if tag \<noteq> 0 then rfail (BadHeadTag x 0 tag) else rret n)
      (\<lambda>y w. \<not> fst v \<noteq> 0 \<and> y = snd v \<and> w = [])" for x and v :: "u8 \<times> u64"
    unfolding case_prod_beta by (rule exact_guard [OF exact_ret])
qed (auto simp: cbe_uint_def)

lemma exact_ix_amount: "exact_reader ix_ok ix_rest ix_read_amount (\<lambda>v w. w = cbe_amount v)"
  unfolding ix_read_amount_def IX_AMOUNT_HEAD_LEN_def
proof (rule exact_with_offset [where f = ix_offset], rule exact_cong [OF exact_bind [OF exact_ix_bytes exact_guard [OF exact_ret]]])
  show "(\<exists>v a b. (v = a \<and> length a = 33) \<and> (\<not> v ! 0 \<noteq> 6 \<and> y = from_le (drop 1 v) \<and> b = []) \<and> w = a @ b) \<longleftrightarrow>
      w = cbe_amount y" for y w
    using head_image [OF le256.byte_codec_axioms, of w 6 y] by (auto simp: cbe_amount_def)
qed

lemma ucast_64_iff: "fits64 n \<longleftrightarrow> (\<exists>v :: u64. n = ucast v)" "fits64 n \<Longrightarrow> (ucast (ucast n :: u64) :: u128) = n"
  "ucast (ucast v :: u128) = (v :: u64)" "fits64 (ucast (v :: u64))"
proof -
  show r: "(ucast (ucast n :: u64) :: u128) = n" if "fits64 n"
    using that by (intro word_unat_eq_iff [THEN iffD2]) (simp add: unsigned_ucast_eq unsigned_take_bit_eq take_bit_nat_eq_self fits64_def)
  show f: "fits64 (ucast (v :: u64))" for v
    using unat_lt [of v] by (simp add: fits64_def unsigned_ucast_eq unsigned_take_bit_eq take_bit_nat_eq_self)
  show "ucast (ucast v :: u128) = (v :: u64)"
    using unat_lt [of v] by (intro word_unat_eq_iff [THEN iffD2]) (simp add: unsigned_ucast_eq unsigned_take_bit_eq take_bit_nat_eq_self)
  show "fits64 n \<longleftrightarrow> (\<exists>v :: u64. n = ucast v)" using r f by metis
qed

lemma exact_ix_wide:
  "exact_reader ix_ok ix_rest ix_read_nonce (\<lambda>v w. fits64 v \<and> w = cbe_uint (ucast v))"
  "exact_reader ix_ok ix_rest ix_read_budget_units (\<lambda>v w. fits64 v \<and> w = cbe_uint (ucast v))"
  unfolding ix_read_nonce_def ix_read_budget_units_def
  by (rule exact_cong [OF exact_bind [OF exact_ix_uint exact_ret]]; auto simp: ucast_64_iff)+

text \<open>A byte string behind its head, the length checked by \<open>P\<close>.\<close>

lemma exact_ix_tagged:
  assumes n: "\<And>len. \<not> bad len \<Longrightarrow> P (n len) \<and> n len = unat len"
    and Q: "\<And>k. P k \<Longrightarrow> k < 2 ^ 64 \<and> \<not> bad (of_nat k)"
  shows "exact_reader ix_ok ix_rest (rbind ix_read_head_raw (\<lambda>(tag, len).
     if tag \<noteq> 2 then rfail (e tag) else if bad len then rfail (e' len) else ix_read_bytes (n len)))
     (\<lambda>v w. P (length v) \<and> w = cbe_bytes v)"
proof (rule exact_cong [OF exact_bind [OF exact_ix_head]])
  show "exact_reader ix_ok ix_rest (case v of (tag, len) \<Rightarrow>
      if tag \<noteq> 2 then rfail (e tag) else if bad len then rfail (e' len) else ix_read_bytes (n len))
      (\<lambda>y w. \<not> fst v \<noteq> 2 \<and> \<not> bad (snd v) \<and> y = w \<and> length w = n (snd v))" for v :: "u8 \<times> u64"
    unfolding case_prod_beta by (rule exact_guard [OF exact_guard [OF exact_ix_bytes]])
  show "(\<exists>v a b. a = fst v # to_le (snd v) \<and> (\<not> fst v \<noteq> 2 \<and> \<not> bad (snd v) \<and> y = b \<and> length b = n (snd v)) \<and> w = a @ b) \<longleftrightarrow>
      P (length y) \<and> w = cbe_bytes y" (is "?L \<longleftrightarrow> ?R") for y w
  proof
    assume ?L
    then obtain len :: u64 where l: "\<not> bad len" "length y = n len" "w = (2 # to_le len) @ y" by auto
    then have "of_nat (length y) = len" using n by simp
    then show ?R using l n [of len] by (metis append_Cons cbe_bytes_def)
  next
    assume R: ?R
    then have "length y < 2 ^ 64" and b: "\<not> bad (of_nat (length y))" using Q by auto
    then have "n (of_nat (length y)) = length y" using n by (simp add: unat_of_nat)
    then show ?L using R b by (intro exI [of _ "(2, of_nat (length y))"]) (simp add: cbe_bytes_def)
  qed
qed

lemma exact_ix_string:
  "exact_reader ix_ok ix_rest ix_read_byte_string (\<lambda>v w. length v \<le> 1048576 \<and> w = cbe_bytes v)"
  unfolding ix_read_byte_string_def
  by (rule exact_with_offset [where f = ix_offset], rule exact_ix_tagged [where P = "\<lambda>k. k \<le> 1048576"])
    (auto simp: HARD_MAX_BYTE_STRING_LEN_def word_less_nat_alt unat_of_nat)

lemma exact_ix_exact:
  assumes "k < 2 ^ 64"
  shows "exact_reader ix_ok ix_rest (ix_read_byte_string_exact k) (\<lambda>v w. length v = k \<and> w = cbe_bytes v)"
  unfolding ix_read_byte_string_exact_def
  by (rule exact_with_offset [where f = ix_offset], rule exact_ix_tagged [where P = "\<lambda>m. m = k"]) (use assms in \<open>auto simp: unat_of_nat\<close>)

lemma event_tag_iff:
  "ucast (event_tag x) = (0 :: u64) \<longleftrightarrow> (\<exists>a b c d. x = BalanceChanged a b c d)"
  "ucast (event_tag x) = (1 :: u64) \<longleftrightarrow> (\<exists>a b c. x = NonceAdvanced a b c)"
  "ucast (event_tag x) = (2 :: u64) \<longleftrightarrow> (\<exists>a b. x = IdentityRegistered a b)"
  "ucast (event_tag x) = (3 :: u64) \<longleftrightarrow> (\<exists>a. x = IdentityRevoked a)"
  "ucast (event_tag x) = (4 :: u64) \<longleftrightarrow> (\<exists>a. x = TimeRecorded a)"
  "ucast (event_tag x) = (5 :: u64) \<longleftrightarrow> (\<exists>a b. x = DisputeFiled a b)"
  "ucast (event_tag x) = (6 :: u64) \<longleftrightarrow> (\<exists>a. x = DisputeWithdrawn a)"
  "ucast (event_tag x) = (7 :: u64) \<longleftrightarrow> (\<exists>a b. x = VerdictApplied a b)"
  "ucast (event_tag x) = (8 :: u64) \<longleftrightarrow> (\<exists>a b c. x = RewardIssued a b c)"
  "ucast (event_tag x) = (9 :: u64) \<longleftrightarrow> (\<exists>a b c d e. x = WithdrawalRequested a b c d e)"
  "ucast (event_tag x) = (10 :: u64) \<longleftrightarrow> (\<exists>a b c d. x = DepositCredited a b c d)"
  "ucast (event_tag x) = (11 :: u64) \<longleftrightarrow> (\<exists>a b. x = LocalPolicyDeclared a b)"
  "ucast (event_tag x) = (12 :: u64) \<longleftrightarrow> (\<exists>a. x = LocalPolicyRevoked a)"
  "ucast (event_tag x) = (13 :: u64) \<longleftrightarrow> (\<exists>a b c d e. x = FaultProofGameOpened a b c d e)"
  "ucast (event_tag x) = (14 :: u64) \<longleftrightarrow> (\<exists>a b c d e. x = FaultProofBisectionStep a b c d e)"
  "ucast (event_tag x) = (15 :: u64) \<longleftrightarrow> (\<exists>a b c d. x = FaultProofGameSettled a b c d)"
  "ucast (event_tag x) = (16 :: u64) \<longleftrightarrow> (\<exists>a b c d e f g. x = DepositWithFeeCredited a b c d e f g)"
  "ucast (event_tag x) = (17 :: u64) \<longleftrightarrow> (\<exists>a b c d e. x = ActionBudgetTopUp a b c d e)"
  "ucast (event_tag x) = (18 :: u64) \<longleftrightarrow> (\<exists>a b c. x = GasPoolClaim a b c)"
  "ucast (event_tag x) = (19 :: u64) \<longleftrightarrow> (\<exists>a b c d e f. x = DelegatedActionBudgetTopUp a b c d e f)"
  "ucast (event_tag x) = (20 :: u64) \<longleftrightarrow> (\<exists>a b. x = BudgetConsumed a b)"
  "ucast (event_tag x) = (22 :: u64) \<longleftrightarrow> (\<exists>a b c d. x = AmmReservesReclaimed a b c d)"
  "ucast (event_tag x) = (23 :: u64) \<longleftrightarrow> (\<exists>a b c d e f. x = ReserveSwapExecuted a b c d e f)"
  "ucast (event_tag x) = (24 :: u64) \<longleftrightarrow> (\<exists>a b c d. x = ReserveSeeded a b c d)"
  by (cases x; simp)+

lemma event_tag_range:
  "ucast (event_tag x) \<in> {0, 1, 2, 3, 4, 5, 6, 7, 8, 9, 10, 11, 12, 13, 14, 15, 16, 17, 18, 19, 20, 22, 23, 24 :: u64}"
  by (cases x) simp_all

lemma exact_if_tag:
  assumes "exact_reader ok rest p (img k)" and "t \<noteq> k \<Longrightarrow> exact_reader ok rest q (img t)"
  shows "exact_reader ok rest (if t = k then p else q) (img t)"
  using assms by (cases "t = k") simp_all

lemma exact_ix_address: "exact_reader ix_ok ix_rest ix_read_eth_address (\<lambda>v w. length v = 20 \<and> w = cbe_bytes v)"
  unfolding ix_read_eth_address_def ETH_ADDRESS_BYTES_def by (rule exact_ix_exact) simp

definition event_image :: "u64 \<Rightarrow> Event \<Rightarrow> bytes \<Rightarrow> bool" where
  "event_image t e w \<longleftrightarrow> ucast (event_tag e) = t \<and> event_ok e \<and> w = wire (event_fields e)"

lemmas exact_readers = exact_bind exact_ret exact_ix_uint exact_ix_amount exact_ix_wide exact_ix_string exact_ix_address

lemma exact_unknown_tag:
  assumes "\<And>e. ucast (event_tag e) \<noteq> t"
  shows "exact_reader ix_ok ix_rest (rfail x) (event_image t)"
  using assms by (intro exact_cong [OF exact_fail]) (simp add: event_image_def)

lemma exact_event_fields: "exact_reader ix_ok ix_rest (decode_fields t) (event_image t)"
  unfolding decode_fields_def
  apply (rule exact_if_tag [where img = event_image], rule exact_cong, (rule exact_readers)+,
    (auto simp: event_image_def event_tag_iff; fail))+
  apply (rule exact_unknown_tag, use event_tag_range in \<open>force\<close>)
  done

section \<open>The encoders against the fields\<close>

fun event_wide :: "Event \<Rightarrow> u128 list" where
  "event_wide (NonceAdvanced _ old_nonce new_nonce) = [old_nonce, new_nonce]"
| "event_wide (DepositWithFeeCredited _ _ _ _ _ budget_grant _) = [budget_grant]"
| "event_wide (ActionBudgetTopUp _ _ _ budget_increment _) = [budget_increment]"
| "event_wide (DelegatedActionBudgetTopUp _ _ _ _ budget_increment _) = [budget_increment]"
| "event_wide (BudgetConsumed _ amount) = [amount]"
| "event_wide _ = []"

lemma mask_64: "(ucast (n AND ucast (wmax :: u64)) :: u64) = ucast (n :: u128)"
  by (rule bit_word_eqI) (simp add: bit_simps wmax_def)

lemma wide_checked:
  "write_nonce_checked n out = (if fits64 n then Inr (write_nonce n out) else Inl (AmountExceedsBound n))"
  "write_budget_units_checked n out = (if fits64 n then Inr (write_budget_units n out) else Inl (AmountExceedsBound n))"
  by (auto simp: write_nonce_checked_def write_budget_units_checked_def write_nonce_def write_budget_units_def mask_64
    fits64_def word_le_nat_alt not_le push_bit_of_1)

lemma write_simps:
  "write_uint v out = out @ cbe_uint v" "write_amount a out = out @ cbe_amount a" "write_byte_string bs out = out @ cbe_bytes bs"
  "write_nonce n out = out @ cbe_uint (ucast n)" "write_budget_units n out = out @ cbe_uint (ucast n)"
  "write_eth_address bs out = out @ cbe_bytes bs"
  by (simp_all add: write_uint_def write_amount_def write_amount_head_def write_byte_string_def write_nonce_def
    write_budget_units_def write_eth_address_def mask_64 cbe_uint_def cbe_amount_def cbe_bytes_def)

lemma ix_encode_fields_wire: "ix_encode_fields e out = out @ wire (event_fields e)"
  by (cases e) (simp_all add: write_simps)

lemma encode_event_wire: "encode_event e = wire (FUint (ucast (event_tag e)) # event_fields e)"
  by (simp add: encode_event_def ix_encode_fields_wire write_simps)

lemma ix_encode_fields_checked_eq:
  "ix_encode_fields_checked e out = (case find (Not \<circ> fits64) (event_wide e) of
     Some n \<Rightarrow> Inl (AmountExceedsBound n) | None \<Rightarrow> Inr (ix_encode_fields e out))"
  by (cases e) (simp_all add: wide_checked)

lemma event_ok_wide: "event_ok e \<Longrightarrow> find (Not \<circ> fits64) (event_wide e) = None"
  by (cases e) simp_all

interpretation ix_event: exact_reader ix_ok ix_rest "rbind ix_read_uint decode_fields"
  "\<lambda>e w. event_ok e \<and> w = encode_event e"
  by (rule exact_cong [OF exact_bind [OF exact_ix_uint exact_event_fields]]) (auto simp: event_image_def encode_event_wire)

lemma ix_decode_event_iff:
  assumes "length payload \<le> isize_max"
  shows "ix_decode_event payload = Inr e \<longleftrightarrow> event_ok e \<and> payload = encode_event e"
proof -
  have ok: "ix_ok (ix_cursor_new payload)" and r: "ix_rest (ix_cursor_new payload) = payload"
    using assms by (simp_all add: ix_ok_def ix_rest_def ix_cursor_new_def)
  have "ix_decode_event payload = Inr e \<longleftrightarrow>
      (\<exists>c'. rbind ix_read_uint decode_fields (ix_cursor_new payload) = Inr (e, c') \<and> ix_rest c' = [])"
    by (auto simp: ix_decode_event_def ix_remaining_def ix_rest_def split: sum.splits prod.splits if_splits)
  then show ?thesis using ix_event.get_to_end [OF ok, of e] by (simp add: r)
qed

text \<open>
  C17: Over any payload a Rust slice can hold, the indexer's decoder accepts exactly the images of the checked
  encoder on the events whose byte strings have an admissible length: every other payload, a trailing byte, an
  unknown tag, a bad head or a truncation included, is an error.  The checked encoder writes what the plain one
  writes, and refuses exactly an event with a nonce or a budget amount above 64 bits, naming the first.
\<close>

theorem indexer_codec_exact:
  assumes "length payload \<le> isize_max"
  shows "(ix_decode_event payload = Inr e \<longleftrightarrow> event_ok e \<and> encode_event_checked e = Inr payload) \<and>
    encode_event_checked e = (case find (Not \<circ> fits64) (event_wide e) of
      Some n \<Rightarrow> Inl (AmountExceedsBound n) | None \<Rightarrow> Inr (encode_event e))"
proof -
  have c: "encode_event_checked e = (case find (Not \<circ> fits64) (event_wide e) of
      Some n \<Rightarrow> Inl (AmountExceedsBound n) | None \<Rightarrow> Inr (encode_event e))"
    unfolding encode_event_checked_def encode_event_def ix_encode_fields_checked_eq ..
  have "ix_decode_event payload = Inr e \<longleftrightarrow> event_ok e \<and> encode_event_checked e = Inr payload"
    unfolding ix_decode_event_iff [OF assms] c using event_ok_wide [of e] by (cases "event_ok e") auto
  from this c show ?thesis ..
qed

theorem indexer_codec_exact_witness:
  "ix_decode_event (encode_event (NonceAdvanced 7 3 4)) = Inr (NonceAdvanced 7 3 4) \<and>
   length (encode_event (NonceAdvanced 7 3 4)) = 36 \<and>
   encode_event_checked (NonceAdvanced 7 3 18446744073709551616) = Inl (AmountExceedsBound 18446744073709551616)"
proof -
  have l: "length (encode_event (NonceAdvanced 7 3 4)) = 36"
    by (simp add: encode_event_wire cbe_uint_def codec)
  then have b: "length (encode_event (NonceAdvanced 7 3 4)) \<le> isize_max" by (simp add: isize_max_def)
  have f: "fits64 3" "fits64 4" "\<not> fits64 18446744073709551616" by (simp_all add: fits64_def)
  have e: "encode_event_checked (NonceAdvanced 7 3 4) = Inr (encode_event (NonceAdvanced 7 3 4))"
    using indexer_codec_exact [OF b, of "NonceAdvanced 7 3 4"] f by simp
  have w: "encode_event_checked (NonceAdvanced 7 3 18446744073709551616) = Inl (AmountExceedsBound 18446744073709551616)"
    using indexer_codec_exact [OF b, of "NonceAdvanced 7 3 18446744073709551616"] f by simp
  show ?thesis using indexer_codec_exact [OF b, of "NonceAdvanced 7 3 4"] e f w l by simp
qed

end
