(* ===== verification/Spec2Isabelle.thy ===== *)
theory Spec2Isabelle
  imports Amount256 Host_Gate L1_Translation L1_Reorg Drr Strategy Gateway_Backfill Observer_Safety Indexer_Codec
begin

text \<open>
  Verification of the Rust runtime of Knomosis (\<open>src/runtime\<close>): the components that carry
  protocol decisions, modelled as executable functions, with the theorems that make them correct.

  \<^bold>\<open>The program.\<close>  The runtime surrounds a kernel that orders and executes signed actions.  The L1 ingestor
  (\<open>knomosis-l1-ingest\<close>) turns logs of the L1 contracts into signed bridge actions; the host
  (\<open>knomosis-host\<close>) admits actions, charges their budget and schedules them fairly; the event server
  (\<open>knomosis-event-subscribe\<close>) publishes what the kernel did; the gateway (\<open>knomosis-gateway\<close>) and the indexer
  (\<open>knomosis-indexer\<close>) subscribe to it; the fault-proof observer (\<open>knomosis-faultproof-observer\<close>) plays
  the dispute game on L1.  They share the amount type (\<open>knomosis-amount\<close>) and the CBE wire encoding.

  \<^bold>\<open>Conventions.\<close>  Machine integers are words of their width, \<open>usize\<close> is a natural number whose bound is written
  out where the source checks it, \<open>Result\<close> is a sum with the error on the left, a call that can panic
  returns a \<open>rust\<close> value, a \<open>BTreeMap\<close> is its ordered list of entries.  A stateful method takes the
  record of its struct and returns it updated.  A clash of names between crates is resolved by a prefix
  (\<open>ix_decode_event\<close> is \<open>decode_event\<close> of the indexer).

  \<^bold>\<open>Theories and the code they model.\<close>
  \<^item> \<open>Prelude\<close>, \<open>BTree_Map\<close>: integers, byte order codecs, errors, ordered maps of the standard library.
  \<^item> \<open>Amount256\<close>: \<open>knomosis-amount/src/lib.rs\<close>.  The interface refines 256-bit word arithmetic; printing and parsing
    are inverse; the parser decides every input.
  \<^item> \<open>Cbe_Wire\<close>: the wire items and the contract \<open>exact_reader\<close> of a decoder against its grammar.
  \<^item> \<open>Host_Budget\<close>, \<open>Host_Gate\<close>: \<open>knomosis-host/src/budget.rs\<close>.  The codecs and \<open>decode_budget_view\<close> accept exactly
    the canonical encodings; the gate conserves budget, limits the rate, and a strict gate admits only
    covered actions.
  \<^item> \<open>Drr\<close>: \<open>knomosis-host/src/fair/drr.rs\<close>.  No panic, all caps, FIFO per flow, bounded waiting.
  \<^item> \<open>L1_Action\<close>, \<open>L1_Events\<close>, \<open>L1_Translation\<close>, \<open>L1_Reorg\<close>: \<open>action.rs\<close>, \<open>encoding.rs\<close>, \<open>events.rs\<close>, \<open>address_book.rs\<close>,
    \<open>translation.rs\<close> and \<open>reorg.rs\<close> of \<open>knomosis-l1-ingest\<close>.  Injective and prefix-free encodings, an exact log decoder,
    a bijective address book, a window that stays linked and follows its specification.
  \<^item> \<open>Event_Frame\<close>, \<open>Event_Cache\<close>, \<open>Subscription\<close>, \<open>Event_Server\<close>: \<open>frame.rs\<close>, \<open>event_cache.rs\<close>, \<open>subscription.rs\<close>, \<open>server.rs\<close> of
    \<open>knomosis-event-subscribe\<close> and \<open>client.rs\<close> of the indexer.  Frames survive any chunking, both
    parsers agree, and a subscriber that never lagged is sent exactly the published events, under every
    interleaving with the extractor; a lagging one is sent a stream with a hole.
  \<^item> \<open>Gateway_Ring\<close>, \<open>Gateway_Mux\<close>, \<open>Gateway_Backfill\<close>: \<open>events/fanout/*.rs\<close>, \<open>events/subscribe.rs\<close>, \<open>events/stream.rs\<close>,
    \<open>events/backfill.rs\<close> of the gateway.  What a client is offered across drops, reconnects and gaps, and
    the one case in which a page silently loses events.
  \<^item> \<open>Indexer_Codec\<close>: \<open>event.rs\<close> and \<open>decoder.rs\<close> of the indexer.  The decoder accepts exactly what the checked encoder
    writes.
  \<^item> \<open>Game\<close>, \<open>Strategy\<close>, \<open>Calldata\<close>, \<open>Game_Events\<close>, \<open>State_Reader\<close>, \<open>Watcher\<close>, \<open>Observer_Store\<close>, \<open>Observer\<close>: \<open>game.rs\<close>, \<open>strategy.rs\<close>,
    \<open>submitter.rs\<close>, \<open>events.rs\<close>, \<open>state_reader.rs\<close>, \<open>watcher.rs\<close>, \<open>persistence.rs\<close>, \<open>observer.rs\<close> of the observer.  The game
    ends within 64 rounds, honest play keeps the disagreement in range, calldata and logs match the ABI,
    and the watcher delivers every confirmed block once.
  \<^item> \<open>Observer_Safety\<close>: the observer across crashes and restarts.  At most one live transaction for a move, only
    due and honest moves, well-formed records, and the failure that breaks the first of these.
  \<^item> This theory: from a log of the L1 contract through the ingestor's encoding to the budget gate of the host.

  \<^bold>\<open>Interfaces.\<close>  The locales are \<open>byte_codec\<close> (Prelude), \<open>exact_reader\<close> and \<open>cbe_reader\<close> (Cbe_Wire; the host's cursor and the
  indexer's decoder implement them), \<open>u256_laws\<close> (Amount256), \<open>flow_store\<close> and \<open>flow_push\<close> (Drr), \<open>frame_parser\<close> (Event_Frame),
  \<open>truth_oracle\<close> (Strategy) and \<open>game_state_reader\<close> (State_Reader).

  \<^bold>\<open>Parameters and hypotheses.\<close>  Code outside the repository is an argument: the 256-bit integer type of
  \<open>crypto_bigint\<close> with the laws \<open>u256_laws\<close>, Keccak-256, the hexadecimal codec, the L1 node, the signer, the rendering of
  events, the iteration order of hash maps.  \<open>env_ok\<close> states what the observer relies on: decoding inverts hexadecimal
  encoding, a signed transaction has a 32-byte hash, a hash map is iterated without repetition, and a
  contract read that validates is a validated state.  \<open>fail_stop\<close> says that a store that failed a call fails every later
  call of that process; \<open>swallowed_failure_doubles\<close> shows that \<open>one_live_response\<close> needs it.  Slices are at most
  \<open>isize_max\<close> bytes long, as Rust guarantees.

  \<^bold>\<open>Loops.\<close>  No definition takes fuel.  Loops over data are structural recursions or have a termination proof; the service
  loops (a connection, a subscription, the observer's polling) are arbitrary sequences of their steps, and liveness is stated as a
  bound on the number of steps.

  \<^bold>\<open>Not modelled.\<close>  Sockets, TLS, HTTP parsing, thread spawning, sleeping, logging, command lines and configuration files:
  input and output with no protocol state.  The host's kernel subprocess, listener, frame reader,
  verdicts and queue; the gateway's HTTP, authentication, read and submit endpoints; the log tail and
  extractor of the event server; the ingestor's watcher, state file, receipt verification and claims; the indexer's
  storage and materialised views with \<open>knomosis-storage\<close>, whose operations are statements of the external SQLite engine.
  The Keccak and secp256k1 adaptors only call external crates.  Benches, fuzz targets, fixtures and cross-stack tests are not
  part of the running system.  The Lean kernel, the Lex compiler and the Solidity contracts are other programs of the repository
  with their own proofs and tests; this development is about the Rust runtime.
\<close>

section \<open>From the L1 ingestor to the budget gate\<close>

text \<open>The budget view the gate must extract from an action of the ingestor.\<close>

fun budget_kind :: "Action \<Rightarrow> ActionBudgetKind" where
  "budget_kind (Action.DepositWithFee r rcpt pool user poolamt grant d sd) =
     ActionBudgetKind.DepositWithFee rcpt grant"
| "budget_kind (Action.TopUpActionBudget res gas incr pool) =
     ActionBudgetKind.TopUpActionBudget res pool gas incr"
| "budget_kind (Action.TopUpActionBudgetFor rcpt res gas incr pool) =
     ActionBudgetKind.TopUpActionBudgetFor rcpt res pool gas incr"
| "budget_kind (Action.ClaimBudgetRefund res units wei pool) =
     ActionBudgetKind.ClaimBudgetRefund res pool units wei"
| "budget_kind _ = Ordinary"

lemma action_shape_fields:
  "action_shape (action_tag a) = Some (map wshape_of (map field_val (action_fields a)))"
  by (cases a) (simp_all add: action_shape_def)

lemma kind_of_action_fields:
  "kind_of_fields (action_tag a) (map field_val (action_fields a)) = budget_kind a"
  by (cases a) (simp_all add: kind_of_fields_def)

lemma encoded_view_image:
  assumes "encode_signed_action a s n sig = Inr bs"
  shows "view_image \<lparr>signer = s, kind = budget_kind a\<rparr> bs"
proof -
  let ?fs = "action_fields a" and ?n = "ucast n :: u64"
  note e = assms [unfolded encode_signed_action_Inr]
  then have "list_all field_ok (FUint (action_tag a) # ?fs @ [FUint s, FUint ?n, FBytes sig])"
    by (simp add: action_fields_ok)
  from wimg_wire [OF this] e
  have "wimg (VUint (action_tag a) # map field_val ?fs @ [VUint s, VUint ?n, VBytes]) bs" by simp
  then show ?thesis unfolding view_image_def
    using action_shape_fields [of a] kind_of_action_fields [of a] by fastforce
qed

lemma decode_encoded:
  assumes "encode_signed_action a s n sig = Inr bs" "length bs \<le> isize_max"
  shows "decode_budget_view bs = Inr \<lparr>signer = s, kind = budget_kind a\<rparr>"
  unfolding decode_budget_view_def
  using decode_all_exact [OF exact_decode_view assms(2)] encoded_view_image [OF assms(1)] by simp

text \<open>
  C2: The two ends of the wire agree: whatever signed action the ingestor encodes, the host's
  budget decoder reads back the same signer and exactly the budget effect of that action.
\<close>

theorem ingest_host_agree:
  assumes "encode_signed_action a s n sig = Inr bs" and "length bs \<le> isize_max"
  shows "decode_budget_view bs = Inr \<lparr>signer = s, kind = budget_kind a\<rparr>"
  by (rule decode_encoded [OF assms])

theorem ingest_host_agree_witness:
  "\<exists>bs. encode_signed_action (Action.TopUpActionBudget 0 80 30 1) 5 2 [7] = Inr bs \<and>
     decode_budget_view bs = Inr \<lparr>signer = 5, kind = ActionBudgetKind.TopUpActionBudget 0 1 80 30\<rparr>"
proof -
  obtain bs where bs: "encode_signed_action (Action.TopUpActionBudget 0 80 30 1) 5 2 [7] = Inr bs"
      "length bs \<le> isize_max"
    by (auto simp: encode_signed_action_Inr isize_max_def)
  then show ?thesis using ingest_host_agree [OF bs] by auto
qed






end
